(* ===== verification/Dsys_Prelude.thy ===== *)
theory Dsys_Prelude
  imports Main "HOL-Library.AList" "HOL-Library.Multiset"
begin

text \<open>
  Shared vocabulary of the development: the types that stand for Go's \<open>string\<close> and
  \<open>[]byte\<close>, Go's \<open>map\<close> as an association list, decimal conversion
  (\<open>strconv.Itoa\<close> and \<open>strconv.Atoi\<close>), reachability in a labelled transition
  system, the proof rule for inductive invariants as a locale, and the list lemmas that
  several components use.
\<close>

named_theorems go_map \<comment> \<open>lookups in updated Go maps\<close>
named_theorems step_defs \<comment> \<open>definitions of handler steps\<close>

section \<open>Types\<close>

text \<open>
  An Isabelle \<open>char\<close> is a byte, so \<open>string\<close> stands for a Go \<open>string\<close> and for a
  \<open>[]byte\<close>. Go's \<open>map[K]V\<close> is an association list whose keys are distinct; its
  iteration order, which Go leaves open, is the order of the list, and no property of the
  development depends on it.
\<close>

type_synonym bytes = string

type_synonym ('k, 'v) gomap = "('k \<times> 'v) list"

abbreviation gm_get :: "('k, 'v) gomap \<Rightarrow> 'k \<Rightarrow> 'v option" where
  "gm_get m k \<equiv> map_of m k"

abbreviation gm_set :: "'k \<Rightarrow> 'v \<Rightarrow> ('k, 'v) gomap \<Rightarrow> ('k, 'v) gomap" where
  "gm_set \<equiv> AList.update"

abbreviation gm_del :: "'k \<Rightarrow> ('k, 'v) gomap \<Rightarrow> ('k, 'v) gomap" where
  "gm_del \<equiv> AList.delete"

definition gm_keys :: "('k, 'v) gomap \<Rightarrow> 'k set" where
  "gm_keys m = set (map fst m)"

definition gm_wf :: "('k, 'v) gomap \<Rightarrow> bool" where
  "gm_wf m \<longleftrightarrow> distinct (map fst m)"

section \<open>Go maps\<close>

lemma gm_get_set [go_map, simp]: "gm_get (gm_set k v m) j = (if j = k then Some v else gm_get m j)"
  by (simp add: update_conv)

lemma gm_get_del [go_map, simp]: "gm_get (gm_del k m) j = (if j = k then None else gm_get m j)"
  by (simp add: delete_conv)

lemma gm_keys_dom: "gm_keys m = dom (gm_get m)"
  by (simp add: gm_keys_def dom_map_of_conv_image_fst)

lemma gm_keys_Nil [simp]: "gm_keys [] = {}"
  by (simp add: gm_keys_def)

lemma gm_keys_Cons [simp]: "gm_keys ((k, v) # m) = insert k (gm_keys m)"
  by (simp add: gm_keys_def)

lemma gm_keys_empty [simp]: "gm_keys m = {} \<longleftrightarrow> m = []"
  by (simp add: gm_keys_def)

lemma gm_keys_set [go_map, simp]: "gm_keys (gm_set k v m) = insert k (gm_keys m)"
  by (auto simp: gm_keys_dom dom_def split: if_splits)

lemma gm_keys_del [go_map, simp]: "gm_keys (gm_del k m) = gm_keys m - {k}"
  by (auto simp: gm_keys_dom dom_def split: if_splits)

lemma gm_wf_Nil [simp]: "gm_wf []"
  by (simp add: gm_wf_def)

lemma gm_wf_set [simp]: "gm_wf m \<Longrightarrow> gm_wf (gm_set k v m)"
  by (simp add: gm_wf_def distinct_update)

lemma gm_wf_del [simp]: "gm_wf m \<Longrightarrow> gm_wf (gm_del k m)"
  by (simp add: gm_wf_def distinct_delete)

lemma gm_get_Some_key: "gm_get m k = Some v \<Longrightarrow> k \<in> gm_keys m"
  by (auto simp: gm_keys_dom)

lemma gm_get_None_key: "gm_get m k = None \<longleftrightarrow> k \<notin> gm_keys m"
  by (auto simp: gm_keys_dom)

lemma gm_key_get: "k \<in> gm_keys m \<Longrightarrow> \<exists>v. gm_get m k = Some v"
  by (metis gm_get_None_key option.exhaust)

lemma gm_get_mem: "gm_wf m \<Longrightarrow> (k, v) \<in> set m \<longleftrightarrow> gm_get m k = Some v"
  by (simp add: gm_wf_def)

lemma gm_del_shorter: "gm_get m k = Some v \<Longrightarrow> length (gm_del k m) < length m"
proof -
  assume "gm_get m k = Some v"
  then have "(k, v) \<in> set m" by (rule map_of_SomeD)
  then show ?thesis
    by (simp add: AList.delete_eq length_filter_less)
qed

lemma gm_set_subset: "set (gm_set k v m) \<subseteq> insert (k, v) (set m)"
  by (induction m) auto

lemma gm_del_subset: "set (gm_del k m) \<subseteq> set m"
  by (auto simp: AList.delete_eq)

lemma gm_card: "gm_wf m \<Longrightarrow> card (gm_keys m) = length m"
  by (metis distinct_card gm_keys_def gm_wf_def length_map)

text \<open>The multiset of the values of a map.\<close>

definition gm_vals :: "('k, 'v) gomap \<Rightarrow> 'v multiset" where
  "gm_vals m = mset (map snd m)"

lemma gm_vals_Nil [simp]: "gm_vals [] = {#}"
  by (simp add: gm_vals_def)

lemma gm_vals_new: "gm_get m k = None \<Longrightarrow> gm_vals (gm_set k v m) = add_mset v (gm_vals m)"
  by (induction m) (auto simp: gm_vals_def split: if_splits)

lemma gm_del_absent: "gm_get m k = None \<Longrightarrow> gm_del k m = m"
  by (induction m) (auto split: if_splits)

lemma gm_vals_set:
  "gm_wf m \<Longrightarrow> gm_get m k = Some u \<Longrightarrow> add_mset u (gm_vals (gm_set k v m)) = add_mset v (gm_vals m)"
  by (induction m) (auto simp: gm_vals_def gm_wf_def split: if_splits)

lemma gm_vals_del:
  "gm_wf m \<Longrightarrow> gm_get m k = Some u \<Longrightarrow> gm_vals m = add_mset u (gm_vals (gm_del k m))"
proof (induction m)
  case (Cons p m)
  show ?case
  proof (cases "fst p = k")
    case True
    then have "gm_get m k = None" using Cons.prems(1) by (auto simp: gm_wf_def map_of_eq_None_iff)
    then show ?thesis using Cons.prems True gm_del_absent [of m k] by (cases p) (auto simp: gm_vals_def)
  next
    case False
    then show ?thesis using Cons by (cases p) (auto simp: gm_vals_def gm_wf_def)
  qed
qed simp

section \<open>strconv\<close>

text \<open>
  \<open>strconv.Itoa\<close>: decimal digits, most significant first, with a minus sign for a
  negative number. \<open>strconv.Atoi\<close> returns the number, or an error when the text is not
  an optional sign followed by at least one digit (the range error of a number beyond 64
  bits is not needed by any caller and not modelled).
\<close>

definition digit_char :: "nat \<Rightarrow> char" where
  "digit_char d = char_of (48 + d)"

definition is_digit :: "char \<Rightarrow> bool" where
  "is_digit c \<longleftrightarrow> 48 \<le> (of_char c :: nat) \<and> (of_char c :: nat) \<le> 57"

definition digit_val :: "char \<Rightarrow> nat" where
  "digit_val c = of_char c - 48"

fun utoa :: "nat \<Rightarrow> string" where
  "utoa n = (if n < 10 then [digit_char n] else utoa (n div 10) @ [digit_char (n mod 10)])"

declare utoa.simps [simp del]

definition Itoa :: "int \<Rightarrow> string" where
  "Itoa i = (if i < 0 then CHR ''-'' # utoa (nat (- i)) else utoa (nat i))"

definition atou :: "string \<Rightarrow> nat option" where
  "atou s = (if s = [] \<or> \<not> list_all is_digit s then None
             else Some (foldl (\<lambda>n c. 10 * n + digit_val c) 0 s))"

definition Atoi :: "string \<Rightarrow> int option" where
  "Atoi s = (case s of
       [] \<Rightarrow> None
     | c # cs \<Rightarrow>
         if c = CHR ''-'' then map_option (\<lambda>n. - int n) (atou cs)
         else if c = CHR ''+'' then map_option int (atou cs)
         else map_option int (atou s))"

lemma of_char_digit: "d < 10 \<Longrightarrow> (of_char (digit_char d) :: nat) = 48 + d"
  by (simp add: digit_char_def)

lemma is_digit_digit_char: "d < 10 \<Longrightarrow> is_digit (digit_char d)"
  by (simp add: is_digit_def of_char_digit)

lemma digit_val_digit_char: "d < 10 \<Longrightarrow> digit_val (digit_char d) = d"
  by (simp add: digit_val_def of_char_digit)

lemma utoa_not_Nil: "utoa n \<noteq> []"
  by (subst utoa.simps) simp

lemma utoa_digits: "list_all is_digit (utoa n)"
proof (induction n rule: utoa.induct)
  case (1 n)
  then show ?case
    by (cases "n < 10") (simp_all add: utoa.simps [of n] is_digit_digit_char)
qed

lemma utoa_value: "foldl (\<lambda>n c. 10 * n + digit_val c) 0 (utoa n) = n"
proof (induction n rule: utoa.induct)
  case (1 n)
  then show ?case
    by (cases "n < 10") (simp_all add: utoa.simps [of n] digit_val_digit_char)
qed

lemma atou_utoa: "atou (utoa n) = Some n"
  by (simp add: atou_def utoa_not_Nil utoa_digits utoa_value)

lemma utoa_head_digit: "utoa n = c # cs \<Longrightarrow> is_digit c"
  using utoa_digits [of n] by simp

lemma not_is_digit_signs: "\<not> is_digit (CHR ''-'')" "\<not> is_digit (CHR ''+'')"
  by (simp_all add: is_digit_def)

lemma Atoi_Itoa: "Atoi (Itoa i) = Some i"
proof (cases "i < 0")
  case True
  then show ?thesis by (simp add: Atoi_def Itoa_def atou_utoa)
next
  case False
  obtain c cs where c: "utoa (nat i) = c # cs"
    using utoa_not_Nil [of "nat i"] by (cases "utoa (nat i)") auto
  then have "c \<noteq> CHR ''-''" "c \<noteq> CHR ''+''"
    using utoa_head_digit [OF c] not_is_digit_signs by auto
  then have "Atoi (utoa (nat i)) = map_option int (atou (utoa (nat i)))"
    by (simp add: Atoi_def c)
  with False show ?thesis by (simp add: Itoa_def atou_utoa)
qed

lemma Itoa_inject [simp]: "Itoa i = Itoa j \<longleftrightarrow> i = j"
  by (metis Atoi_Itoa option.inject)

section \<open>Reachable states and inductive invariants\<close>

inductive reach :: "('s \<Rightarrow> bool) \<Rightarrow> ('s \<Rightarrow> 'e \<Rightarrow> 's \<Rightarrow> bool) \<Rightarrow> 's \<Rightarrow> bool"
  for init step where
  reach_init: "init s \<Longrightarrow> reach init step s"
| reach_step: "reach init step s \<Longrightarrow> step s e t \<Longrightarrow> reach init step t"

text \<open>A run from a state: the events taken, one after the other.\<close>

inductive steps :: "('s \<Rightarrow> 'e \<Rightarrow> 's \<Rightarrow> bool) \<Rightarrow> 's \<Rightarrow> 'e list \<Rightarrow> 's \<Rightarrow> bool"
  for step where
  steps_Nil: "steps step s [] s"
| steps_Cons: "step s e t \<Longrightarrow> steps step t es u \<Longrightarrow> steps step s (e # es) u"

inductive_simps steps_simps: "steps step s [] t" "steps step s (e # es) t"

lemma steps_one: "step s e t \<Longrightarrow> steps step s [e] t"
  by (simp add: steps_simps)

lemma steps_append: "steps step s es t \<Longrightarrow> steps step t fs u \<Longrightarrow> steps step s (es @ fs) u"
  by (induction es arbitrary: s) (auto simp: steps_simps)

lemma steps_mono: "steps st s es t \<Longrightarrow> (\<And>s e t. st s e t \<Longrightarrow> st' s e t) \<Longrightarrow> steps st' s es t"
  by (induction rule: steps.induct) (auto intro: steps.intros)

lemma reach_steps: "steps step s es t \<Longrightarrow> reach init step s \<Longrightarrow> reach init step t"
  by (induction rule: steps.induct) (auto intro: reach_step)

text \<open>A state with the property can be reached.\<close>

definition can_reach :: "('s \<Rightarrow> 'e \<Rightarrow> 's \<Rightarrow> bool) \<Rightarrow> 's \<Rightarrow> ('s \<Rightarrow> bool) \<Rightarrow> bool" where
  "can_reach step s P \<longleftrightarrow> (\<exists>es t. steps step s es t \<and> P t)"

lemma can_reach_now: "P s \<Longrightarrow> can_reach step s P"
  unfolding can_reach_def by (rule exI [of _ "[]"]) (auto simp: steps_simps)

lemma can_reach_step:
  assumes "step s e t" and "can_reach step t P"
  shows "can_reach step s P"
proof -
  from assms(2) obtain es u where "steps step t es u" "P u" by (auto simp: can_reach_def)
  with steps_Cons [of step s e t, OF assms(1)] show ?thesis by (auto simp: can_reach_def)
qed

lemma can_reach_trans:
  "can_reach step s P \<Longrightarrow> (\<And>t. P t \<Longrightarrow> can_reach step t Q) \<Longrightarrow> can_reach step s Q"
  unfolding can_reach_def by (blast intro: steps_append)

lemma can_reach_mono: "can_reach step s P \<Longrightarrow> (\<And>t. P t \<Longrightarrow> Q t) \<Longrightarrow> can_reach step s Q"
  unfolding can_reach_def by blast

text \<open>
  The contract of an invariant: it holds at the start and every step keeps it. Each
  component interprets it on its own step relation.
\<close>

locale inductive_invariant =
  fixes init :: "'s \<Rightarrow> bool"
    and step :: "'s \<Rightarrow> 'e \<Rightarrow> 's \<Rightarrow> bool"
    and inv :: "'s \<Rightarrow> bool"
  assumes init_inv: "init s \<Longrightarrow> inv s"
    and step_inv: "inv s \<Longrightarrow> step s e t \<Longrightarrow> inv t"
begin

lemma reach_inv: "reach init step s \<Longrightarrow> inv s"
  by (induction rule: reach.induct) (auto intro: init_inv step_inv)

lemma steps_inv: "steps step s es t \<Longrightarrow> inv s \<Longrightarrow> inv t"
  by (induction rule: steps.induct) (auto intro: step_inv)

end

text \<open>
  The contract of a refinement: under an invariant, a step of the system with a visible label is
  a step of the specification with the same label. Then every run of the system has the labels
  of a run of the specification.
\<close>

locale trace_refinement = inductive_invariant init step inv
  for init :: "'s \<Rightarrow> bool" and step :: "'s \<Rightarrow> 'l \<Rightarrow> 's \<Rightarrow> bool" and inv :: "'s \<Rightarrow> bool" +
  fixes spec :: "'a \<Rightarrow> 'l \<Rightarrow> 'a \<Rightarrow> bool"
    and abs :: "'s \<Rightarrow> 'a"
  assumes refines: "inv s \<Longrightarrow> step s l t \<Longrightarrow> spec (abs s) l (abs t)"
begin

lemma steps_refine: "steps step s ls t \<Longrightarrow> inv s \<Longrightarrow> steps spec (abs s) ls (abs t)"
  by (induction rule: steps.induct) (auto intro: steps.intros refines step_inv)

lemma runs_refine: "init s \<Longrightarrow> steps step s ls t \<Longrightarrow> steps spec (abs s) ls (abs t)"
  using steps_refine init_inv by blast

end

text \<open>
  Executing a list of events with a step function that yields the next state and some
  output, or \<open>None\<close> where the event is not possible.
\<close>

fun run_opt :: "('e \<Rightarrow> 's \<Rightarrow> ('s \<times> 'o) option) \<Rightarrow> 'e list \<Rightarrow> 's \<Rightarrow> 's option" where
  "run_opt f [] s = Some s"
| "run_opt f (e # es) s = (case f e s of None \<Rightarrow> None | Some (t, _) \<Rightarrow> run_opt f es t)"

lemma run_opt_steps: "run_opt f es s = Some t \<Longrightarrow> steps (\<lambda>s e t. \<exists>sent. f e s = Some (t, sent)) s es t"
proof (induction es arbitrary: s)
  case Nil
  then show ?case by (simp add: steps_Nil)
next
  case (Cons e es)
  then obtain u sent where "f e s = Some (u, sent)" "run_opt f es u = Some t"
    by (auto split: option.splits)
  with Cons.IH show ?case by (blast intro: steps_Cons)
qed

section \<open>Repeating a step\<close>

fun repeat_opt :: "nat \<Rightarrow> ('s \<Rightarrow> 's option) \<Rightarrow> 's \<Rightarrow> 's option" where
  "repeat_opt 0 f s = Some s"
| "repeat_opt (Suc n) f s = (case f s of None \<Rightarrow> None | Some t \<Rightarrow> repeat_opt n f t)"

text \<open>
  A counter that a timer advances and that expires when it reaches its limit: the contract
  of the epoch counters of the LSP handlers.
\<close>

locale epoch_counter =
  fixes tick :: "'s \<Rightarrow> 's option"
    and bump :: "'s \<Rightarrow> 's"
    and expire :: "'s \<Rightarrow> 's"
    and epoch :: "'s \<Rightarrow> int"
    and limit :: "'s \<Rightarrow> int"
    and live :: "'s \<Rightarrow> bool"
  assumes tick_alive: "live s \<Longrightarrow> epoch s + 1 \<noteq> limit s \<Longrightarrow> tick s = Some (bump s)"
    and tick_expire: "live s \<Longrightarrow> epoch s + 1 = limit s \<Longrightarrow> tick s = Some (expire s)"
    and live_bump: "live (bump s) = live s"
    and epoch_bump: "epoch (bump s) = epoch s + 1"
    and limit_bump: "limit (bump s) = limit s"
begin

lemma ticks_alive:
  "live s \<Longrightarrow> epoch s + int n < limit s \<Longrightarrow> repeat_opt n tick s = Some ((bump ^^ n) s)"
proof (induction n arbitrary: s)
  case (Suc n)
  then have "tick s = Some (bump s)" by (simp add: tick_alive)
  with Suc show ?case
    by (simp add: live_bump epoch_bump limit_bump funpow_Suc_right del: funpow.simps)
qed simp

lemma ticks_expire:
  "live s \<Longrightarrow> limit s = epoch s + int (Suc n) \<Longrightarrow>
   repeat_opt (Suc n) tick s = Some (expire ((bump ^^ n) s))"
proof (induction n arbitrary: s)
  case 0
  then show ?case by (simp add: tick_expire)
next
  case (Suc n)
  then have "tick s = Some (bump s)" by (simp add: tick_alive)
  with Suc show ?case
    by (simp add: live_bump epoch_bump limit_bump funpow_Suc_right
        del: funpow.simps repeat_opt.simps(2) add: repeat_opt.simps(2) [of "Suc n"])
qed

end

section \<open>Lists\<close>

lemma foldl_min_le: "foldl min a xs \<le> (a :: int)"
proof (induction xs arbitrary: a)
  case (Cons x xs)
  from Cons.IH [of "min a x"] show ?case by simp
qed simp

lemma foldl_min_mem_le: "x \<in> set xs \<Longrightarrow> foldl min a xs \<le> (x :: int)"
proof (induction xs arbitrary: a)
  case (Cons y ys)
  then show ?case
    using foldl_min_le [of "min a y" ys] by auto
qed simp

lemma foldl_min_in: "foldl min a xs = a \<or> foldl min a xs \<in> set (xs :: int list)"
proof (induction xs arbitrary: a)
  case (Cons y ys)
  then show ?case by (cases "a \<le> y") (force simp: min_def)+
qed simp

lemma take_Suc_append_nth: "n < length xs \<Longrightarrow> take n xs @ [xs ! n] = take (Suc n) xs"
  by (simp add: take_Suc_conv_app_nth)

end
