(* ===== verification/Bufchan.thy ===== *)
theory Bufchan
  imports Dsys_Prelude
begin

text \<open>
  \<open>bufchan/buffchan.go\<close>: an unbounded channel made of a \<open>container/list\<close>, a mutex and
  a condition variable. The first part models every method as one critical section on the
  list; the second part models the condition variable, with the goroutines that wait in
  \<open>Remove\<close>, and shows that no wake-up is lost.
\<close>

section \<open>A FIFO interface\<close>

datatype 'a qop = Enq 'a | Deq

fun q_run :: "('a \<Rightarrow> 'q \<Rightarrow> 'q) \<Rightarrow> ('q \<Rightarrow> ('a \<times> 'q) option) \<Rightarrow> 'a qop list \<Rightarrow> 'q \<Rightarrow> 'a list \<times> 'q" where
  "q_run enq deq [] q = ([], q)"
| "q_run enq deq (Enq x # ops) q = q_run enq deq ops (enq x q)"
| "q_run enq deq (Deq # ops) q =
     (case deq q of
        None \<Rightarrow> q_run enq deq ops q
      | Some (x, q') \<Rightarrow> (let (out, q'') = q_run enq deq ops q' in (x # out, q'')))"

fun enqueued :: "'a qop list \<Rightarrow> 'a list" where
  "enqueued [] = []"
| "enqueued (Enq x # ops) = x # enqueued ops"
| "enqueued (Deq # ops) = enqueued ops"

locale fifo_queue =
  fixes enq :: "'a \<Rightarrow> 'q \<Rightarrow> 'q"
    and deq :: "'q \<Rightarrow> ('a \<times> 'q) option"
    and content :: "'q \<Rightarrow> 'a list"
  assumes content_enq: "content (enq x q) = content q @ [x]"
    and deq_None: "deq q = None \<longleftrightarrow> content q = []"
    and deq_Some: "deq q = Some (x, q') \<Longrightarrow> content q = x # content q'"
begin

lemma run_conserves:
  "q_run enq deq ops q = (out, q') \<Longrightarrow> content q @ enqueued ops = out @ content q'"
proof (induction ops arbitrary: q out)
  case (Cons op ops)
  show ?case
  proof (cases op)
    case (Enq x)
    with Cons.IH [of "enq x q" out] Cons.prems show ?thesis
      by (simp add: content_enq)
  next
    case Deq
    with Cons show ?thesis
      by (auto split: option.splits prod.splits dest: deq_Some)
  qed
qed simp

end

section \<open>The methods\<close>

record 'a BufferedChannel =
  bc_l :: "'a list"

definition New :: "'a BufferedChannel" where
  "New = \<lparr>bc_l = []\<rparr>"

definition Append :: "'a \<Rightarrow> 'a BufferedChannel \<Rightarrow> 'a BufferedChannel" where
  "Append v b = b\<lparr>bc_l := bc_l b @ [v]\<rparr>"

text \<open>
  \<open>Remove\<close> waits while the list is empty: \<open>None\<close> is the call that does not return yet.
\<close>

definition Remove :: "'a BufferedChannel \<Rightarrow> ('a \<times> 'a BufferedChannel) option" where
  "Remove b = (case bc_l b of [] \<Rightarrow> None | v # vs \<Rightarrow> Some (v, b\<lparr>bc_l := vs\<rparr>))"

text \<open>\<open>Inspect\<close> and \<open>AsyncRemove\<close> return nil on an empty list; \<open>None\<close> is nil.\<close>

definition Inspect :: "'a BufferedChannel \<Rightarrow> 'a option" where
  "Inspect b = (case bc_l b of [] \<Rightarrow> None | v # _ \<Rightarrow> Some v)"

definition AsyncRemove :: "'a BufferedChannel \<Rightarrow> 'a option \<times> 'a BufferedChannel" where
  "AsyncRemove b = (case bc_l b of [] \<Rightarrow> (None, b) | v # vs \<Rightarrow> (Some v, b\<lparr>bc_l := vs\<rparr>))"

interpretation bchan: fifo_queue Append Remove bc_l
  by unfold_locales (auto simp: Append_def Remove_def split: list.splits)

lemma AsyncRemove_Remove:
  "AsyncRemove b = (case Remove b of None \<Rightarrow> (None, b) | Some (v, b') \<Rightarrow> (Some v, b'))"
  by (simp add: AsyncRemove_def Remove_def split: list.split)

section \<open>The condition variable\<close>

text \<open>
  The goroutines inside \<open>Remove\<close>: \<open>waiting\<close> ones sleep in \<open>c.Wait()\<close>, \<open>ready\<close> ones
  have been signalled and will test the list again once they hold the mutex. The mutex is
  held for the whole of every method but \<open>Wait\<close>, so the steps below are atomic.
\<close>

record 'a bc_state =
  chan :: "'a BufferedChannel"
  waiting :: "nat list"
  ready :: "nat list"

datatype 'a bc_event =
    EvAppend 'a
  | EvRemove nat            \<comment> \<open>goroutine enters \<open>Remove\<close>\<close>
  | EvWake nat              \<comment> \<open>a signalled goroutine tests the list again\<close>
  | EvAsyncRemove

inductive bc_step :: "'a bc_state \<Rightarrow> 'a bc_event \<Rightarrow> 'a bc_state \<Rightarrow> bool" where
  append_signal:
    "w \<in> set (waiting s) \<Longrightarrow>
     bc_step s (EvAppend v)
       (s\<lparr>chan := Append v (chan s), waiting := remove1 w (waiting s), ready := ready s @ [w]\<rparr>)"
| append_nobody:
    "waiting s = [] \<Longrightarrow> bc_step s (EvAppend v) (s\<lparr>chan := Append v (chan s)\<rparr>)"
| remove_now:
    "Remove (chan s) = Some (v, b) \<Longrightarrow> bc_step s (EvRemove t) (s\<lparr>chan := b\<rparr>)"
| remove_wait:
    "Remove (chan s) = None \<Longrightarrow> bc_step s (EvRemove t) (s\<lparr>waiting := waiting s @ [t]\<rparr>)"
| wake_now:
    "t \<in> set (ready s) \<Longrightarrow> Remove (chan s) = Some (v, b) \<Longrightarrow>
     bc_step s (EvWake t) (s\<lparr>chan := b, ready := remove1 t (ready s)\<rparr>)"
| wake_wait:
    "t \<in> set (ready s) \<Longrightarrow> Remove (chan s) = None \<Longrightarrow>
     bc_step s (EvWake t)
       (s\<lparr>ready := remove1 t (ready s), waiting := waiting s @ [t]\<rparr>)"
| async_remove:
    "bc_step s EvAsyncRemove (s\<lparr>chan := snd (AsyncRemove (chan s))\<rparr>)"

definition bc_init :: "'a bc_state \<Rightarrow> bool" where
  "bc_init s \<longleftrightarrow> s = \<lparr>chan = New, waiting = [], ready = []\<rparr>"

text \<open>While somebody sleeps, every stored element has a goroutine on its way to it.\<close>

definition bc_inv :: "'a bc_state \<Rightarrow> bool" where
  "bc_inv s \<longleftrightarrow> (waiting s \<noteq> [] \<longrightarrow> length (bc_l (chan s)) \<le> length (ready s))"

lemma bc_step_inv: "bc_step s e t \<Longrightarrow> bc_inv s \<Longrightarrow> bc_inv t"
proof (induction rule: bc_step.induct)
  case (append_signal w s v)
  then show ?case by (auto simp: bc_inv_def Append_def)
next
  case (wake_now t s v b)
  then show ?case
    by (auto simp: bc_inv_def Remove_def length_remove1 split: list.splits)
qed (auto simp: bc_inv_def Append_def Remove_def AsyncRemove_def split: list.splits)

interpretation bc: inductive_invariant bc_init bc_step bc_inv
proof
  show "bc_inv s" if "bc_init s" for s :: "'a bc_state"
    using that by (simp add: bc_init_def bc_inv_def)
  show "bc_inv t" if "bc_inv s" "bc_step s e t" for s t :: "'a bc_state" and e
    using bc_step_inv that by blast
qed

section \<open>Properties\<close>

text \<open>
  For every interleaving of appends and removals that starts with an empty channel, the
  elements removed so far followed by the elements still stored are exactly the elements
  appended, in order: nothing is lost, duplicated or reordered.
\<close>

theorem buffered_channel_fifo:
  "enqueued ops = fst (q_run Append Remove ops New) @ bc_l (snd (q_run Append Remove ops New))"
  using bchan.run_conserves [of ops New] by (simp add: New_def split: prod.splits)

text \<open>
  C40: no wake-up is lost: in every reachable state, while the channel holds an element and
  a goroutine sleeps inside \<open>Remove\<close>, some goroutine has been signalled and not yet run.
\<close>

theorem buffered_channel_no_lost_wakeup:
  assumes "reach bc_init bc_step s" and "waiting s \<noteq> []" and "bc_l (chan s) \<noteq> []"
  shows "ready s \<noteq> []"
  using bc.reach_inv [OF assms(1)] assms(2,3) by (auto simp: bc_inv_def)

theorem buffered_channel_no_lost_wakeup_witness:
  "ready \<lparr>chan = Append (5::nat) New, waiting = [2], ready = [1]\<rparr> \<noteq> []"
proof (rule buffered_channel_no_lost_wakeup)
  let ?s0 = "\<lparr>chan = New, waiting = [], ready = []\<rparr> :: nat bc_state"
  have "steps bc_step ?s0 [EvRemove 1, EvRemove 2, EvAppend 5]
      \<lparr>chan = Append 5 New, waiting = [2], ready = [1]\<rparr>"
    using remove_wait [of ?s0 1] remove_wait [of "?s0\<lparr>waiting := [1]\<rparr>" 2]
      append_signal [of 1 "?s0\<lparr>waiting := [1, 2]\<rparr>" 5]
    by (auto intro!: steps.intros simp: Remove_def New_def)
  then show "reach bc_init bc_step \<lparr>chan = Append (5::nat) New, waiting = [2], ready = [1]\<rparr>"
    by (rule reach_steps) (auto intro: reach_init simp: bc_init_def)
qed (simp_all add: Append_def New_def)

end
