(* ===== verification/Lsp_Message.thy ===== *)
theory Lsp_Message
  imports Dsys_Prelude
begin

text \<open>
  The data the LSP client and server share: messages (\<open>lsp/message.go\<close>), parameters
  (\<open>lsp/params.go\<close>) and the closing status (\<open>lsp/status.go\<close>).
\<close>

section \<open>Messages\<close>

text \<open>
  Go's \<open>MsgType\<close> is an int; a packet may carry any number there, which \<open>MsgOther\<close> keeps.
\<close>

datatype MsgType = MsgConnect | MsgData | MsgAck | MsgOther int

record Message =
  Type :: MsgType
  ConnID :: int
  SeqNum :: int
  Size :: int
  Payload :: bytes

definition NewConnect :: Message where
  "NewConnect = \<lparr>Type = MsgConnect, ConnID = 0, SeqNum = 0, Size = 0, Payload = []\<rparr>"

definition NewData :: "int \<Rightarrow> int \<Rightarrow> int \<Rightarrow> bytes \<Rightarrow> Message" where
  "NewData connID seqNum sz payload =
     \<lparr>Type = MsgData, ConnID = connID, SeqNum = seqNum, Size = sz, Payload = payload\<rparr>"

definition NewAck :: "int \<Rightarrow> int \<Rightarrow> Message" where
  "NewAck connID seqNum =
     \<lparr>Type = MsgAck, ConnID = connID, SeqNum = seqNum, Size = 0, Payload = []\<rparr>"

definition Message_String :: "Message \<Rightarrow> string" where
  "Message_String m =
     (let (name, payload) =
        (case Type m of
           MsgConnect \<Rightarrow> (''Connect'', '''')
         | MsgData \<Rightarrow> (''Data'', '' '' @ Payload m)
         | MsgAck \<Rightarrow> (''Ack'', '''')
         | MsgOther _ \<Rightarrow> ('''', ''''))
      in ''['' @ name @ '' '' @ Itoa (ConnID m) @ '' '' @ Itoa (SeqNum m) @ payload @ '']'')"

lemmas message_defs = NewConnect_def NewData_def NewAck_def

lemma NewConnect_sel [simp]:
  "Type NewConnect = MsgConnect" "ConnID NewConnect = 0" "SeqNum NewConnect = 0"
  by (simp_all add: NewConnect_def)

lemma NewData_sel [simp]:
  "Type (NewData c k n p) = MsgData" "ConnID (NewData c k n p) = c"
  "SeqNum (NewData c k n p) = k" "Size (NewData c k n p) = n" "Payload (NewData c k n p) = p"
  by (simp_all add: NewData_def)

lemma NewAck_sel [simp]:
  "Type (NewAck c k) = MsgAck" "ConnID (NewAck c k) = c" "SeqNum (NewAck c k) = k"
  by (simp_all add: NewAck_def)

section \<open>Parameters\<close>

record Params =
  EpochLimit :: int
  EpochMillis :: int
  WindowSize :: int

definition NewParams :: Params where
  "NewParams = \<lparr>EpochLimit = 5, EpochMillis = 2000, WindowSize = 1\<rparr>"

definition Params_String :: "Params \<Rightarrow> string" where
  "Params_String p =
     ''[EpochLimit: '' @ Itoa (EpochLimit p) @ '', EpochMillis: '' @ Itoa (EpochMillis p) @
     '', WindowSize: '' @ Itoa (WindowSize p) @ '']''"

section \<open>Status\<close>

text \<open>\<open>set\<close> and \<open>get\<close> hold the lock for their whole body: one atomic write or read.\<close>

datatype status = notClosing | startClosing | handlerClosed | connectionClosed | closed

definition newStatus :: status where
  "newStatus = notClosing"

end
