(* ===== verification/Lsp_Endpoint.thy ===== *)
theory Lsp_Endpoint
  imports Lsp_Message
begin

text \<open>
  One end of an LSP connection: the fields that the structs \<open>client\<close>
  (\<open>lsp/client_impl.go\<close>) and \<open>clientInfo\<close> (\<open>lsp/server_impl.go\<close>) have in common, the
  pieces of code their two handlers share word for word, and the invariants of one
  direction of a connection, a sending end and a receiving end.
\<close>

section \<open>The common fields of client and clientInfo\<close>

text \<open>
  \<open>incoming\<close> and \<open>tmsg\<close> are channels, a list each with the oldest element first. The
  last two fields belong to the handler goroutine: its local counter and whether it has
  not returned yet. The sequence numbers are unbounded here; Go's 64-bit int would wrap
  after \<open>2^63\<close> messages of one connection.
\<close>

record endpoint =
  conn_id :: int
  incoming :: "Message list"
  tbuffer :: "(int, Message) gomap"
  tmsg :: "Message list"
  tsq :: int
  rbuffer :: "(int, bytes) gomap"
  rsq :: int
  retries :: int
  windows :: int
  ep_status :: status
  epochCount :: int
  running :: bool

text \<open>The loop guard: closing has been asked for and every buffer is empty.\<close>

definition close_ready :: "'a endpoint_scheme \<Rightarrow> bool" where
  "close_ready c \<longleftrightarrow>
     ep_status c = startClosing \<and> tbuffer c = [] \<and> rbuffer c = [] \<and> tmsg c = []"

text \<open>\<open>minUnAcked := c.tsq; for sq := range c.tbuffer \<dots>\<close>\<close>

definition minUnAcked :: "'a endpoint_scheme \<Rightarrow> int" where
  "minUnAcked c = foldl min (tsq c) (map fst (tbuffer c))"

text \<open>
  The inner loop of the data case: hand over the buffered payloads from \<open>i\<close> on, one by
  one, until a sequence number is missing. It returns the payloads in the order in which
  they are put into the \<open>rmsg\<close> channel.
\<close>

function drain :: "int \<Rightarrow> 'a endpoint_scheme \<Rightarrow> 'a endpoint_scheme \<times> bytes list" where
  "drain i c =
     (case gm_get (rbuffer c) i of
        None \<Rightarrow> (c, [])
      | Some data \<Rightarrow>
          (let (c', out) = drain (i + 1) (c\<lparr>rsq := rsq c + 1, rbuffer := gm_del i (rbuffer c)\<rparr>)
           in (c', data # out)))"
  by pat_completeness auto
termination
  by (relation "measure (\<lambda>(i, c). length (rbuffer c))") (auto intro: gm_del_shorter)

declare drain.simps [simp del]

text \<open>\<open>if _, ok := c.rbuffer[m.SeqNum]; !ok \<dots>\<close>: the first copy of a payload is kept.\<close>

definition save_data :: "Message \<Rightarrow> 'a endpoint_scheme \<Rightarrow> 'a endpoint_scheme" where
  "save_data m c =
     (if gm_get (rbuffer c) (SeqNum m) = None
      then c\<lparr>rbuffer := gm_set (SeqNum m) (Payload m) (rbuffer c)\<rparr> else c)"

text \<open>
  The whole data case but the acknowledgement: \<open>None\<close> is the \<open>continue\<close> on a payload
  shorter than announced.
\<close>

definition take_data :: "Message \<Rightarrow> 'a endpoint_scheme \<Rightarrow> ('a endpoint_scheme \<times> bytes list) option" where
  "take_data m c =
     (if int (length (Payload m)) < Size m then None
      else let c1 = save_data m c
           in Some (if SeqNum m = rsq c1 then drain (rsq c1) c1 else (c1, [])))"

text \<open>
  The window case of \<open>default\<close>: one message is taken from \<open>tmsg\<close>, numbered, remembered and
  sent, unless the window is full or nothing is waiting.
\<close>

definition send_next :: "'a endpoint_scheme \<Rightarrow> 'a endpoint_scheme \<times> Message list" where
  "send_next c =
     (if tsq c - minUnAcked c < windows c
      then case tmsg c of
             [] \<Rightarrow> (c, [])
           | m # ms \<Rightarrow>
               (let m' = m\<lparr>SeqNum := tsq c\<rparr>
                in (c\<lparr>tmsg := ms, tbuffer := gm_set (tsq c) m' (tbuffer c), tsq := tsq c + 1\<rparr>, [m']))
      else (c, []))"

lemmas endpoint_step_defs = save_data_def take_data_def send_next_def
declare endpoint_step_defs [step_defs]

text \<open>A sequence number the receiving side has taken in: delivered or buffered.\<close>

definition received :: "'a endpoint_scheme \<Rightarrow> int \<Rightarrow> bool" where
  "received c k \<longleftrightarrow> k < rsq c \<or> k \<in> gm_keys (rbuffer c)"

section \<open>What drain does\<close>

lemma drain_spec:
  assumes "drain i c = (c', out)"
  shows "c' = c\<lparr>rsq := rsq c + int (length out), rbuffer := rbuffer c'\<rparr>
    \<and> (\<forall>j < length out. gm_get (rbuffer c) (i + int j) = Some (out ! j))
    \<and> (\<forall>k. gm_get (rbuffer c') k =
          (if i \<le> k \<and> k < i + int (length out) then None else gm_get (rbuffer c) k))
    \<and> gm_get (rbuffer c) (i + int (length out)) = None"
  using assms
proof (induction i c arbitrary: c' out rule: drain.induct)
  case (1 i c)
  show ?case
  proof (cases "gm_get (rbuffer c) i")
    case None
    with "1.prems" show ?thesis by (auto simp: drain.simps [of i c])
  next
    case (Some d)
    let ?c1 = "c\<lparr>rsq := rsq c + 1, rbuffer := gm_del i (rbuffer c)\<rparr>"
    obtain c2 out2 where dr: "drain (i + 1) ?c1 = (c2, out2)" by fastforce
    from "1.prems" Some dr have eq: "c' = c2" "out = d # out2"
      by (simp_all add: drain.simps [of i c])
    note IH = "1.IH" [OF Some dr]
    have "c' = c\<lparr>rsq := rsq c + int (length out), rbuffer := rbuffer c'\<rparr>"
      using conjunct1 [OF IH] eq by (cases c2) (simp add: endpoint.defs)
    moreover have "gm_get (rbuffer c) (i + int j) = Some (out ! j)" if "j < length out" for j
      using that IH Some eq by (cases j) (auto simp: add.assoc split: if_splits)
    moreover have "gm_get (rbuffer c') k =
        (if i \<le> k \<and> k < i + int (length out) then None else gm_get (rbuffer c) k)" for k
      using IH eq by auto
    moreover have "gm_get (rbuffer c) (i + int (length out)) = None"
      using IH eq by (auto simp: add.assoc split: if_splits)
    ultimately show ?thesis by blast
  qed
qed


section \<open>The moves of a handler\<close>

text \<open>
  What one iteration of either handler may do to its end of the connection, seen from
  outside: nothing but bookkeeping (possibly with retransmissions and control messages),
  take in one data message and acknowledge it, take in one acknowledgement, or send one
  new message. Both handlers are shown to make only such moves.
\<close>

definition ep_same :: "'a endpoint_scheme \<Rightarrow> 'a endpoint_scheme \<Rightarrow> bool" where
  "ep_same c c' \<longleftrightarrow>
     tbuffer c' = tbuffer c \<and> tmsg c' = tmsg c \<and> tsq c' = tsq c \<and> rbuffer c' = rbuffer c \<and>
     rsq c' = rsq c \<and> windows c' = windows c \<and> set (incoming c') \<subseteq> set (incoming c)"

definition control :: "Message \<Rightarrow> bool" where
  "control m \<longleftrightarrow> Type m = MsgConnect \<or> (Type m = MsgAck \<and> SeqNum m = 0)"

inductive ep_move ::
    "'a endpoint_scheme \<Rightarrow> Message list \<Rightarrow> bytes list \<Rightarrow> 'a endpoint_scheme \<Rightarrow> bool" where
  move_quiet:
    "ep_same c c' \<Longrightarrow> \<forall>m \<in> set sent. m \<in> snd ` set (tbuffer c) \<or> control m \<Longrightarrow>
     ep_move c sent [] c'"
| move_data:
    "m \<in> set (incoming c) \<Longrightarrow> Type m = MsgData \<Longrightarrow> ep_same c c0 \<Longrightarrow>
     take_data m c0 = Some (c1, out) \<Longrightarrow> ep_same c1 c' \<Longrightarrow>
     ep_move c [NewAck i (SeqNum m)] out c'"
| move_ack:
    "m \<in> set (incoming c) \<Longrightarrow> Type m = MsgAck \<Longrightarrow>
     ep_same (c\<lparr>tbuffer := gm_del (SeqNum m) (tbuffer c)\<rparr>) c' \<Longrightarrow> ep_move c [] [] c'"
| move_send:
    "send_next c = (c1, sent) \<Longrightarrow> ep_same c1 c' \<Longrightarrow> ep_move c sent [] c'"

lemma ep_same_refl [simp]: "ep_same c c"
  by (simp add: ep_same_def)

lemma ep_same_bookkeeping [simp]:
  "ep_same c (c\<lparr>epochCount := n\<rparr>)" "ep_same c (c\<lparr>ep_status := st\<rparr>)"
  "ep_same c (c\<lparr>running := b\<rparr>)" "ep_same c (c\<lparr>conn_id := i\<rparr>)"
  by (simp_all add: ep_same_def)

lemma bump_epochs: "((\<lambda>c. c\<lparr>epochCount := epochCount c + 1\<rparr>) ^^ n) c = c\<lparr>epochCount := epochCount c + int n\<rparr>"
  by (induction n) (simp_all add: algebra_simps)

section \<open>One direction of a connection\<close>

text \<open>
  \<open>L\<close> is the list of payloads sent so far, in order: payload \<open>L ! (k - 1)\<close> carries the
  sequence number \<open>k\<close>.
\<close>

definition carries :: "bytes list \<Rightarrow> int \<Rightarrow> bytes \<Rightarrow> bool" where
  "carries L k p \<longleftrightarrow> 1 \<le> k \<and> k \<le> int (length L) \<and> p = L ! nat (k - 1)"

definition data_ok :: "bytes list \<Rightarrow> Message \<Rightarrow> bool" where
  "data_ok L m \<longleftrightarrow>
     Type m = MsgData \<longrightarrow> carries L (SeqNum m) (Payload m) \<and> Size m = int (length (Payload m))"

definition buf_ok :: "bytes list \<Rightarrow> int \<Rightarrow> Message \<Rightarrow> bool" where
  "buf_ok L k m \<longleftrightarrow>
     data_ok L m \<and> (Type m = MsgData \<and> SeqNum m = k \<or> Type m = MsgConnect \<and> k = 0)"

definition sender_ok :: "bytes list \<Rightarrow> 'a endpoint_scheme \<Rightarrow> bool" where
  "sender_ok L s \<longleftrightarrow>
     tsq s = 1 + int (length L) \<and> gm_wf (tbuffer s) \<and>
     (\<forall>k m. gm_get (tbuffer s) k = Some m \<longrightarrow> buf_ok L k m) \<and>
     (\<forall>m \<in> set (tmsg s). Type m = MsgData \<and> Size m = int (length (Payload m)))"

definition receiver_ok :: "bytes list \<Rightarrow> bytes list \<Rightarrow> 'a endpoint_scheme \<Rightarrow> bool" where
  "receiver_ok L D r \<longleftrightarrow>
     rsq r = 1 + int (length D) \<and> length D \<le> length L \<and> D = take (length D) L \<and>
     (\<forall>k p. gm_get (rbuffer r) k = Some p \<longrightarrow> carries L k p) \<and>
     rsq r \<notin> gm_keys (rbuffer r)"

definition acks_ok :: "'a endpoint_scheme \<Rightarrow> 'b endpoint_scheme \<Rightarrow> Message set \<Rightarrow> bool" where
  "acks_ok s r B \<longleftrightarrow>
     (\<forall>m \<in> B. Type m = MsgAck \<and> 1 \<le> SeqNum m \<longrightarrow> received r (SeqNum m)) \<and>
     (\<forall>k. 1 \<le> k \<and> k < tsq s \<longrightarrow> k \<in> gm_keys (tbuffer s) \<or> received r k)"

text \<open>
  \<open>W\<close> holds every message the sending end has put on the wire, \<open>B\<close> every message the
  receiving end has. A message may be delivered any number of times, in any order, or never.
\<close>

definition dir_inv :: "bytes list \<Rightarrow> bytes list \<Rightarrow> 'a endpoint_scheme \<Rightarrow> 'b endpoint_scheme \<Rightarrow>
    Message set \<Rightarrow> Message set \<Rightarrow> bool" where
  "dir_inv L D s r W B \<longleftrightarrow>
     sender_ok L s \<and> receiver_ok L D r \<and> acks_ok s r B \<and> (\<forall>m \<in> W. data_ok L m) \<and>
     set (incoming r) \<subseteq> W \<and> set (incoming s) \<subseteq> B"

lemmas dir_defs = dir_inv_def sender_ok_def receiver_ok_def acks_ok_def data_ok_def

lemma carries_append [simp]: "carries L k p \<Longrightarrow> carries (L @ M) k p"
  by (auto simp: carries_def nth_append)

lemma carries_last: "carries (L @ [p]) (1 + int (length L)) p"
  by (simp add: carries_def nth_append)

lemma data_ok_append: "data_ok L m \<Longrightarrow> data_ok (L @ M) m"
  by (simp add: data_ok_def)

lemma buf_ok_append: "buf_ok L k m \<Longrightarrow> buf_ok (L @ M) k m"
  by (simp add: buf_ok_def data_ok_append)

lemma control_data_ok: "control m \<Longrightarrow> data_ok L m"
  by (auto simp: control_def data_ok_def)

subsection \<open>Moves of the sending end\<close>

lemma send_nextE:
  assumes "send_next s = (s', sent)"
  obtains (none) "s' = s" "sent = []"
  | (one) m ms where "tsq s - minUnAcked s < windows s" "tmsg s = m # ms"
      "s' = s\<lparr>tmsg := ms, tbuffer := gm_set (tsq s) (m\<lparr>SeqNum := tsq s\<rparr>) (tbuffer s),
         tsq := tsq s + 1\<rparr>"
      "sent = [m\<lparr>SeqNum := tsq s\<rparr>]"
  using assms by (auto simp: send_next_def Let_def split: if_splits list.splits)

lemma sender_ok_same: "ep_same s s' \<Longrightarrow> sender_ok L s' = sender_ok L s"
  by (simp add: ep_same_def sender_ok_def)

lemma receiver_ok_same: "ep_same r r' \<Longrightarrow> receiver_ok L D r' = receiver_ok L D r"
  by (simp add: ep_same_def receiver_ok_def)

lemma received_same: "ep_same r r' \<Longrightarrow> received r' k = received r k"
  by (simp add: ep_same_def received_def)

lemma acks_ok_same: "ep_same s s' \<Longrightarrow> acks_ok s' r B = acks_ok s r B"
  "ep_same r r' \<Longrightarrow> acks_ok s r' B = acks_ok s r B"
  by (simp_all add: acks_ok_def received_same) (simp add: ep_same_def)

lemma sender_ok_buffered:
  assumes "sender_ok L s" and "m \<in> snd ` set (tbuffer s)"
  shows "data_ok L m"
proof -
  from assms(2) obtain k where "(k, m) \<in> set (tbuffer s)" by auto
  with assms(1) have "gm_get (tbuffer s) k = Some m"
    by (simp add: sender_ok_def gm_get_mem)
  with assms(1) show ?thesis by (simp add: sender_ok_def buf_ok_def)
qed

lemma sender_ok_ack: "sender_ok L s \<Longrightarrow> sender_ok L (s\<lparr>tbuffer := gm_del k (tbuffer s)\<rparr>)"
  by (auto simp: sender_ok_def)

lemma sender_ok_send:
  assumes "sender_ok L s" and "send_next s = (s', sent)"
  shows "sender_ok (L @ map Payload sent) s'"
    and "\<forall>m \<in> set sent. data_ok (L @ map Payload sent) m"
    and "map Payload (tmsg s) = map Payload sent @ map Payload (tmsg s')"
proof -
  have "sender_ok (L @ map Payload sent) s' \<and> (\<forall>m \<in> set sent. data_ok (L @ map Payload sent) m)
      \<and> map Payload (tmsg s) = map Payload sent @ map Payload (tmsg s')"
    using assms(2)
  proof (cases rule: send_nextE)
    case none
    with assms(1) show ?thesis by simp
  next
    case (one m ms)
    with assms(1) have "buf_ok (L @ [Payload m]) (tsq s) (m\<lparr>SeqNum := tsq s\<rparr>)"
      and "data_ok (L @ [Payload m]) (m\<lparr>SeqNum := tsq s\<rparr>)"
      by (simp_all add: sender_ok_def buf_ok_def data_ok_def carries_last)
    with one assms(1) show ?thesis
      by (auto simp: sender_ok_def buf_ok_append)
  qed
  then show "sender_ok (L @ map Payload sent) s'"
    and "\<forall>m \<in> set sent. data_ok (L @ map Payload sent) m"
    and "map Payload (tmsg s) = map Payload sent @ map Payload (tmsg s')" by blast+
qed

lemma send_next_frame:
  assumes "send_next s = (s', sent)"
  shows "rbuffer s' = rbuffer s" "rsq s' = rsq s" "incoming s' = incoming s"
    "windows s' = windows s" "conn_id s' = conn_id s"
  using assms by (auto elim!: send_nextE)

lemma send_next_upd:
  assumes "send_next c = (c', sent)"
  shows "c' = c\<lparr>tbuffer := tbuffer c', tmsg := tmsg c', tsq := tsq c'\<rparr>"
  using assms by (cases rule: send_nextE) auto

lemma acks_ok_send:
  "acks_ok s r B \<Longrightarrow> send_next s = (s', sent) \<Longrightarrow> acks_ok s' r B"
  by (erule send_nextE) (auto simp: acks_ok_def)

lemma acks_ok_ack:
  assumes "acks_ok s r B" and "m \<in> B" and "Type m = MsgAck"
  shows "acks_ok (s\<lparr>tbuffer := gm_del (SeqNum m) (tbuffer s)\<rparr>) r B"
  using assms by (auto simp: acks_ok_def)

subsection \<open>Moves of the receiving end\<close>

lemma take_dataE:
  assumes "take_data m c = Some (c', out)"
  obtains (later) "SeqNum m \<noteq> rsq c" "c' = save_data m c" "out = []"
  | (next_one) "SeqNum m = rsq c" "drain (rsq c) (save_data m c) = (c', out)"
  using assms by (auto simp: take_data_def save_data_def Let_def split: if_splits)

lemma save_data_frame [simp]:
  "rsq (save_data m c) = rsq c" "tbuffer (save_data m c) = tbuffer c"
  "tmsg (save_data m c) = tmsg c" "tsq (save_data m c) = tsq c"
  "incoming (save_data m c) = incoming c" "windows (save_data m c) = windows c"
  "conn_id (save_data m c) = conn_id c" "ep_status (save_data m c) = ep_status c"
  "gm_keys (rbuffer (save_data m c)) = insert (SeqNum m) (gm_keys (rbuffer c))"
  by (auto simp: save_data_def gm_get_None_key)

lemma drain_frame:
  assumes "drain i c = (c', out)"
  shows "tbuffer c' = tbuffer c" "tmsg c' = tmsg c" "tsq c' = tsq c" "incoming c' = incoming c"
    "windows c' = windows c" "conn_id c' = conn_id c" "ep_status c' = ep_status c"
    "rsq c' = rsq c + int (length out)"
  by (subst conjunct1 [OF drain_spec [OF assms]], simp)+

lemma drain_keys:
  assumes "drain i c = (c', out)"
  shows "gm_keys (rbuffer c') = gm_keys (rbuffer c) - {i ..< i + int (length out)}"
proof -
  have "k \<in> gm_keys (rbuffer c') \<longleftrightarrow> k \<in> gm_keys (rbuffer c) - {i ..< i + int (length out)}" for k
    using drain_spec [OF assms] by (auto simp: gm_keys_dom dom_def)
  then show ?thesis by blast
qed

lemma take_data_frame:
  assumes "take_data m c = Some (c', out)"
  shows "tbuffer c' = tbuffer c" "tmsg c' = tmsg c" "tsq c' = tsq c" "incoming c' = incoming c"
    "windows c' = windows c" "conn_id c' = conn_id c" "ep_status c' = ep_status c"
    "rsq c' = rsq c + int (length out)"
  by (insert assms, (cases rule: take_dataE, assumption, simp, simp add: drain_frame)+)

lemma take_data_upd:
  assumes "take_data m c = Some (c', out)"
  shows "c' = c\<lparr>rsq := rsq c', rbuffer := rbuffer c'\<rparr>"
  using assms
proof (cases rule: take_dataE)
  case later
  then show ?thesis by (simp add: save_data_def)
next
  case next_one
  have "c' = (save_data m c)\<lparr>rsq := rsq c', rbuffer := rbuffer c'\<rparr>"
    using conjunct1 [OF drain_spec [OF next_one(2)]] drain_frame(8) [OF next_one(2)] by simp
  then show ?thesis by (simp add: save_data_def split: if_splits)
qed

lemma received_take_data:
  assumes "take_data m c = Some (c', out)"
  shows "received c k \<Longrightarrow> received c' k" and "received c' (SeqNum m)"
proof -
  have *: "received c' j" if "j = SeqNum m \<or> received c j" for j
    using assms
  proof (cases rule: take_dataE)
    case later
    from that show ?thesis unfolding later(2) received_def by auto
  next
    case next_one
    from that have "j < rsq c \<or> j \<in> gm_keys (rbuffer (save_data m c))"
      unfolding received_def by auto
    then show ?thesis
      unfolding received_def drain_keys [OF next_one(2)] drain_frame(8) [OF next_one(2)] by auto
  qed
  from * [of k] show "received c k \<Longrightarrow> received c' k" by simp
  from * [of "SeqNum m"] show "received c' (SeqNum m)" by simp
qed

lemma receiver_ok_save:
  assumes "receiver_ok L D r" and "data_ok L m" and "Type m = MsgData"
  shows "\<forall>k p. gm_get (rbuffer (save_data m r)) k = Some p \<longrightarrow> carries L k p"
  using assms by (auto simp: receiver_ok_def data_ok_def save_data_def)

lemma drain_prefix:
  assumes dr: "drain (rsq r) r = (r', out)"
    and rsq: "rsq r = 1 + int (length D)" and D: "D = take (length D) L" "length D \<le> length L"
    and car: "\<forall>k p. gm_get (rbuffer r) k = Some p \<longrightarrow> carries L k p"
  shows "receiver_ok L (D @ out) r'"
proof -
  have nth: "length D + j < length L \<and> out ! j = L ! (length D + j)" if "j < length out" for j
  proof -
    have "carries L (rsq r + int j) (out ! j)"
      using drain_spec [OF dr] car that by blast
    then show ?thesis by (auto simp: carries_def rsq nat_add_distrib)
  qed
  then have len: "length (D @ out) \<le> length L"
    using D(2) by (cases out rule: rev_cases) (auto, fastforce)
  have "out = take (length out) (drop (length D) L)"
    using nth len by (intro nth_equalityI) auto
  then have "D @ out = take (length (D @ out)) L"
    using D(1) by (metis length_append take_add)
  moreover have "rsq r' \<notin> gm_keys (rbuffer r')"
    using drain_spec [OF dr] drain_keys [OF dr] drain_frame(8) [OF dr] by (simp add: gm_get_None_key)
  moreover have "carries L k p" if "gm_get (rbuffer r') k = Some p" for k p
    using drain_spec [OF dr] car that by (auto split: if_splits)
  moreover have "rsq r' = 1 + int (length (D @ out))"
    using drain_frame(8) [OF dr] rsq by simp
  ultimately show ?thesis
    unfolding receiver_ok_def using len by blast
qed

lemma receiver_ok_take:
  assumes ok: "receiver_ok L D r" and m: "data_ok L m" "Type m = MsgData"
    and tk: "take_data m r = Some (r', out)"
  shows "receiver_ok L (D @ out) r'"
  using tk
proof (cases rule: take_dataE)
  case later
  with receiver_ok_save [OF ok m] ok show ?thesis
    by (auto simp: receiver_ok_def)
next
  case next_one
  then have "drain (rsq (save_data m r)) (save_data m r) = (r', out)" by simp
  then show ?thesis
    by (rule drain_prefix) (use ok receiver_ok_save [OF ok m] in \<open>auto simp: receiver_ok_def\<close>)
qed

subsection \<open>Every move keeps the invariant of both directions\<close>

lemma dir_inv_sender_move:
  assumes inv: "dir_inv L D s r W B" and mv: "ep_move s sent out s'"
  shows "\<exists>N. dir_inv (L @ N) D s' r (W \<union> set sent) B \<and>
    map Payload (tmsg s) = N @ map Payload (tmsg s')"
proof -
  have sok: "sender_ok L s" and rok: "receiver_ok L D r" and aok: "acks_ok s r B"
    and W: "\<forall>m \<in> W. data_ok L m" and inc: "set (incoming r) \<subseteq> W" "set (incoming s) \<subseteq> B"
    using inv by (auto simp: dir_inv_def)
  have rok': "receiver_ok (L @ N) D r" for N
    using rok unfolding receiver_ok_def by auto
  from mv show ?thesis
  proof cases
    case move_quiet
    have "\<forall>m \<in> set sent. data_ok L m"
      using move_quiet(3) sender_ok_buffered [OF sok] control_data_ok by blast
    with move_quiet(2) sok rok aok W inc show ?thesis
      by (intro exI [of _ "[]"])
        (auto simp: dir_inv_def sender_ok_same acks_ok_same ep_same_def)
  next
    case (move_data m c0 c1 i)
    have "sender_ok L s'" "acks_ok s' r B" "set (incoming s') \<subseteq> B" "tmsg s' = tmsg s"
      using take_data_frame [OF move_data(5)] move_data(4,6) sok aok inc
      by (auto simp: ep_same_def sender_ok_def acks_ok_def)
    moreover have "data_ok L (NewAck i (SeqNum m))"
      by (simp add: data_ok_def)
    ultimately show ?thesis
      using rok W inc move_data(1) by (intro exI [of _ "[]"]) (auto simp: dir_inv_def)
  next
    case (move_ack m)
    have "sender_ok L s'"
      using move_ack sender_ok_ack [OF sok] by (simp add: sender_ok_same)
    moreover have "acks_ok s' r B"
      using move_ack acks_ok_ack [OF aok _ move_ack(4)] inc(2) acks_ok_same(1) by blast
    moreover have "set (incoming s') \<subseteq> B" "tmsg s' = tmsg s"
      using move_ack(5) inc(2) by (auto simp: ep_same_def)
    ultimately show ?thesis
      using rok W inc(1) move_ack(1) by (intro exI [of _ "[]"]) (auto simp: dir_inv_def)
  next
    case (move_send c1)
    note snd = sender_ok_send [OF sok move_send(2)]
    have "sender_ok (L @ map Payload sent) s'" "acks_ok s' r B"
      using snd(1) acks_ok_send [OF aok move_send(2)] move_send(3)
      by (simp_all add: sender_ok_same acks_ok_same)
    moreover have "set (incoming s') \<subseteq> B" "map Payload (tmsg s') = map Payload (tmsg c1)"
      using move_send(3) send_next_frame(3) [OF move_send(2)] inc(2) by (auto simp: ep_same_def)
    ultimately show ?thesis
      using snd(2,3) rok' W inc(1)
      by (intro exI [of _ "map Payload sent"]) (auto simp: dir_inv_def data_ok_append)
  qed
qed

text \<open>Acknowledgements are never retransmitted from a buffer.\<close>

definition no_acks :: "'a endpoint_scheme \<Rightarrow> bool" where
  "no_acks r \<longleftrightarrow> (\<forall>m \<in> snd ` set (tbuffer r) \<union> set (tmsg r). Type m \<noteq> MsgAck)"

lemma sender_ok_no_acks: "sender_ok L r \<Longrightarrow> no_acks r"
  by (fastforce simp: sender_ok_def no_acks_def gm_get_mem buf_ok_def)

lemma acks_ok_received:
  assumes "acks_ok s r B" and "\<And>k. received r k \<Longrightarrow> received r' k"
    and "\<And>m. m \<in> M \<Longrightarrow> Type m = MsgAck \<Longrightarrow> 1 \<le> SeqNum m \<Longrightarrow> received r' (SeqNum m)"
  shows "acks_ok s r' (B \<union> M)"
  using assms unfolding acks_ok_def by blast

lemma dir_inv_receiver_move:
  assumes inv: "dir_inv L D s r W B" and mv: "ep_move r sent out r'" and na: "no_acks r"
  shows "dir_inv L (D @ out) s r' W (B \<union> set sent)"
proof -
  have sok: "sender_ok L s" and rok: "receiver_ok L D r" and aok: "acks_ok s r B"
    and W: "\<forall>m \<in> W. data_ok L m" and inc: "set (incoming r) \<subseteq> W" "set (incoming s) \<subseteq> B"
    using inv by (auto simp: dir_inv_def)
  have "receiver_ok L (D @ out) r' \<and> acks_ok s r' (B \<union> set sent) \<and> set (incoming r') \<subseteq> W"
    using mv
  proof cases
    case move_quiet
    have "acks_ok s r' (B \<union> set sent)"
      using aok by (rule acks_ok_received)
        (use move_quiet na in \<open>fastforce simp: received_same no_acks_def control_def\<close>)+
    with move_quiet rok inc show ?thesis
      by (auto simp: receiver_ok_same ep_same_def)
  next
    case (move_data m c0 c1 i)
    then have m: "data_ok L m" using inc(1) W by blast
    have rok0: "receiver_ok L D c0" using rok move_data(4) by (simp add: receiver_ok_same)
    have "receiver_ok L (D @ out) r'"
      using receiver_ok_take [OF rok0 m move_data(3,5)] move_data(6) by (simp add: receiver_ok_same)
    moreover have "acks_ok s r' (B \<union> set sent)"
      using aok by (rule acks_ok_received)
        (use received_take_data [OF move_data(5)] received_same [OF move_data(6)]
          received_same [OF move_data(4)] move_data(1) in simp_all)
    moreover have "set (incoming r') \<subseteq> W"
      using take_data_frame(4) [OF move_data(5)] move_data(4,6) inc(1) by (auto simp: ep_same_def)
    ultimately show ?thesis by blast
  next
    case (move_ack m)
    have "acks_ok s r' (B \<union> set sent)"
      using aok by (rule acks_ok_received) (use move_ack in \<open>auto simp: received_def ep_same_def\<close>)
    with move_ack rok inc show ?thesis
      by (auto simp: receiver_ok_def ep_same_def)
  next
    case (move_send c1)
    have fr: "rbuffer r' = rbuffer r" "rsq r' = rsq r" "set (incoming r') \<subseteq> set (incoming r)"
      using move_send(3) send_next_frame [OF move_send(2)] by (simp_all add: ep_same_def)
    have "\<forall>m \<in> set sent. Type m \<noteq> MsgAck"
      using move_send(2) na by (auto elim!: send_nextE simp: no_acks_def)
    then have "acks_ok s r' (B \<union> set sent)"
      using aok fr(1,2) by (auto intro: acks_ok_received simp: received_def)
    with fr rok inc move_send(1) show ?thesis
      by (auto simp: receiver_ok_def)
  qed
  with sok W inc(2) show ?thesis by (auto simp: dir_inv_def)
qed

text \<open>The network hands a message over; the application writes a payload.\<close>

lemma dir_inv_deliver:
  "dir_inv L D s r W B \<Longrightarrow> m \<in> W \<Longrightarrow> dir_inv L D s (r\<lparr>incoming := incoming r @ [m]\<rparr>) W B"
  "dir_inv L D s r W B \<Longrightarrow> m \<in> B \<Longrightarrow> dir_inv L D (s\<lparr>incoming := incoming s @ [m]\<rparr>) r W B"
  unfolding dir_inv_def sender_ok_def receiver_ok_def acks_ok_def received_def by auto

lemma dir_inv_write:
  "dir_inv L D s r W B \<Longrightarrow>
   dir_inv L D (s\<lparr>tmsg := tmsg s @ [NewData i k (int (length p)) p]\<rparr>) r W B"
  "dir_inv L D s r W B \<Longrightarrow> dir_inv L D s (r\<lparr>tmsg := ms\<rparr>) W B"
  unfolding dir_inv_def sender_ok_def receiver_ok_def acks_ok_def received_def by auto

text \<open>What the invariant promises: in-order delivery, and that acknowledged data has arrived.\<close>

lemma dir_inv_prefix: "dir_inv L D s r W B \<Longrightarrow> \<exists>M. L = D @ M"
proof -
  assume "dir_inv L D s r W B"
  then have "D = take (length D) L" by (simp add: dir_inv_def receiver_ok_def)
  then show ?thesis by (metis append_take_drop_id)
qed

lemma dir_inv_all_acked:
  assumes inv: "dir_inv L D s r W B" and "\<forall>k \<in> gm_keys (tbuffer s). k < 1"
  shows "D = L"
proof -
  have r: "rsq r = 1 + int (length D)" "length D \<le> length L" "D = take (length D) L"
      "rsq r \<notin> gm_keys (rbuffer r)"
    and t: "tsq s = 1 + int (length L)" and a: "\<forall>k. 1 \<le> k \<and> k < tsq s \<longrightarrow> received r k"
    using assms by (fastforce simp: dir_inv_def receiver_ok_def sender_ok_def acks_ok_def)+
  have "\<not> rsq r < tsq s"
    using a [rule_format, of "rsq r"] r(1,4) by (auto simp: received_def)
  with r t have "length D = length L" by simp
  with r(3) show ?thesis by simp
qed

section \<open>The window\<close>

definition window_ok :: "'a endpoint_scheme \<Rightarrow> bool" where
  "window_ok c \<longleftrightarrow> gm_wf (tbuffer c) \<and>
     (\<forall>k \<in> gm_keys (tbuffer c). tsq c - max 1 (windows c) \<le> k \<and> k < tsq c)"

lemma minUnAcked_le: "k \<in> gm_keys (tbuffer c) \<Longrightarrow> minUnAcked c \<le> k"
  by (simp add: minUnAcked_def gm_keys_def foldl_min_mem_le)

lemma window_ok_same: "ep_same c c' \<Longrightarrow> window_ok c' = window_ok c"
  by (simp add: ep_same_def window_ok_def)

lemma window_ok_send:
  assumes "window_ok c" and "send_next c = (c', sent)"
  shows "window_ok c'"
  using assms(2)
proof (cases rule: send_nextE)
  case (one m ms)
  have "tsq c + 1 - max 1 (windows c) \<le> k \<and> k < tsq c + 1"
    if "k = tsq c \<or> k \<in> gm_keys (tbuffer c)" for k
    using that minUnAcked_le [of k c] one(1) assms(1) by (auto simp: window_ok_def)
  with one assms(1) show ?thesis by (simp add: window_ok_def)
qed (use assms in simp)

lemma window_ok_move:
  assumes "ep_move c sent out c'" and "window_ok c"
  shows "window_ok c'"
  using assms(1)
proof cases
  case (move_data m c0 c1 i)
  then have "window_ok c1"
    using assms(2) window_ok_same [OF move_data(4)] by (simp add: window_ok_def take_data_frame)
  with move_data show ?thesis by (simp add: window_ok_same)
next
  case (move_ack m)
  have "window_ok (c\<lparr>tbuffer := gm_del (SeqNum m) (tbuffer c)\<rparr>)"
    using assms(2) by (auto simp: window_ok_def)
  with move_ack show ?thesis by (simp add: window_ok_same)
qed (use assms in \<open>auto simp: window_ok_same window_ok_send\<close>)

lemma window_ok_count:
  assumes "window_ok c"
  shows "int (length (tbuffer c)) \<le> max 1 (windows c)"
proof -
  let ?I = "{tsq c - max 1 (windows c) ..< tsq c}"
  have "gm_keys (tbuffer c) \<subseteq> ?I" using assms by (auto simp: window_ok_def)
  then have "card (gm_keys (tbuffer c)) \<le> card ?I" by (rule card_mono [OF finite_atLeastLessThan_int])
  moreover have "card (gm_keys (tbuffer c)) = length (tbuffer c)"
    using assms by (simp add: window_ok_def gm_card)
  ultimately show ?thesis by simp
qed

section \<open>Stale payloads\<close>

text \<open>
  A payload buffered under a number that has been delivered already. The data case stores
  every payload whose number is not in the buffer, so a repeated data message leaves one.
\<close>

definition stale :: "'a endpoint_scheme \<Rightarrow> bool" where
  "stale c \<longleftrightarrow> (\<exists>k \<in> gm_keys (rbuffer c). k < rsq c)"

lemma stale_same: "ep_same c c' \<Longrightarrow> stale c' = stale c"
  by (simp add: ep_same_def stale_def)

lemma stale_not_close_ready: "stale c \<Longrightarrow> \<not> close_ready c"
  by (auto simp: stale_def close_ready_def)

lemma stale_take_data:
  assumes "stale c" and "take_data m c = Some (c', out)"
  shows "stale c'"
  using assms(2)
proof (cases rule: take_dataE)
  case later
  with assms(1) show ?thesis by (auto simp: stale_def)
next
  case next_one
  from assms(1) obtain k where "k \<in> gm_keys (rbuffer c)" "k < rsq c" by (auto simp: stale_def)
  then show ?thesis
    unfolding stale_def drain_keys [OF next_one(2)] drain_frame(8) [OF next_one(2)]
    by (intro bexI [of _ k]) auto
qed

lemma stale_move: "ep_move c sent out c' \<Longrightarrow> stale c \<Longrightarrow> stale c'"
proof (induction rule: ep_move.induct)
  case (move_send c c1 sent c')
  then show ?case
    using send_next_frame [OF move_send(1)] by (simp add: stale_def ep_same_def)
next
  case (move_data m c c0 c1 out c' i)
  then show ?case using stale_take_data stale_same by metis
next
  case (move_ack m c c')
  then show ?case by (simp add: stale_def ep_same_def)
qed (simp add: stale_same)

lemma repeated_data_is_stale:
  assumes "take_data m c = Some (c', out)" and "SeqNum m < rsq c"
  shows "stale c'"
  using assms(1)
proof (cases rule: take_dataE)
  case later
  with assms(2) show ?thesis by (auto simp: stale_def)
qed (use assms(2) in simp)

end
