(* ===== verification/Lsp_Client.thy ===== *)
theory Lsp_Client
  imports Lsp_Endpoint
begin

text \<open>
  The LSP client (\<open>lsp/client_impl.go\<close>): the struct, \<open>NewClient\<close>, the methods of the
  \<open>Client\<close> interface, the \<open>receiver\<close> goroutine and the \<open>handler\<close> goroutine, one
  iteration of its loop at a time. The step function composes them: one step is one
  iteration of a goroutine or one call of a method.
\<close>

section \<open>State\<close>

text \<open>
  \<open>statusSignal\<close> is the unbuffered channel \<open>NewClient\<close> waits on: the values on offer
  and whether the channel is closed. \<open>receiving\<close> says that the receiver goroutine has
  not returned, \<open>udp_open\<close> that the socket has not been closed.
\<close>

record client = endpoint +
  rmsg :: "bytes list"
  err :: "string list"
  statusSignal :: "int list"
  signal_closed :: bool
  receiving :: bool
  udp_open :: bool

definition rmsg_cap :: nat where "rmsg_cap = 1000"
definition tmsg_cap :: nat where "tmsg_cap = 1000"
definition incoming_cap :: nat where "incoming_cap = 1024"

text \<open>
  \<open>NewClient\<close> up to the point where it waits: the address is resolved and the socket
  opened (\<open>log.Fatal\<close> ends the process otherwise), the connect message takes sequence
  number 0 and is sent.
\<close>

datatype new_client = Fatal string | Waiting client "Message list"

definition NewClient :: "string option \<Rightarrow> string option \<Rightarrow> Params \<Rightarrow> new_client" where
  "NewClient resolve_err dial_err params =
     (case resolve_err of Some e \<Rightarrow> Fatal e | None \<Rightarrow>
      case dial_err of Some e \<Rightarrow> Fatal e | None \<Rightarrow>
        (let cli = \<lparr>conn_id = -1, incoming = [], tbuffer = [], tmsg = [], tsq = 0,
               rbuffer = [], rsq = 1, retries = EpochLimit params, windows = WindowSize params,
               ep_status = newStatus, epochCount = 0, running = True,
               rmsg = [], err = [], statusSignal = [], signal_closed = False,
               receiving = True, udp_open = True\<rparr>;
             cli = cli\<lparr>tbuffer := gm_set (tsq cli) NewConnect (tbuffer cli)\<rparr>;
             cli = cli\<lparr>tsq := tsq cli + 1\<rparr>
         in Waiting cli [NewConnect]))"

text \<open>
  \<open>status := <-statusSignal\<close> and what follows: \<open>None\<close> while the receive blocks; a closed
  channel yields 0.
\<close>

definition recv_signal :: "client \<Rightarrow> int option" where
  "recv_signal c = (case statusSignal c of
     v # _ \<Rightarrow> Some v | [] \<Rightarrow> if signal_closed c then Some 0 else None)"

definition NewClient_result :: "client \<Rightarrow> (string + int) option" where
  "NewClient_result c = (case recv_signal c of
     None \<Rightarrow> None
   | Some st \<Rightarrow> if st = 0 then Some (Inr (conn_id c))
               else Some (Inl ''[c] client creation failed''))"

section \<open>Methods\<close>

text \<open>
  \<open>Read\<close> selects between the two channels; when both are ready, Go picks either one, which
  the first argument stands for. \<open>None\<close>: the chosen channel is empty.
\<close>

datatype pick = PickData | PickErr

definition client_Read :: "pick \<Rightarrow> client \<Rightarrow> ((string + bytes) \<times> client) option" where
  "client_Read p c = (case p of
     PickData \<Rightarrow> (case rmsg c of [] \<Rightarrow> None | d # ds \<Rightarrow> Some (Inr d, c\<lparr>rmsg := ds\<rparr>))
   | PickErr \<Rightarrow> (case err c of [] \<Rightarrow> None | e # es \<Rightarrow> Some (Inl e, c\<lparr>err := es\<rparr>)))"

text \<open>\<open>Write\<close> blocks (\<open>None\<close>) while the channel is full; it never returns an error.\<close>

definition client_Write :: "bytes \<Rightarrow> client \<Rightarrow> client option" where
  "client_Write payload c =
     (if length (tmsg c) < tmsg_cap
      then Some (c\<lparr>tmsg := tmsg c @ [NewData (conn_id c) (-1) (int (length payload)) payload]\<rparr>)
      else None)"

definition client_Close_begin :: "client \<Rightarrow> client" where
  "client_Close_begin c = (if ep_status c = notClosing then c\<lparr>ep_status := startClosing\<rparr> else c)"

text \<open>One turn of the polling loop of \<open>Close\<close>; the flag says that it returns.\<close>

definition client_Close_poll :: "client \<Rightarrow> client \<times> bool" where
  "client_Close_poll c =
     (let c = (if ep_status c = handlerClosed then c\<lparr>udp_open := False\<rparr> else c)
      in if ep_status c = connectionClosed then (c\<lparr>ep_status := closed\<rparr>, True) else (c, False))"

section \<open>The receiver goroutine\<close>

text \<open>
  One turn of the loop: \<open>Some m\<close> is a message read, \<open>None\<close> an error of \<open>ReadMessage\<close>
  (the socket is closed, or a packet could not be decoded).
\<close>

definition client_receiver :: "Message option \<Rightarrow> client \<Rightarrow> client option" where
  "client_receiver r c =
     (if \<not> receiving c then None
      else case r of
        None \<Rightarrow> if 0 < conn_id c then Some (c\<lparr>ep_status := connectionClosed, receiving := False\<rparr>)
                else Some c
      | Some m \<Rightarrow> if udp_open c \<and> length (incoming c) < incoming_cap
                  then Some (c\<lparr>incoming := incoming c @ [m]\<rparr>) else None)"

section \<open>The handler goroutine\<close>

definition client_on_data :: "Message \<Rightarrow> client \<Rightarrow> client \<times> Message list" where
  "client_on_data m c = (case take_data m c of
     None \<Rightarrow> (c, [])
   | Some (c', out) \<Rightarrow> (c'\<lparr>rmsg := rmsg c' @ out\<rparr>, [NewAck (conn_id c') (SeqNum m)]))"

definition client_on_ack :: "Message \<Rightarrow> client \<Rightarrow> client" where
  "client_on_ack m c = (case gm_get (tbuffer c) (SeqNum m) of
     None \<Rightarrow> c
   | Some v \<Rightarrow>
       (let c = (if Type v = MsgConnect \<and> conn_id c < 0
                 then c\<lparr>conn_id := ConnID m, signal_closed := True\<rparr> else c)
        in c\<lparr>tbuffer := gm_del (SeqNum m) (tbuffer c)\<rparr>))"

definition client_on_incoming :: "Message \<Rightarrow> client \<Rightarrow> client \<times> Message list" where
  "client_on_incoming m c =
     (let c = c\<lparr>epochCount := 0\<rparr>
      in case Type m of
           MsgData \<Rightarrow> client_on_data m c
         | MsgAck \<Rightarrow> (client_on_ack m c, [])
         | _ \<Rightarrow> (c, []))"

definition client_on_timer :: "client \<Rightarrow> client \<times> Message list" where
  "client_on_timer c =
     (let c = c\<lparr>epochCount := epochCount c + 1\<rparr>
      in if epochCount c = retries c
         then (c\<lparr>err := err c @ [''[c] client '' @ Itoa (conn_id c) @ '': Connection Lost''],
                 ep_status := handlerClosed, running := False\<rparr>, [])
         else (c, (if conn_id c < 0 then [NewConnect]
                   else if rsq c = 1 \<and> rbuffer c = [] then [NewAck (conn_id c) 0] else [])
                  @ map snd (tbuffer c)))"

text \<open>
  One iteration of the loop. The select takes its \<open>default\<close> only when no message is
  waiting. \<open>None\<close>: the goroutine has returned, the chosen case is not ready, or a previous
  iteration still waits for room in \<open>rmsg\<close>.
\<close>

datatype handler_event = EvIncoming | EvTimer | EvDefault

definition client_handler :: "handler_event \<Rightarrow> client \<Rightarrow> (client \<times> Message list) option" where
  "client_handler e c =
     (if \<not> running c \<or> rmsg_cap < length (rmsg c) then None
      else if close_ready c then Some (c\<lparr>ep_status := handlerClosed, running := False\<rparr>, [])
      else case e of
        EvIncoming \<Rightarrow> (case incoming c of
             [] \<Rightarrow> None
           | m # ms \<Rightarrow> Some (client_on_incoming m (c\<lparr>incoming := ms\<rparr>)))
      | EvTimer \<Rightarrow> Some (client_on_timer c)
      | EvDefault \<Rightarrow> if incoming c = [] then Some (send_next c) else None)"

section \<open>Steps\<close>

datatype client_event =
    CHandler handler_event
  | CReceive "Message option"
  | CRead pick
  | CWrite bytes
  | CCloseBegin
  | CClosePoll

text \<open>The new state and the messages put on the wire. \<open>Write\<close> needs a returned \<open>NewClient\<close>.\<close>

fun client_exec :: "client_event \<Rightarrow> client \<Rightarrow> (client \<times> Message list) option" where
  "client_exec (CHandler e) c = client_handler e c"
| "client_exec (CReceive r) c = map_option (\<lambda>c'. (c', [])) (client_receiver r c)"
| "client_exec (CRead p) c = map_option (\<lambda>(_, c'). (c', [])) (client_Read p c)"
| "client_exec (CWrite p) c =
     (if NewClient_result c = None then None
      else map_option (\<lambda>c'. (c', [])) (client_Write p c))"
| "client_exec CCloseBegin c = Some (client_Close_begin c, [])"
| "client_exec CClosePoll c = Some (fst (client_Close_poll c), [])"

definition client_step :: "client \<Rightarrow> client_event \<Rightarrow> client \<Rightarrow> bool" where
  "client_step c e c' \<longleftrightarrow> (\<exists>sent. client_exec e c = Some (c', sent))"

definition client_init :: "client \<Rightarrow> bool" where
  "client_init c \<longleftrightarrow> (\<exists>params sent. NewClient None None params = Waiting c sent)"

lemmas client_step_defs =
  client_Read_def client_Write_def client_Close_begin_def client_Close_poll_def
  client_receiver_def client_handler_def client_on_incoming_def client_on_timer_def
  client_on_data_def client_on_ack_def

section \<open>The handler makes only endpoint moves\<close>

lemma client_on_data_move:
  assumes "m \<in> set (incoming c)" and "Type m = MsgData" and "ep_same c c0"
    and "client_on_data m c0 = (c', sent)" and "rmsg c0 = rmsg c"
  shows "\<exists>out. ep_move c sent out c' \<and> rmsg c' = rmsg c @ out"
proof (cases "take_data m c0")
  case None
  with assms show ?thesis by (auto simp: client_on_data_def intro: move_quiet)
next
  case (Some p)
  obtain c1 out where p: "take_data m c0 = Some (c1, out)" using Some by (cases p) auto
  have "rmsg c1 = rmsg c0"
    using arg_cong [OF take_data_upd [OF p], of rmsg] by simp
  with assms p have "c' = c1\<lparr>rmsg := rmsg c @ out\<rparr>" "sent = [NewAck (conn_id c1) (SeqNum m)]"
    by (auto simp: client_on_data_def)
  moreover have "ep_same c1 (c1\<lparr>rmsg := rmsg c @ out\<rparr>)" by (simp add: ep_same_def)
  ultimately show ?thesis
    using move_data [OF assms(1-3) p] by auto
qed

lemma client_on_ack_move:
  assumes "m \<in> set (incoming c)" and "Type m = MsgAck" and "ep_same c c0" and "rmsg c0 = rmsg c"
  shows "ep_move c [] [] (client_on_ack m c0)" and "rmsg (client_on_ack m c0) = rmsg c"
proof -
  have "ep_same (c\<lparr>tbuffer := gm_del (SeqNum m) (tbuffer c)\<rparr>) (client_on_ack m c0)"
    if "gm_get (tbuffer c0) (SeqNum m) \<noteq> None"
    using that assms(3) by (auto simp: client_on_ack_def ep_same_def Let_def split: option.splits)
  moreover have "ep_same c (client_on_ack m c0)" if "gm_get (tbuffer c0) (SeqNum m) = None"
    using that assms(3) by (simp add: client_on_ack_def)
  ultimately show "ep_move c [] [] (client_on_ack m c0)"
    using move_ack [OF assms(1,2)] move_quiet [of c _ "[]"] by fastforce
  show "rmsg (client_on_ack m c0) = rmsg c"
    using assms(4) by (simp add: client_on_ack_def Let_def split: option.split)
qed

lemma client_on_timer_move:
  assumes "client_on_timer c = (c', sent)"
  shows "ep_move c sent [] c'" and "rmsg c' = rmsg c"
proof -
  have "ep_same c c'"
    using assms by (auto simp: client_on_timer_def Let_def ep_same_def split: if_splits)
  moreover have "\<forall>m \<in> set sent. m \<in> snd ` set (tbuffer c) \<or> control m"
    using assms by (auto simp: client_on_timer_def Let_def control_def split: if_splits)
  ultimately show "ep_move c sent [] c'" by (rule move_quiet)
  show "rmsg c' = rmsg c"
    using assms by (auto simp: client_on_timer_def Let_def split: if_splits)
qed

lemma client_handler_move:
  assumes "client_handler e c = Some (c', sent)"
  shows "\<exists>out. ep_move c sent out c' \<and> rmsg c' = rmsg c @ out"
proof (cases "close_ready c")
  case True
  with assms show ?thesis
    by (auto simp: client_handler_def ep_same_def intro!: move_quiet split: if_splits)
next
  case False
  note H = assms False
  show ?thesis
  proof (cases e)
    case EvIncoming
    with H obtain m ms where i: "incoming c = m # ms"
      and r: "client_on_incoming m (c\<lparr>incoming := ms\<rparr>) = (c', sent)"
      by (auto simp: client_handler_def split: if_splits list.splits)
    have m: "m \<in> set (incoming c)" using i by simp
    have s: "ep_same c (c\<lparr>incoming := ms, epochCount := 0\<rparr>)"
      using i by (auto simp: ep_same_def)
    from r show ?thesis
      using client_on_data_move [OF m _ s, of c' sent] client_on_ack_move [OF m _ s]
        move_quiet [OF s, of "[]"]
      by (auto simp: client_on_incoming_def Let_def split: MsgType.splits)
  next
    case EvTimer
    with H show ?thesis
      using client_on_timer_move [of c c' sent]
      by (auto simp: client_handler_def split: if_splits)
  next
    case EvDefault
    with H have r: "send_next c = (c', sent)"
      by (auto simp: client_handler_def split: if_splits)
    then show ?thesis
      using move_send [OF r ep_same_refl] arg_cong [OF send_next_upd [OF r], of rmsg] by auto
  qed
qed

section \<open>Invariants\<close>

text \<open>Everything but an iteration of the handler leaves the transmission state alone.\<close>

lemma client_exec_other:
  assumes "client_exec e c = Some (c', sent)" and "\<And>h. e \<noteq> CHandler h"
  shows "sent = [] \<and> tbuffer c' = tbuffer c \<and> tsq c' = tsq c \<and> rbuffer c' = rbuffer c \<and>
    rsq c' = rsq c \<and> windows c' = windows c \<and> running c' = running c \<and>
    statusSignal c' = statusSignal c \<and> signal_closed c' = signal_closed c"
  using assms
  by (cases e) (auto simp: client_step_defs Let_def split: if_splits option.splits list.splits
      pick.splits)

lemma client_init_fields:
  assumes "client_init c"
  shows "tbuffer c = [(0, NewConnect)]" "tsq c = 1" "rbuffer c = []" "rsq c = 1" "tmsg c = []"
    "incoming c = []" "rmsg c = []" "statusSignal c = []" "signal_closed c = False" "running c"
    "conn_id c = -1"
  using assms by (auto simp: client_init_def NewClient_def Let_def)

interpretation client_window: inductive_invariant client_init client_step window_ok
proof
  show "window_ok c" if "client_init c" for c
    using that by (simp add: window_ok_def gm_wf_def client_init_fields)
  show "window_ok c'" if ok: "window_ok c" and st: "client_step c e c'" for c e c'
  proof -
    obtain sent where ex: "client_exec e c = Some (c', sent)"
      using st by (auto simp: client_step_def)
    show ?thesis
    proof (cases "\<exists>h. e = CHandler h")
      case True
      with ex obtain h where "client_handler h c = Some (c', sent)" by auto
      then show ?thesis using client_handler_move window_ok_move ok by blast
    next
      case False
      then show ?thesis using client_exec_other [OF ex] ok by (simp add: window_ok_def)
    qed
  qed
qed

lemma client_step_stale:
  assumes "client_step c e c'" and "stale c"
  shows "stale c'"
proof -
  obtain sent where ex: "client_exec e c = Some (c', sent)"
    using assms(1) by (auto simp: client_step_def)
  show ?thesis
  proof (cases "\<exists>h. e = CHandler h")
    case True
    with ex obtain h where "client_handler h c = Some (c', sent)" by auto
    then show ?thesis using client_handler_move stale_move assms(2) by blast
  next
    case False
    then show ?thesis using client_exec_other [OF ex] assms(2) by (simp add: stale_def)
  qed
qed

interpretation client_stale: inductive_invariant stale client_step stale
  by unfold_locales (auto intro: client_step_stale)

text \<open>Nothing is ever sent on the channel \<open>NewClient\<close> waits on.\<close>

lemma client_handler_signal:
  assumes "client_handler e c = Some (c', sent)"
  shows "statusSignal c' = statusSignal c"
proof -
  have td: "statusSignal c1 = statusSignal c0" if "take_data m c0 = Some (c1, out)" for m c0 c1 out
    using arg_cong [OF take_data_upd [OF that], of statusSignal] by simp
  have sn: "statusSignal c1 = statusSignal c0" if "send_next c0 = (c1, ms)" for c0 c1 ms
    using arg_cong [OF send_next_upd [OF that], of statusSignal] by simp
  show ?thesis
    using assms
    by (cases e) (auto simp: client_handler_def client_on_incoming_def client_on_data_def
        client_on_ack_def client_on_timer_def Let_def
        split: if_splits list.splits MsgType.splits option.splits dest!: td sn)
qed

interpretation client_signal: inductive_invariant client_init client_step "\<lambda>c. statusSignal c = []"
proof
  show "statusSignal c = []" if "client_init c" for c
    using that by (rule client_init_fields)
  show "statusSignal c' = []" if ok: "statusSignal c = []" and st: "client_step c e c'" for c e c'
  proof -
    obtain sent where ex: "client_exec e c = Some (c', sent)"
      using st by (auto simp: client_step_def)
    then show ?thesis
      using client_exec_other [OF ex] client_handler_signal ok by (cases e) auto
  qed
qed

text \<open>Once the handler has returned, the channel stays as it is.\<close>

definition signal_dead :: "client \<Rightarrow> bool" where
  "signal_dead c \<longleftrightarrow> \<not> running c \<and> NewClient_result c = None"

lemma signal_dead_step: "client_step c e c' \<Longrightarrow> signal_dead c \<Longrightarrow> signal_dead c'"
  using client_exec_other [of e c c']
  by (cases e)
    (auto simp: client_step_def signal_dead_def client_handler_def NewClient_result_def
      recv_signal_def split: option.splits list.splits if_splits)

interpretation client_dead: inductive_invariant signal_dead client_step signal_dead
  by unfold_locales (auto intro: signal_dead_step)

section \<open>Epochs\<close>

text \<open>Timer events in a row, with no message in between.\<close>

definition client_tick :: "client \<Rightarrow> client option" where
  "client_tick c = map_option fst (client_handler EvTimer c)"

definition client_expire :: "client \<Rightarrow> client" where
  "client_expire c = c\<lparr>epochCount := epochCount c + 1,
     err := err c @ [''[c] client '' @ Itoa (conn_id c) @ '': Connection Lost''],
     ep_status := handlerClosed, running := False\<rparr>"

definition handler_live :: "client \<Rightarrow> bool" where
  "handler_live c \<longleftrightarrow> running c \<and> \<not> close_ready c \<and> length (rmsg c) \<le> rmsg_cap"

lemma client_tick_live:
  "handler_live c \<Longrightarrow> client_handler EvTimer c = Some (client_on_timer c)"
  by (simp add: handler_live_def client_handler_def)

interpretation client_epoch: epoch_counter client_tick "\<lambda>c. c\<lparr>epochCount := epochCount c + 1\<rparr>"
    client_expire epochCount retries handler_live
  by unfold_locales
    (simp_all add: client_tick_def client_tick_live client_on_timer_def client_expire_def Let_def,
      simp add: handler_live_def close_ready_def)

text \<open>The client \<open>NewClient\<close> creates with the default parameters, for the examples below.\<close>

definition new_client_default :: client where
  "new_client_default = (case NewClient None None NewParams of Waiting c _ \<Rightarrow> c)"

lemma new_client_default_eq:
  "new_client_default = \<lparr>conn_id = -1, incoming = [], tbuffer = [(0, NewConnect)], tmsg = [],
     tsq = 1, rbuffer = [], rsq = 1, retries = 5, windows = 1, ep_status = notClosing,
     epochCount = 0, running = True, rmsg = [], err = [], statusSignal = [],
     signal_closed = False, receiving = True, udp_open = True\<rparr>"
  by (simp add: new_client_default_def NewClient_def NewParams_def newStatus_def Let_def)

lemma new_client_default_reach: "reach client_init client_step new_client_default"
proof (rule reach_init)
  have "NewClient None None NewParams = Waiting new_client_default [NewConnect]"
    by (simp add: new_client_default_def NewClient_def Let_def)
  then show "client_init new_client_default" by (auto simp only: client_init_def)
qed

text \<open>A connected client with one message sent and one waiting.\<close>

definition busy_client :: "client option" where
  "busy_client = run_opt client_exec [CReceive (Some (NewAck 73 0)), CHandler EvIncoming, CWrite ''hi'', CWrite ''yo'',
     CHandler EvDefault] new_client_default"

lemma busy_client_state:
  "case busy_client of None \<Rightarrow> False
   | Some c \<Rightarrow> (receiving c \<and> conn_id c = 73 \<and> incoming c = []) \<and>
       tbuffer c = [(1, NewData 73 1 2 ''hi'')] \<and> tmsg c = [NewData 73 (-1) 2 ''yo'']"
  by code_simp

lemma busy_client_reach:
  assumes "busy_client = Some c"
  shows "reach client_init client_step c"
  using reach_steps [OF run_opt_steps [OF assms [unfolded busy_client_def]]] new_client_default_reach
  unfolding client_step_def [abs_def] by blast

section \<open>Properties\<close>

text \<open>
  C8: the sliding window. In every reachable state of the client, whatever messages arrive,
  at most \<open>WindowSize\<close> messages are unacknowledged (one, the connect message, when
  \<open>WindowSize\<close> is not positive), and their numbers are among the last \<open>WindowSize\<close> ones
  handed out.
\<close>

theorem client_window_bound:
  assumes "reach client_init client_step c"
  shows "int (length (tbuffer c)) \<le> max 1 (windows c) \<and>
    (\<forall>k \<in> gm_keys (tbuffer c). tsq c - max 1 (windows c) \<le> k \<and> k < tsq c)"
  using client_window.reach_inv [OF assms] window_ok_count [of c] by (simp add: window_ok_def)

theorem client_window_bound_witness:
  "int (length (tbuffer new_client_default)) \<le> max 1 (windows new_client_default)"
  using client_window_bound [OF new_client_default_reach] by blast

text \<open>
  C12: epochs. A handler that hears nothing for \<open>EpochLimit\<close> timer events in a row stays
  alive and silent for all but the last of them; at the last one it reports the connection
  as lost, once, sets \<open>handlerClosed\<close> and returns.
\<close>

theorem client_lost_after_epoch_limit:
  assumes "handler_live c" and "epochCount c = 0" and "retries c = int (Suc n)"
  shows "(\<forall>k \<le> n. repeat_opt k client_tick c = Some (c\<lparr>epochCount := int k\<rparr>)) \<and>
    repeat_opt (Suc n) client_tick c = Some (c\<lparr>epochCount := int (Suc n),
      err := err c @ [''[c] client '' @ Itoa (conn_id c) @ '': Connection Lost''],
      ep_status := handlerClosed, running := False\<rparr>)"
  using client_epoch.ticks_alive [OF assms(1)] client_epoch.ticks_expire [OF assms(1), of n] assms(2,3)
  by (simp add: bump_epochs client_expire_def del: repeat_opt.simps)

theorem client_lost_after_epoch_limit_witness:
  "repeat_opt 4 client_tick new_client_default = Some (new_client_default\<lparr>epochCount := 4\<rparr>) \<and>
   map_option running (repeat_opt 5 client_tick new_client_default) = Some False"
proof -
  have "handler_live new_client_default" "epochCount new_client_default = 0"
    "retries new_client_default = int (Suc 4)"
    by (simp_all add: new_client_default_eq handler_live_def close_ready_def)
  from client_lost_after_epoch_limit [OF this]
  have "repeat_opt 4 client_tick new_client_default = Some (new_client_default\<lparr>epochCount := 4\<rparr>)"
    "map_option running (repeat_opt (Suc 4) client_tick new_client_default) = Some False"
    by (auto simp del: repeat_opt.simps)
  then show ?thesis by (simp del: repeat_opt.simps)
qed

text \<open>
  Retransmission. A timer event that does not end the connection changes nothing but
  the epoch counter and sends every unacknowledged message again, after the connect message
  or the keep-alive acknowledgement where the code sends one.
\<close>

theorem client_epoch_retransmits:
  assumes "handler_live c" and "epochCount c + 1 \<noteq> retries c"
  shows "client_handler EvTimer c = Some (c\<lparr>epochCount := epochCount c + 1\<rparr>,
    (if conn_id c < 0 then [NewConnect]
     else if rsq c = 1 \<and> rbuffer c = [] then [NewAck (conn_id c) 0] else []) @ map snd (tbuffer c))"
  using assms by (simp add: client_tick_live client_on_timer_def Let_def)

theorem client_epoch_retransmits_witness:
  "client_handler EvTimer new_client_default =
     Some (new_client_default\<lparr>epochCount := 1\<rparr>, [NewConnect, NewConnect])"
proof -
  have "handler_live new_client_default" "epochCount new_client_default + 1 \<noteq> retries new_client_default"
    by (simp_all add: new_client_default_eq handler_live_def close_ready_def)
  from client_epoch_retransmits [OF this] show ?thesis by (simp add: new_client_default_eq)
qed

text \<open>
  C18: a failed connection attempt is never reported. No reachable state of the client lets
  \<open>NewClient\<close> return its error, and once the handler has given up before the connection
  was acknowledged, \<open>NewClient\<close> stays blocked in every later state.
\<close>

theorem NewClient_never_fails:
  assumes "reach client_init client_step c"
  shows "NewClient_result c \<noteq> Some (Inl e) \<and>
    (\<not> running c \<longrightarrow> NewClient_result c = None \<longrightarrow> steps client_step c es c' \<longrightarrow>
     NewClient_result c' = None)"
  using client_signal.reach_inv [OF assms] client_dead.steps_inv [of c es c']
  by (auto simp: NewClient_result_def recv_signal_def signal_dead_def)

theorem NewClient_never_fails_witness:
  "\<exists>c. reach client_init client_step c \<and> \<not> running c \<and> err c \<noteq> [] \<and> NewClient_result c = None"
proof -
  let ?c = "new_client_default\<lparr>epochCount := 5,
      err := [''[c] client '' @ Itoa (-1) @ '': Connection Lost''],
      ep_status := handlerClosed, running := False\<rparr>"
  let ?n = "\<lambda>k. new_client_default\<lparr>epochCount := k\<rparr>"
  have t: "client_step (?n k) (CHandler EvTimer) (?n (k + 1))" if "k \<in> {0, 1, 2, 3}" for k
    using that by (auto simp: client_step_def client_handler_def close_ready_def client_on_timer_def
        new_client_default_eq)
  have "client_step (?n 4) (CHandler EvTimer) ?c"
    by (simp add: client_step_def client_handler_def close_ready_def client_on_timer_def
        new_client_default_eq)
  then have st: "steps client_step (?n 0) [CHandler EvTimer, CHandler EvTimer, CHandler EvTimer,
      CHandler EvTimer, CHandler EvTimer] ?c"
    using t [of 0] t [of 1] t [of 2] t [of 3] by (auto intro!: steps.intros)
  have "reach client_init client_step ?c"
    using reach_steps [OF st] new_client_default_reach by (simp add: new_client_default_eq)
  moreover have "NewClient_result ?c = None"
    by (simp add: new_client_default_eq NewClient_result_def recv_signal_def)
  ultimately show ?thesis
    using NewClient_never_fails [of ?c _ "[]" ?c] by (intro exI [of _ ?c]) simp
qed

text \<open>
  C13: a repeated data message blocks the orderly shutdown for good. When the handler takes
  in a well-sized data message whose number it has delivered already, the payload is stored
  under that number and never removed: in no later state, whatever happens, do the buffers
  become empty, so the loop guard of the close path never holds again.
\<close>

theorem client_duplicate_blocks_close:
  assumes "handler_live c" and "incoming c = m # ms" and "Type m = MsgData"
    and "Size m \<le> int (length (Payload m))" and "SeqNum m < rsq c"
    and "client_handler EvIncoming c = Some (c1, sent)" and "steps client_step c1 es c2"
  shows "sent = [NewAck (conn_id c) (SeqNum m)] \<and> rbuffer c2 \<noteq> [] \<and> \<not> close_ready c2"
proof -
  let ?c0 = "c\<lparr>incoming := ms, epochCount := 0\<rparr>"
  have "take_data m ?c0 = Some (save_data m ?c0, [])"
    using assms(4,5) by (simp add: take_data_def)
  moreover have "client_handler EvIncoming c = Some (client_on_data m ?c0)"
    using assms(1-3) by (simp add: handler_live_def client_handler_def client_on_incoming_def)
  ultimately have td: "take_data m ?c0 = Some (save_data m ?c0, [])"
    and c1: "c1 = (save_data m ?c0)\<lparr>rmsg := rmsg (save_data m ?c0)\<rparr>"
    and sent: "sent = [NewAck (conn_id c) (SeqNum m)]"
    using assms(6) by (simp_all add: client_on_data_def)
  have "stale (save_data m ?c0)"
    using repeated_data_is_stale [OF td] assms(5) by simp
  then have "stale c1" using c1 by (simp add: stale_def)
  then have "stale c2" using client_stale.steps_inv [OF assms(7)] by blast
  then show ?thesis
    using sent stale_not_close_ready by (auto simp: stale_def)
qed

definition client_after_repeat :: client where
  "client_after_repeat = new_client_default\<lparr>conn_id := 73, tbuffer := [], rsq := 2,
     signal_closed := True, incoming := [NewData 73 1 2 ''hi'']\<rparr>"

theorem client_duplicate_blocks_close_witness:
  "\<exists>c1. client_handler EvIncoming client_after_repeat = Some (c1, [NewAck 73 1]) \<and>
     rbuffer c1 \<noteq> []"
proof -
  let ?c = client_after_repeat
  obtain c1 sent where h: "client_handler EvIncoming ?c = Some (c1, sent)"
    by (simp add: client_after_repeat_def new_client_default_eq client_handler_def close_ready_def
        rmsg_cap_def client_on_incoming_def client_on_data_def take_data_def save_data_def)
  have live: "handler_live ?c"
    by (simp add: client_after_repeat_def new_client_default_eq handler_live_def close_ready_def)
  have "sent = [NewAck (conn_id ?c) 1] \<and> rbuffer c1 \<noteq> []"
    using client_duplicate_blocks_close [OF live _ _ _ _ h steps_Nil, of "NewData 73 1 2 ''hi''" "[]"]
    by (simp add: client_after_repeat_def)
  then show ?thesis using h by (simp add: client_after_repeat_def)
qed

end
