(* ===== verification/Lsp_Server.thy ===== *)
theory Lsp_Server
  imports Lsp_Client
begin

text \<open>
  The LSP server (\<open>lsp/server_impl.go\<close>): the structs, \<open>NewServer\<close>, the methods of the
  \<open>Server\<close> interface, the \<open>receiver\<close> and \<open>handle\<close> goroutines and the goroutine
  \<open>handleClient\<close> that every connection has.
\<close>

section \<open>State\<close>

record clientInfo = endpoint +
  addr :: string

text \<open>
  The map \<open>s.clients\<close> holds pointers, and the goroutine of a connection keeps its pointer
  after the entry is deleted. So the objects live in a store of their own, \<open>conns\<close>, which
  never shrinks and is keyed by the connection number; \<open>clients\<close> lists the numbers that
  are keys of the Go map. The channels that all connections share are lists. A method or the
  receiver waits while its channel is full; what the goroutine of a connection sends on
  \<open>rmsg\<close>, \<open>cls\<close> and \<open>err\<close> is not held back, so a connection blocked on a full one is ahead of
  the code by the sends it still waits for. \<open>handle_send\<close> is the message the \<open>handle\<close>
  goroutine has taken and cannot pass on because the channel of its connection is full.
\<close>

datatype pending_send = ToIncoming Message | ToTmsg Message

record server =
  clients :: "int list"
  conns :: "(int, clientInfo) gomap"
  lastConnID :: int
  s_incoming :: "(Message \<times> string) list"
  outgoing :: "Message list"
  s_rmsg :: "(int \<times> bytes) list"
  s_status :: status
  s_err :: "(int \<times> string) list"
  cls :: "int list"
  bcls_closed :: bool
  handling :: bool
  handle_send :: "pending_send option"
  s_receiving :: bool
  s_udp_open :: bool

definition NewServer :: "string option \<Rightarrow> string option \<Rightarrow> string + server" where
  "NewServer resolve_err listen_err =
     (case resolve_err of Some e \<Rightarrow> Inl e | None \<Rightarrow>
      case listen_err of Some e \<Rightarrow> Inl e | None \<Rightarrow>
        Inr \<lparr>clients = [], conns = [], lastConnID = 73, s_incoming = [], outgoing = [],
             s_rmsg = [], s_status = newStatus, s_err = [], cls = [], bcls_closed = False,
             handling = True, handle_send = None, s_receiving = True, s_udp_open = True\<rparr>)"

section \<open>Methods\<close>

definition server_Read :: "pick \<Rightarrow> server \<Rightarrow> ((int \<times> (string + bytes)) \<times> server) option" where
  "server_Read p s = (case p of
     PickData \<Rightarrow> (case s_rmsg s of [] \<Rightarrow> None
       | (i, d) # ds \<Rightarrow> Some ((i, Inr d), s\<lparr>s_rmsg := ds\<rparr>))
   | PickErr \<Rightarrow> (case s_err s of [] \<Rightarrow> None
       | (i, e) # es \<Rightarrow> Some ((i, Inl e), s\<lparr>s_err := es\<rparr>)))"

definition server_Write :: "int \<Rightarrow> bytes \<Rightarrow> server \<Rightarrow> server option" where
  "server_Write connID payload s =
     (if length (outgoing s) < 10000
      then Some (s\<lparr>outgoing := outgoing s @ [NewData connID (-1) (int (length payload)) payload]\<rparr>) else None)"

definition server_CloseConn :: "int \<Rightarrow> server \<Rightarrow> server option" where
  "server_CloseConn connID s = (if length (cls s) < 1024 then Some (s\<lparr>cls := cls s @ [connID]\<rparr>) else None)"

definition server_Close_begin :: "server \<Rightarrow> server" where
  "server_Close_begin s = s\<lparr>s_status := startClosing, bcls_closed := True\<rparr>"

definition server_Close_poll :: "server \<Rightarrow> server \<times> bool" where
  "server_Close_poll s =
     (let s = (if s_status s = handlerClosed then s\<lparr>s_udp_open := False\<rparr> else s)
      in (s, s_status s = connectionClosed))"

section \<open>The receiver goroutine\<close>

definition server_receiver :: "(Message \<times> string) option \<Rightarrow> server \<Rightarrow> server option" where
  "server_receiver r s =
     (if \<not> s_receiving s then None
      else case r of
        None \<Rightarrow> if s_status s = handlerClosed
                then Some (s\<lparr>s_status := connectionClosed, s_receiving := False\<rparr>) else Some s
      | Some am \<Rightarrow> if s_udp_open s \<and> length (s_incoming s) < 10000 then Some (s\<lparr>s_incoming := s_incoming s @ [am]\<rparr>) else None)"

section \<open>The handle goroutine\<close>

definition new_clientInfo :: "Params \<Rightarrow> int \<Rightarrow> string \<Rightarrow> clientInfo" where
  "new_clientInfo params i a =
     \<lparr>conn_id = i, incoming = [], tbuffer = [], tmsg = [], tsq = 1, rbuffer = [], rsq = 1,
      retries = EpochLimit params, windows = WindowSize params, ep_status = newStatus,
      epochCount = 0, running = True, addr = a\<rparr>"

definition conn_addr :: "server \<Rightarrow> int \<Rightarrow> string option" where
  "conn_addr s i = map_option addr (gm_get (conns s) i)"

definition upd_conn :: "int \<Rightarrow> (clientInfo \<Rightarrow> clientInfo) \<Rightarrow> server \<Rightarrow> server" where
  "upd_conn i f s = (case gm_get (conns s) i of None \<Rightarrow> s | Some c \<Rightarrow> s\<lparr>conns := gm_set i (f c) (conns s)\<rparr>)"

definition handle_connect :: "Params \<Rightarrow> string \<Rightarrow> server \<Rightarrow> server \<times> (Message \<times> string) list" where
  "handle_connect params a s =
     (if \<exists>i \<in> set (clients s). conn_addr s i = Some a then (s, [])
      else (s\<lparr>conns := gm_set (lastConnID s) (new_clientInfo params (lastConnID s) a) (conns s),
               clients := lastConnID s # clients s, lastConnID := lastConnID s + 1\<rparr>,
            [(NewAck (lastConnID s) 0, a)]))"

text \<open>
  The default case and the outgoing case send on a channel of the connection, of capacity
  1024. While it is full the goroutine waits and takes nothing else.
\<close>

definition conn_room :: "(clientInfo \<Rightarrow> Message list) \<Rightarrow> int \<Rightarrow> server \<Rightarrow> bool" where
  "conn_room chan i s = (case gm_get (conns s) i of None \<Rightarrow> True | Some c \<Rightarrow> length (chan c) < 1024)"

fun pending_id :: "pending_send \<Rightarrow> int" where
  "pending_id (ToIncoming m) = ConnID m"
| "pending_id (ToTmsg m) = ConnID m"

fun conn_send :: "pending_send \<Rightarrow> server \<Rightarrow> server option" where
  "conn_send (ToIncoming m) s = (if conn_room incoming (ConnID m) s
     then Some (upd_conn (ConnID m) (\<lambda>c. c\<lparr>incoming := incoming c @ [m]\<rparr>) s) else None)"
| "conn_send (ToTmsg m) s = (if conn_room tmsg (ConnID m) s
     then Some (upd_conn (ConnID m) (\<lambda>c. c\<lparr>tmsg := tmsg c @ [m]\<rparr>) s) else None)"

definition route :: "pending_send \<Rightarrow> server \<Rightarrow> server" where
  "route p s = (if pending_id p \<in> set (clients s)
     then (case conn_send p s of Some t \<Rightarrow> t | None \<Rightarrow> s\<lparr>handle_send := Some p\<rparr>) else s)"

definition handle_other :: "Message \<Rightarrow> server \<Rightarrow> server" where
  "handle_other m s = route (ToIncoming m) s"

definition handle_outgoing :: "Message \<Rightarrow> server \<Rightarrow> server" where
  "handle_outgoing m s = route (ToTmsg m) s"

definition handle_cls :: "int \<Rightarrow> server \<Rightarrow> server" where
  "handle_cls i s =
     (let s = (if i \<in> set (clients s)
               then (upd_conn i (\<lambda>c. if ep_status c = notClosing then c\<lparr>ep_status := startClosing\<rparr>
                                     else c) s)\<lparr>clients := remove1 i (clients s)\<rparr>
               else s)
      in if clients s = [] \<and> s_status s = startClosing
         then s\<lparr>s_status := handlerClosed, handling := False\<rparr> else s)"

datatype handle_event = HIncoming | HOutgoing | HCls | HSend   \<comment> \<open>the pending send goes through\<close>

definition server_handle ::
    "Params \<Rightarrow> handle_event \<Rightarrow> server \<Rightarrow> (server \<times> (Message \<times> string) list) option" where
  "server_handle params e s =
     (if \<not> handling s \<or> (handle_send s \<noteq> None \<and> e \<noteq> HSend) then None
      else case e of
        HIncoming \<Rightarrow> (case s_incoming s of
            [] \<Rightarrow> None
          | (m, a) # ms \<Rightarrow>
              (let s' = s\<lparr>s_incoming := ms\<rparr>
               in if Type m = MsgConnect then Some (handle_connect params a s')
                  else Some (handle_other m s', [])))
      | HOutgoing \<Rightarrow> (case outgoing s of
            [] \<Rightarrow> None
          | m # ms \<Rightarrow> Some (handle_outgoing m (s\<lparr>outgoing := ms\<rparr>), []))
      | HCls \<Rightarrow> (case cls s of
            [] \<Rightarrow> None
          | i # is \<Rightarrow> Some (handle_cls i (s\<lparr>cls := is\<rparr>), []))
      | HSend \<Rightarrow> (case handle_send s of
            None \<Rightarrow> None
          | Some p \<Rightarrow> map_option (\<lambda>t. (t\<lparr>handle_send := None\<rparr>, [])) (conn_send p s)))"

section \<open>The goroutine of a connection\<close>

text \<open>
  What one iteration leaves behind: the connection, the messages written to its address,
  the payloads put into \<open>s.rmsg\<close>, whether its number is sent on \<open>s.cls\<close>, and the errors
  sent on \<open>s.err\<close>.
\<close>

record conn_result =
  cr_conn :: clientInfo
  cr_sent :: "Message list"
  cr_rmsg :: "bytes list"
  cr_cls :: bool
  cr_err :: "string list"

definition quiet_result :: "clientInfo \<Rightarrow> Message list \<Rightarrow> conn_result" where
  "quiet_result c ms = \<lparr>cr_conn = c, cr_sent = ms, cr_rmsg = [], cr_cls = False, cr_err = []\<rparr>"

definition conn_on_data :: "Message \<Rightarrow> clientInfo \<Rightarrow> conn_result" where
  "conn_on_data m c = (case take_data m c of
     None \<Rightarrow> quiet_result c []
   | Some (c', out) \<Rightarrow> (quiet_result c' [NewAck (conn_id c') (SeqNum m)])\<lparr>cr_rmsg := out\<rparr>)"

definition conn_on_ack :: "Message \<Rightarrow> clientInfo \<Rightarrow> clientInfo" where
  "conn_on_ack m c =
     (if gm_get (tbuffer c) (SeqNum m) \<noteq> None
      then c\<lparr>tbuffer := gm_del (SeqNum m) (tbuffer c)\<rparr> else c)"

definition conn_on_incoming :: "Message \<Rightarrow> clientInfo \<Rightarrow> conn_result" where
  "conn_on_incoming m c =
     (let c = c\<lparr>epochCount := 0\<rparr>
      in case Type m of
           MsgData \<Rightarrow> conn_on_data m c
         | MsgAck \<Rightarrow> quiet_result (conn_on_ack m c) []
         | _ \<Rightarrow> quiet_result c [])"

definition conn_on_timer :: "clientInfo \<Rightarrow> conn_result" where
  "conn_on_timer c =
     (let c = c\<lparr>epochCount := epochCount c + 1\<rparr>
      in if epochCount c = retries c
         then \<lparr>cr_conn = c\<lparr>ep_status := handlerClosed, running := False\<rparr>, cr_sent = [],
               cr_rmsg = [], cr_cls = True,
               cr_err = [''[s] client '' @ Itoa (conn_id c) @ '': Connection lost'']\<rparr>
         else quiet_result c
                ((if rsq c = 1 \<and> rbuffer c = [] then [NewAck (conn_id c) 0] else [])
                 @ map snd (tbuffer c)))"

definition conn_on_default :: "bool \<Rightarrow> clientInfo \<Rightarrow> conn_result" where
  "conn_on_default bcls c =
     (let (c', ms) = send_next c;
          c'' = (if ep_status c' = notClosing \<and> bcls then c'\<lparr>ep_status := startClosing\<rparr> else c')
      in quiet_result c'' ms)"

definition handleClient :: "bool \<Rightarrow> handler_event \<Rightarrow> clientInfo \<Rightarrow> conn_result option" where
  "handleClient bcls e c =
     (if \<not> running c then None
      else if close_ready c
      then Some ((quiet_result (c\<lparr>ep_status := handlerClosed, running := False\<rparr>) [])\<lparr>cr_cls := True\<rparr>)
      else case e of
        EvIncoming \<Rightarrow> (case incoming c of
             [] \<Rightarrow> None
           | m # ms \<Rightarrow> Some (conn_on_incoming m (c\<lparr>incoming := ms\<rparr>)))
      | EvTimer \<Rightarrow> Some (conn_on_timer c)
      | EvDefault \<Rightarrow> if incoming c = [] then Some (conn_on_default bcls c) else None)"

definition server_conn ::
    "int \<Rightarrow> handler_event \<Rightarrow> server \<Rightarrow> (server \<times> (Message \<times> string) list) option" where
  "server_conn i e s =
     (case gm_get (conns s) i of
        None \<Rightarrow> None
      | Some c \<Rightarrow>
          (case handleClient (bcls_closed s) e c of
             None \<Rightarrow> None
           | Some r \<Rightarrow> Some
               (s\<lparr>conns := gm_set i (cr_conn r) (conns s),
                  s_rmsg := s_rmsg s @ map (Pair i) (cr_rmsg r),
                  cls := cls s @ (if cr_cls r then [i] else []),
                  s_err := s_err s @ map (Pair i) (cr_err r)\<rparr>,
                map (\<lambda>m. (m, addr c)) (cr_sent r))))"

section \<open>Steps\<close>

datatype server_event =
    SHandle handle_event
  | SConn int handler_event
  | SReceive "(Message \<times> string) option"
  | SRead pick
  | SWrite int bytes
  | SCloseConn int
  | SCloseBegin
  | SClosePoll

fun server_exec ::
    "Params \<Rightarrow> server_event \<Rightarrow> server \<Rightarrow> (server \<times> (Message \<times> string) list) option" where
  "server_exec params (SHandle e) s = server_handle params e s"
| "server_exec params (SConn i e) s = server_conn i e s"
| "server_exec params (SReceive r) s = map_option (\<lambda>t. (t, [])) (server_receiver r s)"
| "server_exec params (SRead p) s = map_option (\<lambda>(_, t). (t, [])) (server_Read p s)"
| "server_exec params (SWrite i p) s = map_option (\<lambda>t. (t, [])) (server_Write i p s)"
| "server_exec params (SCloseConn i) s = map_option (\<lambda>t. (t, [])) (server_CloseConn i s)"
| "server_exec params SCloseBegin s = Some (server_Close_begin s, [])"
| "server_exec params SClosePoll s = Some (fst (server_Close_poll s), [])"

definition server_step :: "Params \<Rightarrow> server \<Rightarrow> server_event \<Rightarrow> server \<Rightarrow> bool" where
  "server_step params s e t \<longleftrightarrow> (\<exists>sent. server_exec params e s = Some (t, sent))"

definition server_init :: "server \<Rightarrow> bool" where
  "server_init s \<longleftrightarrow> NewServer None None = Inr s"

lemmas server_step_defs =
  server_Read_def server_Write_def server_CloseConn_def server_Close_begin_def
  server_Close_poll_def server_receiver_def server_handle_def handle_connect_def handle_other_def
  handle_outgoing_def route_def handle_cls_def server_conn_def upd_conn_def

section \<open>A connection makes only endpoint moves\<close>

lemma quiet_result_sel [simp]:
  "cr_conn (quiet_result c ms) = c" "cr_sent (quiet_result c ms) = ms"
  "cr_rmsg (quiet_result c ms) = []" "cr_cls (quiet_result c ms) = False"
  "cr_err (quiet_result c ms) = []"
  by (simp_all add: quiet_result_def)

lemma conn_on_data_move:
  assumes "m \<in> set (incoming c)" and "Type m = MsgData" and "ep_same c c0"
  shows "ep_move c (cr_sent (conn_on_data m c0)) (cr_rmsg (conn_on_data m c0)) (cr_conn (conn_on_data m c0))"
proof (cases "take_data m c0")
  case None
  with assms(3) show ?thesis by (simp add: conn_on_data_def move_quiet)
next
  case (Some p)
  then obtain c1 out where p: "take_data m c0 = Some (c1, out)" by (cases p) auto
  then show ?thesis
    using move_data [OF assms p ep_same_refl] by (simp add: conn_on_data_def)
qed

lemma conn_on_ack_move:
  assumes "m \<in> set (incoming c)" and "Type m = MsgAck" and "ep_same c c0"
  shows "ep_move c [] [] (conn_on_ack m c0)"
proof (cases "gm_get (tbuffer c0) (SeqNum m)")
  case None
  with assms(3) show ?thesis by (simp add: conn_on_ack_def move_quiet)
next
  case (Some v)
  then have "ep_same (c\<lparr>tbuffer := gm_del (SeqNum m) (tbuffer c)\<rparr>) (conn_on_ack m c0)"
    using assms(3) by (simp add: conn_on_ack_def ep_same_def)
  then show ?thesis by (rule move_ack [OF assms(1,2)])
qed

lemma conn_on_timer_move:
  "ep_move c (cr_sent (conn_on_timer c)) (cr_rmsg (conn_on_timer c)) (cr_conn (conn_on_timer c))"
proof -
  have "ep_same c (cr_conn (conn_on_timer c))"
    by (simp add: conn_on_timer_def Let_def ep_same_def)
  moreover have "\<forall>m \<in> set (cr_sent (conn_on_timer c)). m \<in> snd ` set (tbuffer c) \<or> control m"
    by (auto simp: conn_on_timer_def Let_def control_def)
  moreover have "cr_rmsg (conn_on_timer c) = []"
    by (simp add: conn_on_timer_def Let_def)
  ultimately show ?thesis by (simp add: move_quiet)
qed

lemma conn_on_default_move:
  "ep_move c (cr_sent (conn_on_default b c)) (cr_rmsg (conn_on_default b c)) (cr_conn (conn_on_default b c))"
proof -
  obtain c1 ms where sn: "send_next c = (c1, ms)" by fastforce
  then show ?thesis
    using move_send [OF sn, of "cr_conn (conn_on_default b c)"]
    by (auto simp: conn_on_default_def ep_same_def)
qed

lemma handleClient_move:
  assumes "handleClient b e c = Some r"
  shows "ep_move c (cr_sent r) (cr_rmsg r) (cr_conn r)"
proof (cases "close_ready c")
  case True
  with assms show ?thesis
    by (auto simp: handleClient_def ep_same_def intro!: move_quiet split: if_splits)
next
  case False
  note H = assms False
  show ?thesis
  proof (cases e)
    case EvIncoming
    with H obtain m ms where i: "incoming c = m # ms"
      and r: "r = conn_on_incoming m (c\<lparr>incoming := ms\<rparr>)"
      by (auto simp: handleClient_def split: if_splits list.splits)
    have m: "m \<in> set (incoming c)" using i by simp
    have s: "ep_same c (c\<lparr>incoming := ms, epochCount := 0\<rparr>)"
      using i by (auto simp: ep_same_def)
    show ?thesis
      unfolding r
      using conn_on_data_move [OF m _ s] conn_on_ack_move [OF m _ s] move_quiet [OF s, of "[]"]
      by (simp add: conn_on_incoming_def Let_def split: MsgType.split)
  next
    case EvTimer
    with H show ?thesis
      using conn_on_timer_move [of c] by (auto simp: handleClient_def split: if_splits)
  next
    case EvDefault
    with H show ?thesis
      using conn_on_default_move [of c b] by (auto simp: handleClient_def split: if_splits)
  qed
qed

text \<open>A connection never changes its number or its address.\<close>

lemma handleClient_identity:
  assumes "handleClient b e c = Some r"
  shows "conn_id (cr_conn r) = conn_id c \<and> addr (cr_conn r) = addr c"
proof -
  have td: "conn_id c1 = conn_id c0 \<and> addr c1 = addr c0"
    if "take_data m c0 = Some (c1, out)" for m out and c0 c1 :: clientInfo
    using arg_cong [OF take_data_upd [OF that], of conn_id] arg_cong [OF take_data_upd [OF that], of addr]
    by simp
  have sn: "conn_id c1 = conn_id c0 \<and> addr c1 = addr c0"
    if "send_next c0 = (c1, ms)" for ms and c0 c1 :: clientInfo
    using arg_cong [OF send_next_upd [OF that], of conn_id] arg_cong [OF send_next_upd [OF that], of addr]
    by simp
  show ?thesis
    using assms
    by (cases e) (auto simp: handleClient_def conn_on_incoming_def conn_on_data_def conn_on_ack_def
        conn_on_timer_def conn_on_default_def Let_def
        split: if_splits list.splits MsgType.splits option.splits prod.splits dest!: td sn)
qed

section \<open>The registry of connections\<close>

definition registry_ok :: "server \<Rightarrow> bool" where
  "registry_ok s \<longleftrightarrow>
     (\<forall>i \<in> gm_keys (conns s). 73 \<le> i \<and> i < lastConnID s) \<and> 73 \<le> lastConnID s \<and>
     (\<forall>i c. gm_get (conns s) i = Some c \<longrightarrow> conn_id c = i) \<and>
     distinct (clients s) \<and> set (clients s) \<subseteq> gm_keys (conns s) \<and>
     inj_on (conn_addr s) (set (clients s))"

lemma upd_conn_frame [simp]:
  "clients (upd_conn i f s) = clients s" "lastConnID (upd_conn i f s) = lastConnID s"
  "s_incoming (upd_conn i f s) = s_incoming s" "outgoing (upd_conn i f s) = outgoing s"
  "s_rmsg (upd_conn i f s) = s_rmsg s" "s_status (upd_conn i f s) = s_status s"
  "s_err (upd_conn i f s) = s_err s" "cls (upd_conn i f s) = cls s"
  "bcls_closed (upd_conn i f s) = bcls_closed s" "handling (upd_conn i f s) = handling s"
  "handle_send (upd_conn i f s) = handle_send s"
  by (simp_all add: upd_conn_def split: option.split)

lemma upd_conn_get [simp]:
  "gm_get (conns (upd_conn i f s)) j =
     (if j = i then map_option f (gm_get (conns s) i) else gm_get (conns s) j)"
  by (simp add: upd_conn_def split: option.split)

lemma upd_conn_keys [simp]: "gm_keys (conns (upd_conn i f s)) = gm_keys (conns s)"
  using gm_get_Some_key [of "conns s" i]
  by (auto simp: upd_conn_def insert_absorb split: option.split)

text \<open>
  An update that keeps the identity of a connection keeps the registry; so does
  unregistering.
\<close>

lemma registry_ok_cong:
  assumes "registry_ok s" and "gm_keys (conns t) = gm_keys (conns s)"
    and "lastConnID t = lastConnID s" and "\<And>i. conn_addr t i = conn_addr s i"
    and "\<And>i c. gm_get (conns t) i = Some c \<Longrightarrow> conn_id c = i"
    and "distinct (clients t)" and "set (clients t) \<subseteq> set (clients s)"
  shows "registry_ok t"
proof -
  have "conn_addr t = conn_addr s" using assms(4) by (rule ext)
  moreover have "inj_on (conn_addr s) (set (clients t))"
    using assms(1,7) by (auto simp: registry_ok_def intro: inj_on_subset)
  ultimately show ?thesis
    using assms(1-3,5-7) unfolding registry_ok_def by (simp, blast)
qed

lemma conn_addr_upd:
  "(\<And>c. addr (f c) = addr c) \<Longrightarrow> conn_addr (upd_conn i f s) j = conn_addr s j"
  by (simp add: conn_addr_def option.map_comp comp_def)

lemma registry_ok_upd:
  assumes "registry_ok s" and "\<And>c. addr (f c) = addr c" and "\<And>c. conn_id (f c) = conn_id c"
  shows "registry_ok (upd_conn i f s)"
  using assms(1)
proof (rule registry_ok_cong)
  show "conn_id c = j" if "gm_get (conns (upd_conn i f s)) j = Some c" for j c
    using that assms(1,3) by (auto simp: registry_ok_def split: if_splits)
qed (use assms in \<open>auto simp: conn_addr_upd registry_ok_def\<close>)

lemma registry_ok_connect:
  assumes ok: "registry_ok s" and r: "handle_connect params a s = (t, sent)"
  shows "registry_ok t"
proof (cases "\<exists>i \<in> set (clients s). conn_addr s i = Some a")
  case True
  with ok r show ?thesis by (simp add: handle_connect_def)
next
  case False
  let ?n = "lastConnID s"
  have n: "?n \<notin> gm_keys (conns s)" "?n \<notin> set (clients s)"
    using ok by (auto simp: registry_ok_def)
  have t: "clients t = ?n # clients s" "lastConnID t = ?n + 1"
      "conns t = gm_set ?n (new_clientInfo params ?n a) (conns s)"
    using False r by (auto simp: handle_connect_def)
  have ca: "conn_addr t j = (if j = ?n then Some a else conn_addr s j)" for j
    using t by (simp add: conn_addr_def new_clientInfo_def)
  have "inj_on (conn_addr t) (set (clients t))"
    using ok False n by (auto simp: registry_ok_def t(1) ca inj_on_def)
  moreover have "conn_id c = j" if "gm_get (conns t) j = Some c" for j c
    using that ok t(3) by (auto simp: registry_ok_def new_clientInfo_def split: if_splits)
  moreover have "\<forall>i \<in> gm_keys (conns t). 73 \<le> i \<and> i < lastConnID t" "73 \<le> lastConnID t"
    using ok t(2,3) by (auto simp: registry_ok_def)
  moreover have "distinct (clients t)" "set (clients t) \<subseteq> gm_keys (conns t)"
    using ok n t(1,3) by (auto simp: registry_ok_def)
  ultimately show ?thesis unfolding registry_ok_def by blast
qed

lemma registry_ok_same:
  "conns t = conns s \<Longrightarrow> clients t = clients s \<Longrightarrow> lastConnID t = lastConnID s \<Longrightarrow>
   registry_ok t = registry_ok s"
proof -
  assume eq: "conns t = conns s" "clients t = clients s" "lastConnID t = lastConnID s"
  then have "conn_addr t = conn_addr s" by (simp add: conn_addr_def fun_eq_iff)
  with eq show ?thesis by (simp add: registry_ok_def)
qed

lemma registry_ok_cls: "registry_ok s \<Longrightarrow> registry_ok (handle_cls i s)"
proof -
  assume ok: "registry_ok s"
  let ?u = "upd_conn i (\<lambda>c. if ep_status c = notClosing then c\<lparr>ep_status := startClosing\<rparr> else c) s"
  have u: "registry_ok ?u" using ok by (rule registry_ok_upd) simp_all
  have "registry_ok (?u\<lparr>clients := remove1 i (clients s)\<rparr>)"
    using u
  proof (rule registry_ok_cong)
    show "distinct (clients (?u\<lparr>clients := remove1 i (clients s)\<rparr>))"
      using ok by (simp add: registry_ok_def)
    show "set (clients (?u\<lparr>clients := remove1 i (clients s)\<rparr>)) \<subseteq> set (clients ?u)"
      by (simp add: set_remove1_subset)
    show "conn_id c = j" if "gm_get (conns (?u\<lparr>clients := remove1 i (clients s)\<rparr>)) j = Some c" for j c
      using that u unfolding registry_ok_def by simp
  qed (simp_all add: conn_addr_def)
  moreover have "registry_ok (t\<lparr>s_status := x, handling := y\<rparr>) = registry_ok t" for t x y
    by (rule registry_ok_same) simp_all
  ultimately show ?thesis
    using ok by (auto simp: handle_cls_def Let_def)
qed

lemma registry_ok_conn:
  assumes ok: "registry_ok s" and r: "server_conn i e s = Some (t, sent)"
  shows "registry_ok t"
proof -
  from r obtain c res where c: "gm_get (conns s) i = Some c"
    and h: "handleClient (bcls_closed s) e c = Some res"
    and t: "conns t = gm_set i (cr_conn res) (conns s)" "clients t = clients s"
      "lastConnID t = lastConnID s"
    by (auto simp: server_conn_def split: option.splits)
  note id = handleClient_identity [OF h]
  show ?thesis
    using ok
  proof (rule registry_ok_cong)
    show "gm_keys (conns t) = gm_keys (conns s)"
      using gm_get_Some_key [OF c] t(1) by auto
    show "conn_addr t j = conn_addr s j" for j
      using c id t(1) by (simp add: conn_addr_def)
    show "conn_id d = j" if "gm_get (conns t) j = Some d" for j d
      using that ok c id t(1) by (auto simp: registry_ok_def split: if_splits)
  qed (use ok t in \<open>auto simp: registry_ok_def\<close>)
qed

lemma registry_ok_send:
  assumes "registry_ok s" and "conn_send p s = Some t"
  shows "registry_ok t"
  using assms(2) registry_ok_upd [OF assms(1)] by (cases p) (auto split: if_splits)

lemma registry_ok_route: "registry_ok s \<Longrightarrow> registry_ok (route p s)"
  using registry_ok_send [of s p] registry_ok_same [of "s\<lparr>handle_send := Some p\<rparr>" s]
  by (auto simp: route_def split: option.split)

lemma registry_ok_handle:
  assumes ok: "registry_ok s" and r: "server_handle params e s = Some (t, sent)"
  shows "registry_ok t"
proof -
  have eq: "registry_ok (s\<lparr>s_incoming := x\<rparr>)" "registry_ok (s\<lparr>outgoing := y\<rparr>)"
    "registry_ok (s\<lparr>cls := z\<rparr>)" for x y z
    by (rule registry_ok_same [THEN iffD2, OF _ _ _ ok]; simp)+
  show ?thesis
  proof (cases e)
    case HIncoming
    with r obtain m a ms where m: "s_incoming s = (m, a) # ms"
      by (auto simp: server_handle_def split: if_splits list.splits)
    have "registry_ok (fst (handle_connect params a (s\<lparr>s_incoming := ms\<rparr>)))"
      by (rule registry_ok_connect [OF eq(1)]) (rule surjective_pairing)
    moreover have "registry_ok (handle_other m (s\<lparr>s_incoming := ms\<rparr>))"
      using registry_ok_route [OF eq(1)] by (simp add: handle_other_def)
    ultimately show ?thesis
      using r m HIncoming by (auto simp: server_handle_def Let_def split: if_splits)
  next
    case HOutgoing
    then show ?thesis
      using r registry_ok_route [OF eq(2)]
      by (auto simp: server_handle_def handle_outgoing_def split: if_splits list.splits)
  next
    case HCls
    then show ?thesis
      using r registry_ok_cls [OF eq(3)]
      by (auto simp: server_handle_def split: if_splits list.splits)
  next
    case HSend
    then obtain p u where u: "conn_send p s = Some u" "t = u\<lparr>handle_send := None\<rparr>"
      using r by (auto simp: server_handle_def split: if_splits option.splits)
    then show ?thesis using registry_ok_send [OF ok u(1)] registry_ok_same [of t u] by simp
  qed
qed

lemma server_exec_other:
  assumes "server_exec params e s = Some (t, sent)"
    and "\<And>h. e \<noteq> SHandle h" and "\<And>i h. e \<noteq> SConn i h"
  shows "sent = [] \<and> conns t = conns s \<and> clients t = clients s \<and> lastConnID t = lastConnID s \<and>
    handling t = handling s \<and> handle_send t = handle_send s"
  using assms
  by (cases e) (auto simp: server_step_defs Let_def split: option.splits if_splits pick.splits list.splits)

lemma registry_ok_exec:
  assumes ok: "registry_ok s" and ex: "server_exec params e s = Some (t, sent)"
  shows "registry_ok t"
proof (cases "(\<exists>h. e = SHandle h) \<or> (\<exists>i h. e = SConn i h)")
  case True
  then show ?thesis
    using ex registry_ok_handle [OF ok, of params _ t sent] registry_ok_conn [OF ok, of _ _ t sent]
    by auto
next
  case False
  then have "conns t = conns s" "clients t = clients s" "lastConnID t = lastConnID s"
    using server_exec_other [OF ex] by auto
  then show ?thesis using ok registry_ok_same [of t s] by simp
qed

interpretation registry: inductive_invariant server_init "server_step params" registry_ok
  for params
proof
  show "registry_ok s" if "server_init s" for s
    using that by (auto simp: server_init_def NewServer_def registry_ok_def)
  show "registry_ok t" if "registry_ok s" and "server_step params s e t" for s e t
    using that registry_ok_exec by (auto simp: server_step_def)
qed

section \<open>How one connection evolves\<close>

text \<open>
  Whatever the server does, a connection object changes only by an iteration of its own
  goroutine, by a message put into one of its channels while it is registered, or by the
  closing status; new objects are fresh ones.
\<close>

definition sends_to :: "int \<Rightarrow> server \<Rightarrow> bool" where
  "sends_to i s \<longleftrightarrow> (case handle_send s of None \<Rightarrow> False | Some p \<Rightarrow> pending_id p = i)"

definition conn_change :: "server \<Rightarrow> int \<Rightarrow> clientInfo \<Rightarrow> clientInfo \<Rightarrow> bool" where
  "conn_change s i c c' \<longleftrightarrow>
     c' = c \<or> c' = c\<lparr>ep_status := startClosing\<rparr> \<or>
     ((i \<in> set (clients s) \<or> sends_to i s) \<and> (\<exists>m. c' = c\<lparr>incoming := incoming c @ [m]\<rparr>)) \<or>
     ((i \<in> set (clients s) \<or> sends_to i s) \<and> (\<exists>m. c' = c\<lparr>tmsg := tmsg c @ [m]\<rparr>)) \<or>
     (\<exists>b e r. handleClient b e c = Some r \<and> c' = cr_conn r)"

lemma conn_change_refl [simp]: "conn_change s i c c"
  by (simp add: conn_change_def)

lemma conn_change_handle: "handleClient b e c = Some r \<Longrightarrow> conn_change s i c (cr_conn r)"
  unfolding conn_change_def by blast

lemma handle_cls_get:
  "gm_get (conns (handle_cls i s)) j = gm_get (conns s) j \<or>
   (\<exists>c. gm_get (conns s) j = Some c \<and>
        gm_get (conns (handle_cls i s)) j = Some (c\<lparr>ep_status := startClosing\<rparr>))"
  by (cases "gm_get (conns s) j") (auto simp: handle_cls_def Let_def)

lemma conn_send_change:
  assumes "conn_send p s = Some t" and "gm_get (conns s) i = Some c"
  shows "\<exists>c'. gm_get (conns t) i = Some c' \<and>
    (c' = c \<or> pending_id p = i \<and> (\<exists>m. c' = c\<lparr>incoming := incoming c @ [m]\<rparr> \<or> c' = c\<lparr>tmsg := tmsg c @ [m]\<rparr>))"
  using assms by (cases p) (auto split: if_splits, blast+)

lemma route_change:
  assumes "gm_get (conns s) i = Some c"
  shows "\<exists>c'. gm_get (conns (route p s)) i = Some c' \<and> conn_change s i c c'"
proof (cases "pending_id p \<in> set (clients s) \<and> conn_send p s \<noteq> None")
  case True
  then obtain t where t: "conn_send p s = Some t" "route p s = t" by (auto simp: route_def)
  from conn_send_change [OF t(1) assms] show ?thesis using True t(2) by (auto simp: conn_change_def)
next
  case False
  then have "conns (route p s) = conns s" by (auto simp: route_def split: option.split)
  then show ?thesis using assms by simp
qed

lemma server_handle_change:
  assumes ok: "registry_ok s" and r: "server_handle params e s = Some (t, sent)"
    and c: "gm_get (conns s) i = Some c"
  shows "\<exists>c'. gm_get (conns t) i = Some c' \<and> conn_change s i c c'"
proof (cases e)
  case HIncoming
  with r obtain m a ms where m: "s_incoming s = (m, a) # ms"
    by (auto simp: server_handle_def split: if_splits list.splits)
  have "i \<noteq> lastConnID s"
    using ok gm_get_Some_key [OF c] by (auto simp: registry_ok_def)
  then have "gm_get (conns (fst (handle_connect params a (s\<lparr>s_incoming := ms\<rparr>)))) i = Some c"
    using c by (simp add: handle_connect_def)
  moreover have "\<exists>c'. gm_get (conns (handle_other m (s\<lparr>s_incoming := ms\<rparr>))) i = Some c' \<and> conn_change s i c c'"
    using route_change [of "s\<lparr>s_incoming := ms\<rparr>" i c "ToIncoming m"] c
    by (simp add: handle_other_def conn_change_def sends_to_def)
  ultimately show ?thesis
    using r m HIncoming by (auto simp: server_handle_def Let_def split: if_splits)
next
  case HOutgoing
  then obtain m ms where m: "outgoing s = m # ms" "t = handle_outgoing m (s\<lparr>outgoing := ms\<rparr>)"
    using r by (auto simp: server_handle_def split: if_splits list.splits)
  then show ?thesis
    using route_change [of "s\<lparr>outgoing := ms\<rparr>" i c "ToTmsg m"] c
    by (simp add: handle_outgoing_def conn_change_def sends_to_def)
next
  case HCls
  then obtain j js where "cls s = j # js" "t = handle_cls j (s\<lparr>cls := js\<rparr>)"
    using r by (auto simp: server_handle_def split: if_splits list.splits)
  then show ?thesis
    using c handle_cls_get [of j "s\<lparr>cls := js\<rparr>" i] by (auto simp: conn_change_def)
next
  case HSend
  then obtain p u where u: "handle_send s = Some p" "conn_send p s = Some u" "t = u\<lparr>handle_send := None\<rparr>"
    using r by (auto simp: server_handle_def split: if_splits option.splits)
  from conn_send_change [OF u(2) c] show ?thesis using u(1,3) by (auto simp: conn_change_def sends_to_def)
qed

lemma server_conn_change:
  assumes r: "server_conn j e s = Some (t, sent)" and c: "gm_get (conns s) i = Some c"
  shows "\<exists>c'. gm_get (conns t) i = Some c' \<and> conn_change s i c c'"
  using r c by (cases "i = j") (auto simp: server_conn_def conn_change_handle split: option.splits)

lemma server_exec_change:
  assumes ok: "registry_ok s" and ex: "server_exec params e s = Some (t, sent)"
    and c: "gm_get (conns s) i = Some c"
  shows "\<exists>c'. gm_get (conns t) i = Some c' \<and> conn_change s i c c'"
proof (cases "(\<exists>h. e = SHandle h) \<or> (\<exists>i h. e = SConn i h)")
  case True
  then show ?thesis
    using ex server_handle_change [OF ok _ c, of params _ t sent] server_conn_change [OF _ c, of _ _ t sent]
    by auto
next
  case False
  then show ?thesis using server_exec_other [OF ex] c by auto
qed

text \<open>A property of single connections that all these changes keep.\<close>

locale conn_property =
  fixes P :: "clientInfo \<Rightarrow> bool"
  assumes P_handle: "handleClient b e c = Some r \<Longrightarrow> P c \<Longrightarrow> P (cr_conn r)"
    and P_incoming: "P c \<Longrightarrow> P (c\<lparr>incoming := ms\<rparr>)"
    and P_tmsg: "P c \<Longrightarrow> P (c\<lparr>tmsg := ms\<rparr>)"
    and P_status: "P c \<Longrightarrow> P (c\<lparr>ep_status := st\<rparr>)"
begin

lemma change_keeps: "conn_change s i c c' \<Longrightarrow> P c \<Longrightarrow> P c'"
  by (auto simp: conn_change_def intro: P_handle P_incoming P_tmsg P_status)

lemma steps_keep:
  "steps (server_step params) s es t \<Longrightarrow> registry_ok s \<Longrightarrow> gm_get (conns s) i = Some c \<Longrightarrow> P c \<Longrightarrow>
   \<exists>c'. gm_get (conns t) i = Some c' \<and> P c'"
proof (induction arbitrary: c rule: steps.induct)
  case (steps_Cons s e t es u)
  then obtain sent where ex: "server_exec params e s = Some (t, sent)"
    by (auto simp: server_step_def)
  obtain c1 where "gm_get (conns t) i = Some c1" "P c1"
    using server_exec_change [OF steps_Cons.prems(1) ex steps_Cons.prems(2)] change_keeps
      steps_Cons.prems(3) by blast
  then show ?case
    using steps_Cons.IH registry_ok_exec [OF steps_Cons.prems(1) ex] by blast
qed blast

end

interpretation conn_stale: conn_property stale
  by unfold_locales
    (auto intro: stale_move [OF handleClient_move], simp_all add: stale_def)

interpretation conn_window: conn_property window_ok
  by unfold_locales
    (auto intro: window_ok_move [OF handleClient_move], simp_all add: window_ok_def)

section \<open>A connection that has been unregistered\<close>

text \<open>
  \<open>handle\<close> deletes the entry when it takes a number from \<open>s.cls\<close>; numbers are never
  reused, so from then on nothing reaches the channels of the connection.
\<close>

definition cut_off :: "int \<Rightarrow> int \<Rightarrow> server \<Rightarrow> bool" where
  "cut_off i k s \<longleftrightarrow> registry_ok s \<and> i \<notin> set (clients s) \<and> \<not> sends_to i s \<and>
     (\<exists>c. gm_get (conns s) i = Some c \<and> incoming c = [] \<and> k \<in> gm_keys (tbuffer c))"

lemma handleClient_no_incoming:
  assumes "handleClient b e c = Some r" and "incoming c = []"
  shows "incoming (cr_conn r) = []" and "gm_keys (tbuffer c) \<subseteq> gm_keys (tbuffer (cr_conn r))"
proof -
  have "incoming (cr_conn r) = [] \<and> gm_keys (tbuffer c) \<subseteq> gm_keys (tbuffer (cr_conn r))"
    using handleClient_move [OF assms(1)]
  proof cases
    case (move_send c1)
    then show ?thesis
      using assms(2) by (auto elim!: send_nextE simp: ep_same_def)
  qed (use assms(2) in \<open>auto simp: ep_same_def\<close>)
  then show "incoming (cr_conn r) = []" and "gm_keys (tbuffer c) \<subseteq> gm_keys (tbuffer (cr_conn r))"
    by blast+
qed

lemma conn_send_clients: "conn_send p s = Some t \<Longrightarrow> clients t = clients s \<and> handle_send t = handle_send s"
  by (cases p) (auto split: if_splits)

lemma route_other:
  "clients (route p s) = clients s \<and> (handle_send (route p s) = handle_send s \<or>
     handle_send (route p s) = Some p \<and> pending_id p \<in> set (clients s))"
  by (cases "conn_send p s") (simp_all add: route_def conn_send_clients)

lemma server_exec_unregistered:
  assumes ok: "registry_ok s" and ex: "server_exec params e s = Some (t, sent)"
    and i: "i \<notin> set (clients s)" "i \<in> gm_keys (conns s)" "\<not> sends_to i s"
  shows "i \<notin> set (clients t) \<and> \<not> sends_to i t"
proof -
  have n: "i \<noteq> lastConnID s" using ok i(2) by (auto simp: registry_ok_def)
  have cls: "i \<notin> set (clients (handle_cls j (s\<lparr>cls := js\<rparr>)))" "\<not> sends_to i (handle_cls j (s\<lparr>cls := js\<rparr>))" for j js
    using set_remove1_subset [of j "clients s"] i(1,3) by (auto simp: handle_cls_def sends_to_def Let_def)
  consider (handle) h where "e = SHandle h" | (conn) j h where "e = SConn j h"
    | (other) "\<forall>h. e \<noteq> SHandle h" "\<forall>i h. e \<noteq> SConn i h" by (cases e) auto
  then show ?thesis
  proof cases
    case handle
    have rt: "i \<notin> set (clients (route p u)) \<and> \<not> sends_to i (route p u)"
      if "clients u = clients s" "handle_send u = handle_send s" for p u
      using route_other [of p u] that i(1,3) unfolding sends_to_def by fastforce
    show ?thesis
    proof (cases h)
      case HIncoming
      then obtain m a ms where m: "s_incoming s = (m, a) # ms"
        and t: "t = fst (handle_connect params a (s\<lparr>s_incoming := ms\<rparr>)) \<or> t = handle_other m (s\<lparr>s_incoming := ms\<rparr>)"
        using handle ex by (auto simp: server_handle_def Let_def split: if_splits list.splits)
      have "i \<notin> set (clients (fst (handle_connect params a (s\<lparr>s_incoming := ms\<rparr>))))"
        "\<not> sends_to i (fst (handle_connect params a (s\<lparr>s_incoming := ms\<rparr>)))"
        using i(1,3) n by (simp_all add: handle_connect_def sends_to_def)
      moreover have "i \<notin> set (clients (handle_other m (s\<lparr>s_incoming := ms\<rparr>))) \<and>
          \<not> sends_to i (handle_other m (s\<lparr>s_incoming := ms\<rparr>))"
        using rt [of "s\<lparr>s_incoming := ms\<rparr>" "ToIncoming m"] by (simp add: handle_other_def)
      ultimately show ?thesis using t by blast
    next
      case HOutgoing
      then obtain m ms where "t = handle_outgoing m (s\<lparr>outgoing := ms\<rparr>)"
        using handle ex by (auto simp: server_handle_def split: if_splits list.splits)
      then show ?thesis using rt [of "s\<lparr>outgoing := ms\<rparr>" "ToTmsg m"] by (simp add: handle_outgoing_def)
    next
      case HCls
      then obtain j js where "t = handle_cls j (s\<lparr>cls := js\<rparr>)"
        using handle ex by (auto simp: server_handle_def split: if_splits list.splits)
      then show ?thesis using cls by simp
    next
      case HSend
      then obtain p u where "conn_send p s = Some u" "t = u\<lparr>handle_send := None\<rparr>"
        using handle ex by (auto simp: server_handle_def split: if_splits option.splits)
      then show ?thesis using conn_send_clients [of p s u] i(1) by (simp add: sends_to_def)
    qed
  next
    case conn
    with ex i(1,3) show ?thesis by (auto simp: server_conn_def sends_to_def split: option.splits)
  next
    case other
    then show ?thesis using server_exec_other [OF ex] i(1,3) by (auto simp: sends_to_def)
  qed
qed

lemma cut_off_step:
  assumes "cut_off i k s" and "server_step params s e t"
  shows "cut_off i k t"
proof -
  obtain sent where ex: "server_exec params e s = Some (t, sent)"
    using assms(2) by (auto simp: server_step_def)
  from assms(1) obtain c where ok: "registry_ok s" and i: "i \<notin> set (clients s)" "\<not> sends_to i s"
    and c: "gm_get (conns s) i = Some c" "incoming c = []" "k \<in> gm_keys (tbuffer c)"
    by (auto simp: cut_off_def)
  obtain c' where c': "gm_get (conns t) i = Some c'" and ch: "conn_change s i c c'"
    using server_exec_change [OF ok ex c(1)] by blast
  have "incoming c' = [] \<and> k \<in> gm_keys (tbuffer c')"
    if "handleClient b h c = Some r" "c' = cr_conn r" for b h r
    using handleClient_no_incoming [OF that(1) c(2)] that(2) c(3) by auto
  then have "incoming c' = [] \<and> k \<in> gm_keys (tbuffer c')"
    using ch i c by (auto simp: conn_change_def)
  then show ?thesis
    using c' registry_ok_exec [OF ok ex] server_exec_unregistered [OF ok ex i(1) gm_get_Some_key [OF c(1)] i(2)]
    by (auto simp: cut_off_def)
qed

interpretation unregistered: inductive_invariant "cut_off i k" "server_step params" "cut_off i k"
  for i k params
  by unfold_locales (auto intro: cut_off_step)

section \<open>Epochs of a connection\<close>

definition conn_tick :: "clientInfo \<Rightarrow> clientInfo option" where
  "conn_tick c = map_option cr_conn (handleClient False EvTimer c)"

definition conn_expire :: "clientInfo \<Rightarrow> clientInfo" where
  "conn_expire c = c\<lparr>epochCount := epochCount c + 1, ep_status := handlerClosed, running := False\<rparr>"

definition conn_live :: "clientInfo \<Rightarrow> bool" where
  "conn_live c \<longleftrightarrow> running c \<and> \<not> close_ready c"

lemma conn_tick_live: "conn_live c \<Longrightarrow> handleClient b EvTimer c = Some (conn_on_timer c)"
  by (simp add: conn_live_def handleClient_def)

interpretation conn_epoch: epoch_counter conn_tick "\<lambda>c. c\<lparr>epochCount := epochCount c + 1\<rparr>"
    conn_expire epochCount retries conn_live
  by unfold_locales
    (simp_all add: conn_tick_def conn_tick_live conn_on_timer_def conn_expire_def Let_def,
      simp add: conn_live_def close_ready_def)

section \<open>Properties\<close>

text \<open>
  C10: the registry of connections. In every reachable state of the server the connection
  numbers are handed out once and counted up from 73, an entry of the map has the number it
  is stored under, and no two registered connections have the same address.
\<close>

theorem server_connections_unique:
  assumes "reach server_init (server_step params) s"
  shows "distinct (clients s) \<and>
    (\<forall>i \<in> set (clients s). 73 \<le> i \<and> i < lastConnID s \<and>
       (\<exists>c. gm_get (conns s) i = Some c \<and> conn_id c = i)) \<and>
    (\<forall>i \<in> set (clients s). \<forall>j \<in> set (clients s). conn_addr s i = conn_addr s j \<longrightarrow> i = j)"
proof -
  have ok: "registry_ok s" using registry.reach_inv [OF assms] .
  then have "\<exists>c. gm_get (conns s) i = Some c \<and> conn_id c = i" if "i \<in> set (clients s)" for i
    using that gm_key_get [of i "conns s"] unfolding registry_ok_def by blast
  with ok show ?thesis by (auto simp: registry_ok_def inj_on_def)
qed

definition server_with_client :: server where
  "server_with_client = (case NewServer None None of Inr s \<Rightarrow>
     fst (handle_connect NewParams ''10.0.0.1:7'' s))"

lemma server_with_client_reach: "reach server_init (server_step NewParams) server_with_client"
proof -
  obtain s where s: "NewServer None None = Inr s" by (simp add: NewServer_def)
  let ?s1 = "s\<lparr>s_incoming := [(NewConnect, ''10.0.0.1:7'')]\<rparr>"
  have "server_step NewParams s (SReceive (Some (NewConnect, ''10.0.0.1:7''))) ?s1"
    using s by (auto simp: server_step_def server_receiver_def NewServer_def)
  moreover have "server_step NewParams ?s1 (SHandle HIncoming) server_with_client"
    using s by (auto simp: server_step_def server_handle_def server_with_client_def handle_connect_def
        NewServer_def)
  moreover have "reach server_init (server_step NewParams) s"
    using s by (auto intro: reach_init simp: server_init_def)
  ultimately show ?thesis by (blast intro: reach_step)
qed

theorem server_connections_unique_witness:
  "clients server_with_client = [73] \<and> lastConnID server_with_client = 74 \<and>
   (\<exists>c. gm_get (conns server_with_client) 73 = Some c \<and> conn_id c = 73)"
proof -
  have "clients server_with_client = [73]" "lastConnID server_with_client = 74"
    by (simp_all add: server_with_client_def NewServer_def handle_connect_def)
  then show ?thesis using server_connections_unique [OF server_with_client_reach] by simp
qed

text \<open>The connection an event of the server is about.\<close>

fun event_target :: "server \<Rightarrow> server_event \<Rightarrow> int option" where
  "event_target s (SConn i _) = Some i"
| "event_target s (SHandle HIncoming) = (case s_incoming s of
     [] \<Rightarrow> None | (m, _) # _ \<Rightarrow> Some (if Type m = MsgConnect then lastConnID s else ConnID m))"
| "event_target s (SHandle HOutgoing) = (case outgoing s of [] \<Rightarrow> None | m # _ \<Rightarrow> Some (ConnID m))"
| "event_target s (SHandle HCls) = (case cls s of [] \<Rightarrow> None | i # _ \<Rightarrow> Some i)"
| "event_target s (SHandle HSend) = map_option pending_id (handle_send s)"
| "event_target s _ = None"

lemma conn_send_other: "conn_send p s = Some t \<Longrightarrow> j \<noteq> pending_id p \<Longrightarrow> gm_get (conns t) j = gm_get (conns s) j"
  by (cases p) (auto split: if_splits)

lemma route_conns: "j \<noteq> pending_id p \<Longrightarrow> gm_get (conns (route p s)) j = gm_get (conns s) j"
  by (auto simp: route_def conn_send_other split: option.split)

lemma handle_cls_other: "j \<noteq> i \<Longrightarrow> gm_get (conns (handle_cls i s)) j = gm_get (conns s) j"
  by (simp add: handle_cls_def Let_def)

text \<open>
  C11: connections do not interfere. Whatever the server does in one step, every connection
  but the one the step is about stays as it is, and every message written in that step goes
  to the address of that connection.
\<close>

theorem server_connections_isolated:
  assumes "server_exec params e s = Some (t, sent)"
  shows "(\<forall>j. event_target s e \<noteq> Some j \<longrightarrow> gm_get (conns t) j = gm_get (conns s) j) \<and>
    (\<forall>(m, a) \<in> set sent. \<exists>i. event_target s e = Some i \<and> conn_addr t i = Some a)"
proof (cases "(\<exists>h. e = SHandle h) \<or> (\<exists>i h. e = SConn i h)")
  case True
  then consider "e = SHandle HIncoming" | "e = SHandle HOutgoing" | "e = SHandle HCls" | "e = SHandle HSend"
    | i h where "e = SConn i h" by (metis handle_event.exhaust)
  then show ?thesis
  proof cases
    case 1
    with assms show ?thesis
      by (auto simp: server_handle_def handle_connect_def handle_other_def route_conns Let_def conn_addr_def
          new_clientInfo_def split: if_splits list.splits)
  next
    case 2
    with assms show ?thesis
      by (auto simp: server_handle_def handle_outgoing_def route_conns split: if_splits list.splits)
  next
    case 3
    with assms show ?thesis
      by (auto simp: server_handle_def handle_cls_other split: if_splits list.splits)
  next
    case 4
    with assms show ?thesis
      by (auto simp: server_handle_def conn_send_other split: if_splits option.splits)
  next
    case (5 i h)
    with assms show ?thesis
      using handleClient_identity
      by (auto simp: server_conn_def conn_addr_def split: option.splits)
  qed
next
  case False
  then show ?thesis using server_exec_other [OF assms] by auto
qed

theorem server_connections_isolated_witness:
  "\<exists>t sent. server_exec NewParams (SConn 73 EvTimer) server_with_client = Some (t, sent) \<and>
     gm_get (conns t) 74 = gm_get (conns server_with_client) 74 \<and>
     sent = [(NewAck 73 0, ''10.0.0.1:7'')]"
proof -
  obtain t sent where ex: "server_exec NewParams (SConn 73 EvTimer) server_with_client = Some (t, sent)"
      "sent = [(NewAck 73 0, ''10.0.0.1:7'')]"
    by (simp add: server_with_client_def NewServer_def handle_connect_def server_conn_def
        new_clientInfo_def handleClient_def close_ready_def conn_on_timer_def NewParams_def
        newStatus_def)
  then show ?thesis using server_connections_isolated [OF ex(1)] by auto
qed

text \<open>
  C14: \<open>CloseConn\<close> drops what is still on its way. Once \<open>handle\<close> has unregistered a
  connection that has an unacknowledged message and no unread packet, that message stays
  unacknowledged in every later state, whatever packets arrive: the connection never gets to
  its orderly close.
\<close>

theorem server_closed_connection_never_flushes:
  assumes "reach server_init (server_step params) s" and "gm_get (conns s) i = Some c"
    and "incoming c = []" and "k \<in> gm_keys (tbuffer c)" and "cls s = i # is" and "handling s"
    and "server_handle params HCls s = Some (s', sent)" and "steps (server_step params) s' es t"
  shows "\<exists>c'. gm_get (conns t) i = Some c' \<and> k \<in> gm_keys (tbuffer c') \<and> \<not> close_ready c'"
proof -
  have ok: "registry_ok s" using registry.reach_inv [OF assms(1)] .
  have s': "s' = handle_cls i (s\<lparr>cls := is\<rparr>)" "handle_send s = None"
    using assms(5-7) by (auto simp: server_handle_def split: if_splits)
  have "registry_ok s'" using registry_ok_handle [OF ok assms(7)] .
  moreover have "i \<notin> set (clients s')" "\<not> sends_to i s'"
    using ok s' by (auto simp: handle_cls_def sends_to_def Let_def registry_ok_def)
  moreover have "\<exists>c'. gm_get (conns s') i = Some c' \<and> incoming c' = [] \<and> k \<in> gm_keys (tbuffer c')"
    using handle_cls_get [of i "s\<lparr>cls := is\<rparr>" i] s' assms(2-4) by auto
  ultimately have "cut_off i k s'" by (auto simp: cut_off_def)
  then have "cut_off i k t" by (rule unregistered.steps_inv [OF assms(8)])
  then show ?thesis by (auto simp: cut_off_def close_ready_def)
qed

text \<open>A server whose application has written to its only client and then closed the connection.\<close>

definition server_closing_conn :: "server option" where
  "server_closing_conn = run_opt (server_exec NewParams)
     [SWrite 73 ''x'', SHandle HOutgoing, SConn 73 EvDefault, SCloseConn 73] server_with_client"

lemma server_closing_conn_state:
  "case server_closing_conn of None \<Rightarrow> False
   | Some s \<Rightarrow> cls s = [73] \<and> handling s \<and> handle_send s = None \<and> (case gm_get (conns s) 73 of None \<Rightarrow> False
       | Some c \<Rightarrow> incoming c = [] \<and> map fst (tbuffer c) = [1])"
  by code_simp

lemma server_run_reach:
  assumes "run_opt (server_exec params) es s = Some t" and "reach server_init (server_step params) s"
  shows "reach server_init (server_step params) t"
proof -
  have "steps (server_step params) s es t"
    using run_opt_steps [OF assms(1)] by (simp add: server_step_def [abs_def])
  then show ?thesis using assms(2) by (rule reach_steps)
qed

theorem server_closed_connection_never_flushes_witness:
  "\<exists>s s' sent. server_closing_conn = Some s \<and> server_handle NewParams HCls s = Some (s', sent) \<and>
     (\<exists>c'. gm_get (conns s') 73 = Some c' \<and> 1 \<in> gm_keys (tbuffer c') \<and> \<not> close_ready c')"
proof -
  obtain s c where s: "server_closing_conn = Some s" "cls s = [73]" "handling s" "handle_send s = None"
    and c: "gm_get (conns s) 73 = Some c" "incoming c = []" "1 \<in> gm_keys (tbuffer c)"
    using server_closing_conn_state by (auto simp: gm_keys_def split: option.splits)
  have r: "reach server_init (server_step NewParams) s"
    using server_run_reach [OF s(1) [unfolded server_closing_conn_def] server_with_client_reach] .
  obtain s' sent where h: "server_handle NewParams HCls s = Some (s', sent)"
    using s(2-4) by (simp add: server_handle_def)
  have "\<exists>c'. gm_get (conns s') 73 = Some c' \<and> 1 \<in> gm_keys (tbuffer c') \<and> \<not> close_ready c'"
    using server_closed_connection_never_flushes [OF r c s(2,3) h steps_Nil] .
  with s(1) h show ?thesis by blast
qed

text \<open>The events that need no packet and no call but \<open>Read\<close>, \<open>Close\<close>.\<close>

fun internal_event :: "server_event \<Rightarrow> bool" where
  "internal_event (SReceive r) \<longleftrightarrow> r = None"
| "internal_event (SWrite _ _) \<longleftrightarrow> False"
| "internal_event (SCloseConn _) \<longleftrightarrow> False"
| "internal_event _ \<longleftrightarrow> True"

definition close_stuck :: "server \<Rightarrow> bool" where
  "close_stuck s \<longleftrightarrow> conns s = [] \<and> s_incoming s = [] \<and> outgoing s = [] \<and> cls s = [] \<and>
     s_rmsg s = [] \<and> s_err s = [] \<and> s_status s = startClosing \<and> handling s \<and> handle_send s = None"

lemma close_stuck_exec:
  assumes "close_stuck s" and "internal_event e" and "server_exec params e s = Some (t, sent)"
  shows "close_stuck t"
proof (cases e)
  case (SHandle h)
  with assms show ?thesis by (cases h) (auto simp: close_stuck_def server_handle_def)
qed (use assms in \<open>auto simp: close_stuck_def server_conn_def server_receiver_def server_Read_def
  server_Close_begin_def server_Close_poll_def split: pick.splits if_splits\<close>)

interpretation close_hang: inductive_invariant close_stuck
  "\<lambda>s e t. internal_event e \<and> server_step params s e t" close_stuck for params
  by unfold_locales (auto simp: server_step_def intro: close_stuck_exec)

text \<open>
  C16: closing a server without clients never completes. From the state \<open>NewServer\<close>
  creates, after \<open>Close\<close> has begun and with no packet arriving and no further call, every
  sequence of steps of the goroutines leaves the \<open>handle\<close> goroutine running and the
  polling loop of \<open>Close\<close> unfinished.
\<close>

theorem server_close_without_clients_hangs:
  assumes "NewServer None None = Inr s"
    and "steps (\<lambda>s e t. internal_event e \<and> server_step params s e t) (server_Close_begin s) es t"
  shows "handling t \<and> \<not> snd (server_Close_poll t)"
proof -
  have "close_stuck (server_Close_begin s)"
    using assms(1) by (auto simp: NewServer_def close_stuck_def server_Close_begin_def)
  then have "close_stuck t" by (rule close_hang.steps_inv [OF assms(2)])
  then show ?thesis by (simp add: close_stuck_def server_Close_poll_def)
qed

theorem server_close_without_clients_hangs_witness:
  "\<exists>s t. NewServer None None = Inr s \<and> server_step NewParams (server_Close_begin s) SClosePoll t \<and>
     handling t \<and> \<not> snd (server_Close_poll t)"
proof -
  obtain s where s: "NewServer None None = Inr s" by (simp add: NewServer_def)
  let ?t = "fst (server_Close_poll (server_Close_begin s))"
  have st: "server_step NewParams (server_Close_begin s) SClosePoll ?t"
    by (simp add: server_step_def)
  then have "steps (\<lambda>s e t. internal_event e \<and> server_step NewParams s e t) (server_Close_begin s)
      [SClosePoll] ?t"
    by (auto intro!: steps.intros)
  from server_close_without_clients_hangs [OF s this] s st show ?thesis by blast
qed

text \<open>Once \<open>handle\<close> has returned, \<open>s.outgoing\<close> only grows and an ended connection stays as it is.\<close>

definition handle_ended :: "Message list \<Rightarrow> int \<Rightarrow> clientInfo \<Rightarrow> server \<Rightarrow> bool" where
  "handle_ended out i c s \<longleftrightarrow> \<not> handling s \<and> (\<exists>ms. outgoing s = out @ ms) \<and>
     gm_get (conns s) i = Some c \<and> \<not> running c"

lemma handle_ended_step:
  assumes "handle_ended out i c s" and "server_step params s e t"
  shows "handle_ended out i c t"
proof (cases e)
  case (SHandle h)
  with assms show ?thesis by (simp add: handle_ended_def server_step_def server_handle_def)
next
  case (SConn j h)
  with assms(2) obtain d r where d: "gm_get (conns s) j = Some d" "handleClient (bcls_closed s) h d = Some r"
    and t: "conns t = gm_set j (cr_conn r) (conns s)" "handling t = handling s" "outgoing t = outgoing s"
    by (auto simp: server_step_def server_conn_def split: option.splits)
  have "j \<noteq> i" using d assms(1) by (auto simp: handle_ended_def handleClient_def)
  with t assms(1) show ?thesis by (simp add: handle_ended_def)
next
  case (SReceive r)
  with assms show ?thesis
    by (auto simp: handle_ended_def server_step_def server_receiver_def split: option.splits if_splits)
next
  case (SRead p)
  with assms show ?thesis
    by (cases p) (auto simp: handle_ended_def server_step_def server_Read_def split: list.splits)
next
  case (SWrite j p)
  with assms show ?thesis
    by (auto simp: handle_ended_def server_step_def server_Write_def split: if_splits)
next
  case (SCloseConn j)
  with assms show ?thesis
    by (auto simp: handle_ended_def server_step_def server_CloseConn_def split: if_splits)
next
  case SCloseBegin
  with assms show ?thesis by (auto simp: handle_ended_def server_step_def server_Close_begin_def)
next
  case SClosePoll
  with assms show ?thesis
    by (auto simp: handle_ended_def server_step_def server_Close_poll_def Let_def split: if_splits)
qed

interpretation ended: inductive_invariant "handle_ended out i c" "server_step params" "handle_ended out i c"
  for out i c params
  by unfold_locales (auto intro: handle_ended_step)

text \<open>\<open>Write\<close> and \<open>Close\<close> on an idle connection, where \<open>handle\<close> takes the number from \<open>s.cls\<close> first.\<close>

definition write_then_close :: "int \<Rightarrow> bytes \<Rightarrow> server_event list" where
  "write_then_close i p = [SWrite i p, SCloseBegin, SConn i EvDefault, SConn i EvDefault, SHandle HCls,
     SClosePoll, SReceive None]"

text \<open>
  C20: \<open>Close\<close> can lose what was written. Let a server have one connection, which is idle, and let
  its application call \<open>Write\<close> and then \<open>Close\<close>. The guard of the connection does not look at
  \<open>s.outgoing\<close>, so there is a run in which the goroutine of the connection ends with nothing sent,
  \<open>handle\<close> takes its number from \<open>s.cls\<close> before the payload and returns, and \<open>Close\<close> returns; in
  every later state the connection is as it was left and the payload is still in \<open>s.outgoing\<close>.
\<close>

theorem server_close_loses_write:
  assumes "clients s = [i]" and "gm_get (conns s) i = Some c" and "running c" and "ep_status c = notClosing"
    and "tbuffer c = []" and "rbuffer c = []" and "tmsg c = []" and "incoming c = []"
    and "handling s" and "handle_send s = None" and "s_receiving s" and "cls s = []"
    and "length (outgoing s) < 10000"
  shows "\<exists>t c'. run_opt (server_exec params) (write_then_close i p) s = Some t \<and> snd (server_Close_poll t) \<and>
    tbuffer c' = [] \<and> tmsg c' = [] \<and> tsq c' = tsq c \<and> \<not> running c' \<and>
    (\<forall>es u. steps (server_step params) t es u \<longrightarrow> gm_get (conns u) i = Some c' \<and>
      (\<exists>ms. outgoing u = outgoing s @ NewData i (-1) (int (length p)) p # ms))"
proof -
  let ?c = "c\<lparr>ep_status := handlerClosed, running := False\<rparr>" and ?out = "outgoing s @ [NewData i (-1) (int (length p)) p]"
  have "send_next c = (c, [])" "send_next (c\<lparr>ep_status := startClosing\<rparr>) = (c\<lparr>ep_status := startClosing\<rparr>, [])"
    using assms(7) by (simp_all add: send_next_def)
  then have d: "handleClient True EvDefault c = Some (quiet_result (c\<lparr>ep_status := startClosing\<rparr>) [])"
    using assms(3,4,8) by (simp add: handleClient_def conn_on_default_def close_ready_def)
  have e: "handleClient True EvDefault (c\<lparr>ep_status := startClosing\<rparr>) = Some ((quiet_result ?c [])\<lparr>cr_cls := True\<rparr>)"
    using assms(3,5-7) by (simp add: handleClient_def close_ready_def)
  obtain t where t: "run_opt (server_exec params) (write_then_close i p) s = Some t"
    and f: "s_status t = connectionClosed" "\<not> handling t" "outgoing t = ?out" "gm_get (conns t) i = Some ?c"
    using assms(1,2,9-13)
    by (simp add: write_then_close_def server_Write_def server_Close_begin_def server_conn_def d e
        server_handle_def handle_cls_def server_Close_poll_def server_receiver_def quiet_result_def upd_conn_def Let_def)
  then have "handle_ended ?out i ?c t" by (simp add: handle_ended_def)
  then have "handle_ended ?out i ?c u" if "steps (server_step params) t es u" for es u
    using ended.steps_inv that by blast
  then have "gm_get (conns u) i = Some ?c \<and> (\<exists>ms. outgoing u = outgoing s @ NewData i (-1) (int (length p)) p # ms)"
    if "steps (server_step params) t es u" for es u
    using that by (fastforce simp: handle_ended_def)
  then show ?thesis
    using t f(1) assms(5,7) by (intro exI [of _ t] exI [of _ ?c]) (simp add: server_Close_poll_def Let_def)
qed

lemma server_with_client_idle:
  "case gm_get (conns server_with_client) 73 of None \<Rightarrow> False
   | Some c \<Rightarrow> (running c \<and> ep_status c = notClosing \<and> tbuffer c = [] \<and> rbuffer c = [] \<and> tmsg c = [] \<and> incoming c = []) \<and>
       (clients server_with_client = [73] \<and> handling server_with_client \<and> handle_send server_with_client = None \<and>
        s_receiving server_with_client \<and> cls server_with_client = [] \<and> outgoing server_with_client = [])"
  by code_simp

theorem server_close_loses_write_witness:
  "\<exists>t. reach server_init (server_step NewParams) server_with_client \<and>
     run_opt (server_exec NewParams) (write_then_close 73 ''bye'') server_with_client = Some t \<and>
     snd (server_Close_poll t) \<and> NewData 73 (-1) 3 ''bye'' \<in> set (outgoing t)"
proof -
  let ?s = server_with_client
  obtain c where c: "clients ?s = [73]" "gm_get (conns ?s) 73 = Some c" "running c" "ep_status c = notClosing"
      "tbuffer c = []" "rbuffer c = []" "tmsg c = []" "incoming c = []"
    and s: "handling ?s" "handle_send ?s = None" "s_receiving ?s" "cls ?s = []" "length (outgoing ?s) < 10000"
    using server_with_client_idle by (auto split: option.splits)
  obtain t ms where t: "run_opt (server_exec NewParams) (write_then_close 73 ''bye'') ?s = Some t"
      "snd (server_Close_poll t)" "outgoing t = outgoing ?s @ NewData 73 (-1) (int (length ''bye'')) ''bye'' # ms"
    using server_close_loses_write [OF c s(1-5), of NewParams "''bye''"] steps_Nil [of "server_step NewParams"] by blast
  then show ?thesis using server_with_client_reach by simp
qed

text \<open>
  Epochs on the server. A connection that hears nothing for \<open>EpochLimit\<close> timer events
  in a row survives all but the last; the last one reports the connection once on \<open>s.err\<close>,
  asks \<open>handle\<close> to unregister it and ends the goroutine.
\<close>

theorem conn_lost_after_epoch_limit:
  assumes "conn_live c" and "epochCount c = 0" and "retries c = int (Suc n)"
  shows "(\<forall>k \<le> n. repeat_opt k conn_tick c = Some (c\<lparr>epochCount := int k\<rparr>)) \<and>
    handleClient b EvTimer (c\<lparr>epochCount := int n\<rparr>) = Some
      \<lparr>cr_conn = c\<lparr>epochCount := int (Suc n), ep_status := handlerClosed, running := False\<rparr>,
       cr_sent = [], cr_rmsg = [], cr_cls = True,
       cr_err = [''[s] client '' @ Itoa (conn_id c) @ '': Connection lost'']\<rparr>"
proof -
  have "conn_live (c\<lparr>epochCount := int n\<rparr>)"
    using assms(1) by (simp add: conn_live_def close_ready_def)
  from conn_tick_live [OF this] show ?thesis
    using conn_epoch.ticks_alive [OF assms(1)] assms(2,3)
    by (simp add: bump_epochs conn_on_timer_def del: repeat_opt.simps)
qed

theorem conn_lost_after_epoch_limit_witness:
  "repeat_opt 4 conn_tick (new_clientInfo NewParams 73 ''a'') =
     Some ((new_clientInfo NewParams 73 ''a'')\<lparr>epochCount := 4\<rparr>)"
proof -
  let ?c = "new_clientInfo NewParams 73 ''a''"
  have "conn_live ?c" "epochCount ?c = 0" "retries ?c = int (Suc 4)"
    by (simp_all add: new_clientInfo_def NewParams_def newStatus_def conn_live_def close_ready_def)
  from conn_lost_after_epoch_limit [OF this] show ?thesis by (auto simp del: repeat_opt.simps)
qed

text \<open>
  On the server, too, a repeated data message blocks the orderly shutdown of its
  connection for good: the payload stored under a delivered number stays in the buffer in
  every later state of the server.
\<close>

theorem conn_duplicate_blocks_close:
  assumes "reach server_init (server_step params) s" and "gm_get (conns s) i = Some c"
    and "conn_live c" and "incoming c = m # ms" and "Type m = MsgData"
    and "Size m \<le> int (length (Payload m))" and "SeqNum m < rsq c"
    and "server_conn i EvIncoming s = Some (s1, sent)" and "steps (server_step params) s1 es t"
  shows "\<exists>c'. gm_get (conns t) i = Some c' \<and> rbuffer c' \<noteq> [] \<and> \<not> close_ready c'"
proof -
  let ?c0 = "c\<lparr>incoming := ms, epochCount := 0\<rparr>"
  have td: "take_data m ?c0 = Some (save_data m ?c0, [])"
    using assms(6,7) by (simp add: take_data_def)
  have "handleClient (bcls_closed s) EvIncoming c = Some (conn_on_data m ?c0)"
    using assms(3-5) by (simp add: conn_live_def handleClient_def conn_on_incoming_def)
  then have "gm_get (conns s1) i = Some (save_data m ?c0)"
    using assms(2,8) td by (auto simp: server_conn_def conn_on_data_def)
  moreover have "stale (save_data m ?c0)"
    using repeated_data_is_stale [OF td] assms(7) by simp
  moreover have "registry_ok s1"
    using registry_ok_conn [OF registry.reach_inv [OF assms(1)] assms(8)] .
  ultimately obtain c' where "gm_get (conns t) i = Some c'" "stale c'"
    using conn_stale.steps_keep [OF assms(9)] by blast
  then show ?thesis
    using stale_not_close_ready [of c'] by (auto simp: stale_def)
qed

text \<open>A connection that has delivered message 1 and receives it again.\<close>

definition server_repeat :: "server option" where
  "server_repeat = run_opt (server_exec NewParams)
     [SReceive (Some (NewData 73 1 1 ''x'', ''10.0.0.1:7'')), SHandle HIncoming, SConn 73 EvIncoming,
      SReceive (Some (NewData 73 1 1 ''x'', ''10.0.0.1:7'')), SHandle HIncoming] server_with_client"

lemma server_repeat_state:
  "case server_repeat of None \<Rightarrow> False
   | Some s \<Rightarrow> s_rmsg s = [(73, ''x'')] \<and> (case gm_get (conns s) 73 of None \<Rightarrow> False
       | Some c \<Rightarrow> running c \<and> ep_status c = notClosing \<and> incoming c = [NewData 73 1 1 ''x''] \<and>
           rsq c = 2)"
  by code_simp

theorem conn_duplicate_blocks_close_witness:
  "\<exists>s s1 sent c'. server_repeat = Some s \<and> server_conn 73 EvIncoming s = Some (s1, sent) \<and>
     gm_get (conns s1) 73 = Some c' \<and> rbuffer c' \<noteq> [] \<and> \<not> close_ready c'"
proof -
  obtain s c where s: "server_repeat = Some s" and c: "gm_get (conns s) 73 = Some c" "conn_live c"
      "incoming c = [NewData 73 1 1 ''x'']" "rsq c = 2"
    using server_repeat_state by (auto simp: conn_live_def close_ready_def split: option.splits)
  have r: "reach server_init (server_step NewParams) s"
    using server_run_reach [OF s [unfolded server_repeat_def] server_with_client_reach] .
  obtain s1 sent where h: "server_conn 73 EvIncoming s = Some (s1, sent)"
    using c by (simp add: server_conn_def handleClient_def conn_live_def)
  have "\<exists>c'. gm_get (conns s1) 73 = Some c' \<and> rbuffer c' \<noteq> [] \<and> \<not> close_ready c'"
    using conn_duplicate_blocks_close [OF r c(1-3) _ _ _ h steps_Nil] c(4) by simp
  with s h show ?thesis by blast
qed

end
