(* ===== verification/Lsp_Protocol.thy ===== *)
theory Lsp_Protocol
  imports Lsp_Server
begin

text \<open>
  One client and its connection object on the server, joined by a network that loses,
  repeats and reorders messages. The two ends run the code of \<open>Lsp_Client\<close> and
  \<open>Lsp_Server\<close>; the theorems say what the application sees: in both directions, the
  payloads delivered are a prefix of the payloads written, the system refines a pair of
  first-in first-out queues, and a client that may close in order has delivered everything.
\<close>

section \<open>The system\<close>

text \<open>
  \<open>c2s\<close> and \<open>s2c\<close> hold every message ever sent in one direction; delivering a message
  does not remove it. Four history variables record what the applications have written and
  what the handlers have put into the \<open>rmsg\<close> channels. \<open>s_written\<close> has the payloads \<open>handle\<close> has
  passed to the connection; those that \<open>Write\<close> has left in \<open>s.outgoing\<close> come in with \<open>Lsp_System\<close>.
\<close>

record link =
  cli :: client
  conn :: clientInfo
  c2s :: "Message set"
  s2c :: "Message set"
  c_written :: "bytes list"
  s_written :: "bytes list"
  c_delivered :: "bytes list"
  s_delivered :: "bytes list"

text \<open>
  The start: \<open>NewClient\<close> has sent its connect message and the server has created the
  connection for it and sent the acknowledgement.
\<close>

definition link_init :: "Params \<Rightarrow> Params \<Rightarrow> int \<Rightarrow> string \<Rightarrow> link \<Rightarrow> bool" where
  "link_init cp sp i a k \<longleftrightarrow>
     (\<exists>sent. NewClient None None cp = Waiting (cli k) sent \<and> c2s k = set sent) \<and>
     conn k = new_clientInfo sp i a \<and> s2c k = {NewAck i 0} \<and>
     c_written k = [] \<and> s_written k = [] \<and> c_delivered k = [] \<and> s_delivered k = []"

datatype link_event =
    KClient client_event          \<comment> \<open>a step of the client that reads no packet\<close>
  | KServer bool handler_event    \<comment> \<open>an iteration of \<open>handleClient\<close>\<close>
  | KToClient Message             \<comment> \<open>the client's receiver reads a packet\<close>
  | KToServer Message             \<comment> \<open>\<open>handle\<close> routes a packet to the connection\<close>
  | KServerWrite bytes            \<comment> \<open>\<open>handle\<close> routes a written payload to the connection\<close>
  | KServerStatus status          \<comment> \<open>\<open>handle\<close> changes the status on \<open>CloseConn\<close>\<close>

definition written_by :: "client_event \<Rightarrow> bytes list" where
  "written_by e = (case e of CWrite p \<Rightarrow> [p] | _ \<Rightarrow> [])"

definition delivered_by :: "client_event \<Rightarrow> client \<Rightarrow> client \<Rightarrow> bytes list" where
  "delivered_by e c c' = (case e of CHandler _ \<Rightarrow> drop (length (rmsg c)) (rmsg c') | _ \<Rightarrow> [])"

inductive link_step :: "link \<Rightarrow> link_event \<Rightarrow> link \<Rightarrow> bool" where
  client_moves:
    "client_exec e (cli k) = Some (c', sent) \<Longrightarrow> \<forall>m. e \<noteq> CReceive (Some m) \<Longrightarrow>
     link_step k (KClient e)
       (k\<lparr>cli := c', c2s := c2s k \<union> set sent, c_written := c_written k @ written_by e,
          c_delivered := c_delivered k @ delivered_by e (cli k) c'\<rparr>)"
| server_moves:
    "handleClient b e (conn k) = Some r \<Longrightarrow>
     link_step k (KServer b e)
       (k\<lparr>conn := cr_conn r, s2c := s2c k \<union> set (cr_sent r),
          s_delivered := s_delivered k @ cr_rmsg r\<rparr>)"
| to_client:
    "m \<in> s2c k \<Longrightarrow> client_receiver (Some m) (cli k) = Some c' \<Longrightarrow>
     link_step k (KToClient m) (k\<lparr>cli := c'\<rparr>)"
| to_server:
    "m \<in> c2s k \<Longrightarrow> Type m \<noteq> MsgConnect \<Longrightarrow> ConnID m = conn_id (conn k) \<Longrightarrow>
     link_step k (KToServer m) (k\<lparr>conn := (conn k)\<lparr>incoming := incoming (conn k) @ [m]\<rparr>\<rparr>)"
| server_write:
    "link_step k (KServerWrite p)
       (k\<lparr>conn := (conn k)\<lparr>tmsg := tmsg (conn k) @
            [NewData (conn_id (conn k)) (-1) (int (length p)) p]\<rparr>,
          s_written := s_written k @ [p]\<rparr>)"
| server_status:
    "link_step k (KServerStatus st) (k\<lparr>conn := (conn k)\<lparr>ep_status := st\<rparr>\<rparr>)"

section \<open>The invariant\<close>

definition link_inv :: "link \<Rightarrow> bool" where
  "link_inv k \<longleftrightarrow> (\<exists>L M.
     dir_inv L (s_delivered k) (cli k) (conn k) (c2s k) (s2c k) \<and>
     dir_inv M (c_delivered k) (conn k) (cli k) (s2c k) (c2s k) \<and>
     c_written k = L @ map Payload (tmsg (cli k)) \<and>
     s_written k = M @ map Payload (tmsg (conn k)))"

lemma link_invE:
  assumes "link_inv k"
  obtains L M where "dir_inv L (s_delivered k) (cli k) (conn k) (c2s k) (s2c k)"
    "dir_inv M (c_delivered k) (conn k) (cli k) (s2c k) (c2s k)"
    "c_written k = L @ map Payload (tmsg (cli k))" "s_written k = M @ map Payload (tmsg (conn k))"
  using assms by (auto simp: link_inv_def)

lemma link_invI:
  "dir_inv L (s_delivered k) (cli k) (conn k) (c2s k) (s2c k) \<Longrightarrow>
   dir_inv M (c_delivered k) (conn k) (cli k) (s2c k) (c2s k) \<Longrightarrow>
   c_written k = L @ map Payload (tmsg (cli k)) \<Longrightarrow> s_written k = M @ map Payload (tmsg (conn k)) \<Longrightarrow>
   link_inv k"
  by (auto simp: link_inv_def)

lemma link_init_inv: "link_init cp sp i a k \<Longrightarrow> link_inv k"
proof -
  assume init: "link_init cp sp i a k"
  then have "client_init (cli k)" by (auto simp: link_init_def client_init_def)
  note c = client_init_fields [OF this]
  have w: "c2s k = {NewConnect}" and d: "conn k = new_clientInfo sp i a" "s2c k = {NewAck i 0}"
    and g: "c_written k = []" "s_written k = []" "c_delivered k = []" "s_delivered k = []"
    using init by (auto simp: link_init_def NewClient_def Let_def)
  have "dir_inv [] [] (cli k) (conn k) (c2s k) (s2c k)"
    by (simp add: dir_defs buf_ok_def c w d new_clientInfo_def gm_wf_def)
  moreover have "dir_inv [] [] (conn k) (cli k) (s2c k) (c2s k)"
    by (auto simp: dir_defs c w d new_clientInfo_def)
  ultimately show ?thesis
    by (auto simp: link_inv_def g c d new_clientInfo_def)
qed

text \<open>An iteration of a handler, at either end, moves both directions.\<close>

lemma dir_inv_both:
  assumes "dir_inv L D s r W B" and "dir_inv M E r s B W" and "ep_move s sent out s'"
  shows "\<exists>N. dir_inv (L @ N) D s' r (W \<union> set sent) B \<and> dir_inv M (E @ out) r s' B (W \<union> set sent) \<and>
    map Payload (tmsg s) = N @ map Payload (tmsg s')"
proof -
  have "no_acks s" using assms(1) sender_ok_no_acks by (auto simp: dir_inv_def)
  then show ?thesis
    using dir_inv_sender_move [OF assms(1,3)] dir_inv_receiver_move [OF assms(2,3)] by blast
qed

lemma dir_inv_client_other:
  assumes "client_exec e c = Some (c', sent)" and "\<And>h. e \<noteq> CHandler h"
    and "\<And>m. e \<noteq> CReceive (Some m)" and "\<And>p. e \<noteq> CWrite p"
  shows "ep_same c c'" and "sent = []" and "written_by e = []" and "delivered_by e c c' = []"
proof -
  show "ep_same c c'"
    using assms
    by (cases e) (auto simp: client_step_defs Let_def ep_same_def
        split: if_splits option.splits list.splits pick.splits)
  show "sent = []" using client_exec_other [OF assms(1,2)] by blast
  show "written_by e = []" "delivered_by e c c' = []"
    using assms(2,4) by (cases e; simp add: written_by_def delivered_by_def)+
qed

lemma link_inv_client:
  assumes inv: "link_inv k" and mv: "ep_move (cli k) sent out c'"
  shows "link_inv (k\<lparr>cli := c', c2s := c2s k \<union> set sent, c_delivered := c_delivered k @ out\<rparr>)"
proof -
  from inv obtain L M where
    d: "dir_inv L (s_delivered k) (cli k) (conn k) (c2s k) (s2c k)"
      "dir_inv M (c_delivered k) (conn k) (cli k) (s2c k) (c2s k)"
    and w: "c_written k = L @ map Payload (tmsg (cli k))" "s_written k = M @ map Payload (tmsg (conn k))"
    by (rule link_invE)
  obtain N where "dir_inv (L @ N) (s_delivered k) c' (conn k) (c2s k \<union> set sent) (s2c k)"
    "dir_inv M (c_delivered k @ out) (conn k) c' (s2c k) (c2s k \<union> set sent)"
    "map Payload (tmsg (cli k)) = N @ map Payload (tmsg c')"
    using dir_inv_both [OF d mv] by blast
  with w show ?thesis
    by (intro link_invI [of "L @ N" _ M]) simp_all
qed

lemma link_inv_server:
  assumes inv: "link_inv k" and mv: "ep_move (conn k) sent out c'"
  shows "link_inv (k\<lparr>conn := c', s2c := s2c k \<union> set sent, s_delivered := s_delivered k @ out\<rparr>)"
proof -
  from inv obtain L M where
    d: "dir_inv L (s_delivered k) (cli k) (conn k) (c2s k) (s2c k)"
      "dir_inv M (c_delivered k) (conn k) (cli k) (s2c k) (c2s k)"
    and w: "c_written k = L @ map Payload (tmsg (cli k))" "s_written k = M @ map Payload (tmsg (conn k))"
    by (rule link_invE)
  obtain N where "dir_inv (M @ N) (c_delivered k) c' (cli k) (s2c k \<union> set sent) (c2s k)"
    "dir_inv L (s_delivered k @ out) (cli k) c' (c2s k) (s2c k \<union> set sent)"
    "map Payload (tmsg (conn k)) = N @ map Payload (tmsg c')"
    using dir_inv_both [OF d(2,1) mv] by blast
  with w show ?thesis
    by (intro link_invI [of L _ "M @ N"]) simp_all
qed

lemma link_inv_client_write:
  assumes "link_inv k"
  shows "link_inv (k\<lparr>cli := (cli k)\<lparr>tmsg := tmsg (cli k) @ [NewData i j (int (length p)) p]\<rparr>,
    c_written := c_written k @ [p]\<rparr>)"
proof -
  from assms obtain L M where
    d: "dir_inv L (s_delivered k) (cli k) (conn k) (c2s k) (s2c k)"
      "dir_inv M (c_delivered k) (conn k) (cli k) (s2c k) (c2s k)"
    and w: "c_written k = L @ map Payload (tmsg (cli k))" "s_written k = M @ map Payload (tmsg (conn k))"
    by (rule link_invE)
  with dir_inv_write(1) [OF d(1), of i j p] dir_inv_write(2) [OF d(2)] show ?thesis
    by (intro link_invI [of L _ M]) simp_all
qed

lemma link_inv_server_write:
  assumes "link_inv k"
  shows "link_inv (k\<lparr>conn := (conn k)\<lparr>tmsg := tmsg (conn k) @ [NewData i j (int (length p)) p]\<rparr>,
    s_written := s_written k @ [p]\<rparr>)"
proof -
  from assms obtain L M where
    d: "dir_inv L (s_delivered k) (cli k) (conn k) (c2s k) (s2c k)"
      "dir_inv M (c_delivered k) (conn k) (cli k) (s2c k) (c2s k)"
    and w: "c_written k = L @ map Payload (tmsg (cli k))" "s_written k = M @ map Payload (tmsg (conn k))"
    by (rule link_invE)
  with dir_inv_write(1) [OF d(2), of i j p] dir_inv_write(2) [OF d(1)] show ?thesis
    by (intro link_invI [of L _ M]) simp_all
qed

lemma link_inv_deliver:
  assumes "link_inv k"
  shows "m \<in> s2c k \<Longrightarrow> link_inv (k\<lparr>cli := (cli k)\<lparr>incoming := incoming (cli k) @ [m]\<rparr>\<rparr>)"
    and "m \<in> c2s k \<Longrightarrow> link_inv (k\<lparr>conn := (conn k)\<lparr>incoming := incoming (conn k) @ [m]\<rparr>\<rparr>)"
proof -
  from assms obtain L M where
    d: "dir_inv L (s_delivered k) (cli k) (conn k) (c2s k) (s2c k)"
      "dir_inv M (c_delivered k) (conn k) (cli k) (s2c k) (c2s k)"
    and w: "c_written k = L @ map Payload (tmsg (cli k))" "s_written k = M @ map Payload (tmsg (conn k))"
    by (rule link_invE)
  show "link_inv (k\<lparr>cli := (cli k)\<lparr>incoming := incoming (cli k) @ [m]\<rparr>\<rparr>)" if "m \<in> s2c k"
    using dir_inv_deliver(2) [OF d(1) that] dir_inv_deliver(1) [OF d(2) that] w
    by (intro link_invI [of L _ M]) simp_all
  show "link_inv (k\<lparr>conn := (conn k)\<lparr>incoming := incoming (conn k) @ [m]\<rparr>\<rparr>)" if "m \<in> c2s k"
    using dir_inv_deliver(1) [OF d(1) that] dir_inv_deliver(2) [OF d(2) that] w
    by (intro link_invI [of L _ M]) simp_all
qed

lemma link_inv_client_exec:
  assumes inv: "link_inv k" and ex: "client_exec e (cli k) = Some (c', sent)"
    and nr: "\<forall>m. e \<noteq> CReceive (Some m)"
  shows "link_inv (k\<lparr>cli := c', c2s := c2s k \<union> set sent, c_written := c_written k @ written_by e,
    c_delivered := c_delivered k @ delivered_by e (cli k) c'\<rparr>)"
proof -
  consider (handler) h where "e = CHandler h" | (writing) p where "e = CWrite p"
    | (other) "\<And>h. e \<noteq> CHandler h" "\<And>p. e \<noteq> CWrite p" by (cases e) auto
  then show ?thesis
  proof cases
    case handler
    with ex obtain out where mv: "ep_move (cli k) sent out c'" "rmsg c' = rmsg (cli k) @ out"
      using client_handler_move [of h "cli k"] by auto
    then show ?thesis
      using link_inv_client [OF inv mv(1)] handler by (simp add: written_by_def delivered_by_def)
  next
    case writing
    with ex have "c' = (cli k)\<lparr>tmsg := tmsg (cli k) @
        [NewData (conn_id (cli k)) (-1) (int (length p)) p]\<rparr>" "sent = []"
      by (auto simp: client_Write_def split: if_splits)
    then show ?thesis
      using link_inv_client_write [OF inv, of p "conn_id (cli k)" "-1"] writing
      by (simp add: written_by_def delivered_by_def)
  next
    case other
    note o = dir_inv_client_other [OF ex other(1) nr [rule_format] other(2)]
    have "ep_move (cli k) [] [] c'" using o(1) by (simp add: move_quiet)
    then show ?thesis using link_inv_client [OF inv] o(2-4) by fastforce
  qed
qed

lemma link_step_inv: "link_step k e k' \<Longrightarrow> link_inv k \<Longrightarrow> link_inv k'"
proof (induction rule: link_step.induct)
  case (client_moves e k c' sent)
  then show ?case using link_inv_client_exec by blast
next
  case (server_moves b e k r)
  then show ?case using link_inv_server handleClient_move by blast
next
  case (to_client m k c')
  then have "c' = (cli k)\<lparr>incoming := incoming (cli k) @ [m]\<rparr>"
    by (auto simp: client_receiver_def split: if_splits)
  then show ?case using link_inv_deliver(1) to_client by blast
next
  case (to_server m k)
  then show ?case using link_inv_deliver(2) by blast
next
  case (server_write k p)
  then show ?case using link_inv_server_write by blast
next
  case (server_status k st)
  have "ep_move (conn k) [] [] ((conn k)\<lparr>ep_status := st\<rparr>)" by (simp add: move_quiet)
  then show ?case using link_inv_server [OF server_status] by fastforce
qed

interpretation link: inductive_invariant "link_init cp sp i a" link_step link_inv
  for cp sp i a
  by unfold_locales (auto intro: link_init_inv link_step_inv)

section \<open>Executing the system\<close>

definition client_reads :: "client_event \<Rightarrow> bool" where
  "client_reads e = (case e of CReceive (Some _) \<Rightarrow> True | _ \<Rightarrow> False)"

fun link_exec :: "link_event \<Rightarrow> link \<Rightarrow> (link \<times> unit) option" where
  "link_exec (KClient e) k = (if client_reads e then None else
     (case client_exec e (cli k) of None \<Rightarrow> None
      | Some (c', sent) \<Rightarrow> Some (k\<lparr>cli := c', c2s := c2s k \<union> set sent,
          c_written := c_written k @ written_by e,
          c_delivered := c_delivered k @ delivered_by e (cli k) c'\<rparr>, ())))"
| "link_exec (KServer b e) k = (case handleClient b e (conn k) of None \<Rightarrow> None
     | Some r \<Rightarrow> Some (k\<lparr>conn := cr_conn r, s2c := s2c k \<union> set (cr_sent r),
         s_delivered := s_delivered k @ cr_rmsg r\<rparr>, ()))"
| "link_exec (KToClient m) k = (if m \<notin> s2c k then None else
     (case client_receiver (Some m) (cli k) of None \<Rightarrow> None | Some c' \<Rightarrow> Some (k\<lparr>cli := c'\<rparr>, ())))"
| "link_exec (KToServer m) k =
     (if m \<in> c2s k \<and> Type m \<noteq> MsgConnect \<and> ConnID m = conn_id (conn k)
      then Some (k\<lparr>conn := (conn k)\<lparr>incoming := incoming (conn k) @ [m]\<rparr>\<rparr>, ()) else None)"
| "link_exec (KServerWrite p) k = Some (k\<lparr>conn := (conn k)\<lparr>tmsg := tmsg (conn k) @
       [NewData (conn_id (conn k)) (-1) (int (length p)) p]\<rparr>, s_written := s_written k @ [p]\<rparr>, ())"
| "link_exec (KServerStatus st) k = Some (k\<lparr>conn := (conn k)\<lparr>ep_status := st\<rparr>\<rparr>, ())"

lemma link_exec_step: "link_exec e k = Some (k', u) \<Longrightarrow> link_step k e k'"
  by (cases e)
    (auto intro: link_step.intros simp: client_reads_def split: if_splits option.splits)

lemma link_run_steps:
  assumes "run_opt link_exec es k = Some k'"
  shows "steps link_step k es k'"
  using run_opt_steps [OF assms]
  by (induction rule: steps.induct) (auto intro: steps.intros link_exec_step)

text \<open>A connection with default parameters, number 73, and a first exchange over it.\<close>

definition link_start :: link where
  "link_start = \<lparr>cli = new_client_default, conn = new_clientInfo NewParams 73 ''10.0.0.1:7'',
     c2s = {NewConnect}, s2c = {NewAck 73 0}, c_written = [], s_written = [],
     c_delivered = [], s_delivered = []\<rparr>"

lemma link_start_init: "link_init NewParams NewParams 73 ''10.0.0.1:7'' link_start"
  by (simp add: link_init_def link_start_def new_client_default_def NewClient_def Let_def)

definition first_exchange :: "link_event list" where
  "first_exchange =
     [KToClient (NewAck 73 0), KClient (CHandler EvIncoming),
      KClient (CWrite ''hi''), KClient (CWrite ''yo''), KClient (CHandler EvDefault),
      KToServer (NewData 73 1 2 ''hi''), KServer False EvIncoming, KToClient (NewAck 73 1)]"

lemma first_exchange_result:
  "case run_opt link_exec first_exchange link_start of None \<Rightarrow> False
   | Some k \<Rightarrow> c_written k = [''hi'', ''yo''] \<and> s_delivered k = [''hi''] \<and> length (incoming (cli k)) = 1 \<and>
       s_written k = []"
  by code_simp

lemma first_exchange_reach:
  assumes "run_opt link_exec first_exchange link_start = Some k"
  shows "reach (link_init NewParams NewParams 73 ''10.0.0.1:7'') link_step k"
  using reach_steps [OF link_run_steps [OF assms]] link_start_init by (blast intro: reach_init)

section \<open>The abstract service\<close>

text \<open>
  What LSP promises its users: two unbounded first-in first-out queues, one per direction, of
  payloads written and not yet delivered. A label has what is seen at an interface of the
  service: a payload written to a queue, or the payloads delivered from it.
\<close>

datatype fifo_label =
    Put_up bytes | Get_up "bytes list"        \<comment> \<open>from the client to the server\<close>
  | Put_down bytes | Get_down "bytes list"    \<comment> \<open>from the server to the client\<close>

inductive fifo_pair_step ::
    "bytes list \<times> bytes list \<Rightarrow> fifo_label \<Rightarrow> bytes list \<times> bytes list \<Rightarrow> bool" where
  put_up: "fifo_pair_step (u, d) (Put_up p) (u @ [p], d)"
| put_down: "fifo_pair_step (u, d) (Put_down p) (u, d @ [p])"
| get_up: "fifo_pair_step (out @ u, d) (Get_up out) (u, d)"
| get_down: "fifo_pair_step (u, out @ d) (Get_down out) (u, d)"

text \<open>
  The label of an event is read off the code: the argument of \<open>Write\<close>, and what the iteration of
  a handler puts into its \<open>rmsg\<close> channel, which is nothing for most events.
\<close>

definition link_label :: "link_event \<Rightarrow> link \<Rightarrow> fifo_label" where
  "link_label e k = (case e of
       KClient (CWrite p) \<Rightarrow> Put_up p
     | KClient ce \<Rightarrow> Get_down (case client_exec ce (cli k) of None \<Rightarrow> []
         | Some (c', _) \<Rightarrow> delivered_by ce (cli k) c')
     | KServer b h \<Rightarrow> Get_up (case handleClient b h (conn k) of None \<Rightarrow> [] | Some r \<Rightarrow> cr_rmsg r)
     | KServerWrite p \<Rightarrow> Put_down p
     | _ \<Rightarrow> Get_up [])"

definition link_lts :: "link \<Rightarrow> fifo_label \<Rightarrow> link \<Rightarrow> bool" where
  "link_lts k l k' \<longleftrightarrow> (\<exists>e. link_step k e k' \<and> l = link_label e k)"

definition link_abs :: "link \<Rightarrow> bytes list \<times> bytes list" where
  "link_abs k = (drop (length (s_delivered k)) (c_written k), drop (length (c_delivered k)) (s_written k))"

lemma link_inv_prefixes:
  assumes "link_inv k"
  obtains u d where "c_written k = s_delivered k @ u" "s_written k = c_delivered k @ d"
  using assms
proof (rule link_invE)
  fix L M
  assume d: "dir_inv L (s_delivered k) (cli k) (conn k) (c2s k) (s2c k)"
      "dir_inv M (c_delivered k) (conn k) (cli k) (s2c k) (c2s k)"
    and w: "c_written k = L @ map Payload (tmsg (cli k))" "s_written k = M @ map Payload (tmsg (conn k))"
  obtain u v where "L = s_delivered k @ u" "M = c_delivered k @ v"
    using dir_inv_prefix [OF d(1)] dir_inv_prefix [OF d(2)] by blast
  with w show thesis
    by (intro that [of "u @ map Payload (tmsg (cli k))" "v @ map Payload (tmsg (conn k))"]) simp_all
qed

text \<open>A step extends the history its label speaks of by the payloads of the label.\<close>

lemma link_lts_histories:
  assumes "link_lts k l k'"
  obtains (put_c) p where "l = Put_up p" "c_written k' = c_written k @ [p]" "s_written k' = s_written k"
      "c_delivered k' = c_delivered k" "s_delivered k' = s_delivered k"
  | (put_s) p where "l = Put_down p" "c_written k' = c_written k" "s_written k' = s_written k @ [p]"
      "c_delivered k' = c_delivered k" "s_delivered k' = s_delivered k"
  | (get_c) out where "l = Get_down out" "c_written k' = c_written k" "s_written k' = s_written k"
      "c_delivered k' = c_delivered k @ out" "s_delivered k' = s_delivered k"
  | (get_s) out where "l = Get_up out" "c_written k' = c_written k" "s_written k' = s_written k"
      "c_delivered k' = c_delivered k" "s_delivered k' = s_delivered k @ out"
proof -
  obtain e where st: "link_step k e k'" and l: "l = link_label e k" using assms by (auto simp: link_lts_def)
  from st show thesis
  proof cases
    case (client_moves ce c' sent)
    show thesis
    proof (cases "\<exists>p. ce = CWrite p")
      case True
      then obtain p where "ce = CWrite p" by blast
      then show thesis
        using client_moves(1,2) by (intro put_c [of p]) (simp_all add: l written_by_def delivered_by_def link_label_def)
    next
      case False
      have "written_by ce = []" using False by (cases ce) (simp_all add: written_by_def)
      moreover have "link_label (KClient ce) k = Get_down (case client_exec ce (cli k) of None \<Rightarrow> []
          | Some (c', _) \<Rightarrow> delivered_by ce (cli k) c')"
        unfolding link_label_def using False by (cases ce) (simp_all del: client_exec.simps split: option.split)
      ultimately have "written_by ce = []" "link_label (KClient ce) k = Get_down (delivered_by ce (cli k) c')"
        using client_moves(3) by simp_all
      then show thesis
        using client_moves(1,2) by (intro get_c [of "delivered_by ce (cli k) c'"]) (simp_all add: l)
    qed
  next
    case (server_moves b h r)
    then show thesis by (intro get_s [of "cr_rmsg r"]) (simp_all add: l link_label_def)
  next
    case (to_client m c')
    then show thesis by (intro get_s [of "[]"]) (simp_all add: l link_label_def)
  next
    case (to_server m)
    then show thesis by (intro get_s [of "[]"]) (simp_all add: l link_label_def)
  next
    case (server_write p)
    then show thesis by (intro put_s [of p]) (simp_all add: l link_label_def)
  next
    case (server_status st)
    then show thesis by (intro get_s [of "[]"]) (simp_all add: l link_label_def)
  qed
qed

lemma link_lts_inv: "link_lts k l k' \<Longrightarrow> link_inv k \<Longrightarrow> link_inv k'"
  using link_step_inv by (auto simp: link_lts_def)

lemma link_lts_fifo:
  assumes inv: "link_inv k" and st: "link_lts k l k'"
  shows "fifo_pair_step (link_abs k) l (link_abs k')"
proof -
  obtain u d where p: "c_written k = s_delivered k @ u" "s_written k = c_delivered k @ d"
    using link_inv_prefixes [OF inv] .
  obtain u' d' where p': "c_written k' = s_delivered k' @ u'" "s_written k' = c_delivered k' @ d'"
    using link_inv_prefixes [OF link_lts_inv [OF st inv]] .
  have abs: "link_abs k = (u, d)" "link_abs k' = (u', d')" by (simp_all add: link_abs_def p p')
  show ?thesis
    using st
  proof (cases rule: link_lts_histories)
    case (put_c q)
    then show ?thesis using p p' abs put_up [of u d q] by simp
  next
    case (put_s q)
    then show ?thesis using p p' abs put_down [of u d q] by simp
  next
    case (get_c out)
    then show ?thesis using p p' abs get_down [of u out d'] by simp
  next
    case (get_s out)
    then show ?thesis using p p' abs get_up [of out u' d] by simp
  qed
qed

interpretation fifo: trace_refinement "link_init cp sp i a" link_lts link_inv fifo_pair_step link_abs
  for cp sp i a
  by unfold_locales (auto intro: link_init_inv link_lts_inv link_lts_fifo)

text \<open>
  When the guard of an end holds, all it has sent has been delivered. At the server that is all
  \<open>handle\<close> has passed to the connection.
\<close>

lemma link_close_flushed:
  assumes "link_inv k"
  shows "close_ready (cli k) \<Longrightarrow> s_delivered k = c_written k"
    and "close_ready (conn k) \<Longrightarrow> c_delivered k = s_written k"
proof -
  from assms obtain L M where
    d: "dir_inv L (s_delivered k) (cli k) (conn k) (c2s k) (s2c k)"
      "dir_inv M (c_delivered k) (conn k) (cli k) (s2c k) (c2s k)"
    and w: "c_written k = L @ map Payload (tmsg (cli k))" "s_written k = M @ map Payload (tmsg (conn k))"
    by (rule link_invE)
  show "s_delivered k = c_written k" if "close_ready (cli k)"
    using dir_inv_all_acked [OF d(1)] w that by (simp add: close_ready_def)
  show "c_delivered k = s_written k" if "close_ready (conn k)"
    using dir_inv_all_acked [OF d(2)] w that by (simp add: close_ready_def)
qed

section \<open>Silent epochs\<close>

text \<open>
  An end that has received data at least once and has nothing unacknowledged sends nothing
  when its timer fires.
\<close>

definition silent :: "'a endpoint_scheme \<Rightarrow> bool" where
  "silent c \<longleftrightarrow> tbuffer c = [] \<and> rsq c \<noteq> 1 \<and> 0 \<le> conn_id c"

lemma client_tick_silent:
  assumes "silent c" and "client_tick c = Some c'"
  shows "silent c'" and "client_handler EvTimer c = Some (c', [])" and "rmsg c' = rmsg c"
  using assms
  by (auto simp: client_tick_def client_handler_def client_on_timer_def silent_def close_ready_def Let_def
      split: if_splits)

lemma conn_tick_silent:
  assumes "silent c" and "conn_tick c = Some c'"
  shows "silent c'" and "\<exists>r. handleClient False EvTimer c = Some r \<and> cr_conn r = c' \<and>
    cr_sent r = [] \<and> cr_rmsg r = []"
  using assms
  by (auto simp: conn_tick_def handleClient_def conn_on_timer_def silent_def close_ready_def Let_def
      split: if_splits)

lemma silent_client_steps:
  "repeat_opt n client_tick (cli k) = Some c' \<Longrightarrow> silent (cli k) \<Longrightarrow>
   steps link_step k (replicate n (KClient (CHandler EvTimer))) (k\<lparr>cli := c'\<rparr>)"
proof (induction n arbitrary: k)
  case 0
  then have "k\<lparr>cli := c'\<rparr> = k" by (cases k) simp
  then show ?case by (simp add: steps_Nil)
next
  case (Suc n)
  then obtain c1 where c1: "client_tick (cli k) = Some c1" "repeat_opt n client_tick c1 = Some c'"
    by (auto split: option.splits)
  note t = client_tick_silent [OF Suc.prems(2) c1(1)]
  have "client_exec (CHandler EvTimer) (cli k) = Some (c1, [])" using t(2) by simp
  from client_moves [OF this]
  have "link_step k (KClient (CHandler EvTimer)) (k\<lparr>cli := c1\<rparr>)"
    using t(3) by (simp add: written_by_def delivered_by_def)
  moreover have "steps link_step (k\<lparr>cli := c1\<rparr>) (replicate n (KClient (CHandler EvTimer))) (k\<lparr>cli := c'\<rparr>)"
    using Suc.IH [of "k\<lparr>cli := c1\<rparr>"] c1(2) t(1) by simp
  ultimately show ?case by (auto intro: steps_Cons)
qed

lemma silent_conn_steps:
  "repeat_opt n conn_tick (conn k) = Some c' \<Longrightarrow> silent (conn k) \<Longrightarrow>
   steps link_step k (replicate n (KServer False EvTimer)) (k\<lparr>conn := c'\<rparr>)"
proof (induction n arbitrary: k)
  case 0
  then have "k\<lparr>conn := c'\<rparr> = k" by (cases k) simp
  then show ?case by (simp add: steps_Nil)
next
  case (Suc n)
  then obtain c1 where c1: "conn_tick (conn k) = Some c1" "repeat_opt n conn_tick c1 = Some c'"
    by (auto split: option.splits)
  note t = conn_tick_silent [OF Suc.prems(2) c1(1)]
  then obtain r where "handleClient False EvTimer (conn k) = Some r" "cr_conn r = c1"
      "cr_sent r = []" "cr_rmsg r = []" by blast
  then have "link_step k (KServer False EvTimer) (k\<lparr>conn := c1\<rparr>)"
    using server_moves [of False EvTimer k r] by simp
  moreover have "steps link_step (k\<lparr>conn := c1\<rparr>) (replicate n (KServer False EvTimer)) (k\<lparr>conn := c'\<rparr>)"
    using Suc.IH [of "k\<lparr>conn := c1\<rparr>"] c1(2) t(1) by simp
  ultimately show ?case by (auto intro: steps_Cons)
qed

section \<open>Properties\<close>

text \<open>
  C2: reliable in-order delivery. Over a network that may lose, repeat and reorder messages
  at will, in every reachable state the payloads put into the server's read channel for a
  connection are a prefix of the payloads its client has written, and the payloads put into
  the client's read channel are a prefix of those the server application has written to the
  connection: nothing is lost in between, repeated, reordered or invented.
\<close>

theorem lsp_in_order_delivery:
  assumes "reach (link_init cp sp i a) link_step k"
  shows "\<exists>u d. c_written k = s_delivered k @ u \<and> s_written k = c_delivered k @ d"
  using link_inv_prefixes [OF link.reach_inv [OF assms]] by metis

theorem lsp_in_order_delivery_witness:
  "\<exists>k u d. run_opt link_exec first_exchange link_start = Some k \<and> s_delivered k = [''hi''] \<and>
     c_written k = s_delivered k @ u \<and> s_written k = c_delivered k @ d"
proof -
  obtain k where k: "run_opt link_exec first_exchange link_start = Some k" "s_delivered k = [''hi'']"
    using first_exchange_result by (auto split: option.splits)
  from lsp_in_order_delivery [OF first_exchange_reach [OF k(1)]] k show ?thesis by blast
qed

text \<open>
  C3: the client and its connection refine a pair of first-in first-out queues. In every run from
  the start, over a network that loses, repeats and reorders messages, the payloads written and
  the payloads the two handlers put into their \<open>rmsg\<close> channels, in the order in which this
  happens, are the labels of a run of two queues that start empty, where a delivery must take
  exactly the payloads at the front; what is left in the queues is what was written and not
  delivered.
\<close>

theorem lsp_refines_fifo_queues:
  assumes "link_init cp sp i a k0" and "steps link_lts k0 ls k"
  shows "steps fifo_pair_step ([], []) ls (link_abs k)"
proof -
  have "link_abs k0 = ([], [])" using assms(1) by (simp add: link_abs_def link_init_def)
  with fifo.runs_refine [OF assms] show ?thesis by simp
qed

text \<open>The labels of the first exchange.\<close>

fun link_labels :: "link_event list \<Rightarrow> link \<Rightarrow> fifo_label list" where
  "link_labels [] k = []"
| "link_labels (e # es) k = link_label e k # (case link_exec e k of None \<Rightarrow> [] | Some (k', _) \<Rightarrow> link_labels es k')"

lemma link_run_lts:
  "run_opt link_exec es k = Some k' \<Longrightarrow> steps link_lts k (link_labels es k) k'"
proof (induction es arbitrary: k)
  case Nil
  then show ?case by (simp add: steps_Nil)
next
  case (Cons e es)
  then obtain k1 where k1: "link_exec e k = Some (k1, ())" "run_opt link_exec es k1 = Some k'"
    by (auto split: option.splits)
  then have "link_lts k (link_label e k) k1" using link_exec_step by (auto simp: link_lts_def)
  with Cons.IH [OF k1(2)] k1(1) show ?case by (simp add: steps_Cons)
qed

lemma first_exchange_labels:
  "filter (\<lambda>l. l \<noteq> Get_up [] \<and> l \<noteq> Get_down []) (link_labels first_exchange link_start) =
     [Put_up ''hi'', Put_up ''yo'', Get_up [''hi'']]"
  by code_simp

theorem lsp_refines_fifo_queues_witness:
  "\<exists>ls k. steps link_lts link_start ls k \<and> steps fifo_pair_step ([], []) ls (link_abs k) \<and>
     filter (\<lambda>l. l \<noteq> Get_up [] \<and> l \<noteq> Get_down []) ls = [Put_up ''hi'', Put_up ''yo'', Get_up [''hi'']] \<and>
     link_abs k = ([''yo''], [])"
proof -
  obtain k where k: "run_opt link_exec first_exchange link_start = Some k" "link_abs k = ([''yo''], [])"
    using first_exchange_result by (auto simp: link_abs_def split: option.splits)
  note lts = link_run_lts [OF k(1)]
  from lsp_refines_fifo_queues [OF link_start_init lts] lts first_exchange_labels k(2) show ?thesis by blast
qed

text \<open>
  C15: an idle connection is declared lost although both ends and the network work. When both
  ends have received data before and nothing is unacknowledged, the timer events of
  \<open>EpochLimit\<close> epochs alone end both handlers, and no message is put on the wire in
  between: there is no keep-alive once data has been received.
\<close>

theorem lsp_idle_connection_lost:
  assumes "handler_live (cli k)" "silent (cli k)" "epochCount (cli k) = 0" "retries (cli k) = int (Suc n)"
    and "conn_live (conn k)" "silent (conn k)" "epochCount (conn k) = 0" "retries (conn k) = int (Suc m)"
  shows "\<exists>k'. steps link_step k (replicate (Suc n) (KClient (CHandler EvTimer))) k' \<and>
    (\<exists>k''. steps link_step k' (replicate (Suc m) (KServer False EvTimer)) k'' \<and>
      c2s k'' = c2s k \<and> s2c k'' = s2c k \<and> \<not> running (cli k'') \<and> \<not> running (conn k''))"
proof -
  obtain c' where c': "repeat_opt (Suc n) client_tick (cli k) = Some c'" "\<not> running c'"
    using client_epoch.ticks_expire [OF assms(1), of n] assms(3,4) by (auto simp: client_expire_def)
  obtain d' where d': "repeat_opt (Suc m) conn_tick (conn k) = Some d'" "\<not> running d'"
    using conn_epoch.ticks_expire [OF assms(5), of m] assms(7,8) by (auto simp: conn_expire_def)
  have "steps link_step (k\<lparr>cli := c'\<rparr>) (replicate (Suc m) (KServer False EvTimer))
      (k\<lparr>cli := c', conn := d'\<rparr>)"
    using silent_conn_steps [of "Suc m" "k\<lparr>cli := c'\<rparr>" d'] d'(1) assms(6) by simp
  with silent_client_steps [OF c'(1) assms(2)] c'(2) d'(2) show ?thesis
    by (intro exI [of _ "k\<lparr>cli := c'\<rparr>"] conjI exI [of _ "k\<lparr>cli := c', conn := d'\<rparr>"]) simp_all
qed

text \<open>An exchange of one message in each direction, all acknowledged.\<close>

definition idle_exchange :: "link_event list" where
  "idle_exchange =
     [KToClient (NewAck 73 0), KClient (CHandler EvIncoming), KClient (CWrite ''hi''),
      KClient (CHandler EvDefault), KServerWrite ''ok'', KServer False EvDefault,
      KToServer (NewData 73 1 2 ''hi''), KServer False EvIncoming,
      KToClient (NewData 73 1 2 ''ok''), KClient (CHandler EvIncoming),
      KToServer (NewAck 73 1), KServer False EvIncoming,
      KToClient (NewAck 73 1), KClient (CHandler EvIncoming)]"

lemma idle_exchange_result:
  "case run_opt link_exec idle_exchange link_start of None \<Rightarrow> False
   | Some k \<Rightarrow> (handler_live (cli k) \<and> silent (cli k) \<and> epochCount (cli k) = 0 \<and> retries (cli k) = 5) \<and>
       (conn_live (conn k) \<and> silent (conn k) \<and> epochCount (conn k) = 0 \<and> retries (conn k) = 5)"
  by code_simp

theorem lsp_idle_connection_lost_witness:
  "\<exists>k k' k''. run_opt link_exec idle_exchange link_start = Some k \<and>
     steps link_step k (replicate 5 (KClient (CHandler EvTimer))) k' \<and>
     steps link_step k' (replicate 5 (KServer False EvTimer)) k'' \<and>
     \<not> running (cli k'') \<and> \<not> running (conn k'')"
proof -
  obtain k where k: "run_opt link_exec idle_exchange link_start = Some k"
    and c: "handler_live (cli k)" "silent (cli k)" "epochCount (cli k) = 0" "retries (cli k) = int (Suc 4)"
    and d: "conn_live (conn k)" "silent (conn k)" "epochCount (conn k) = 0" "retries (conn k) = int (Suc 4)"
    using idle_exchange_result by (auto split: option.splits)
  have "Suc 4 = 5" by simp
  with lsp_idle_connection_lost [OF c d] k show ?thesis by metis
qed

end
