(* ===== verification/Lsp_Liveness.thy ===== *)
theory Lsp_Liveness
  imports Lsp_Protocol
begin

text \<open>
  What the messages of a connection look like and that the protocol makes progress: from
  every state of a connection that is up, and even when everything on the wire is lost, the
  handlers and the network can go on until all that the client has written is delivered.
\<close>

section \<open>The messages of a connection\<close>

definition data_msg :: "int \<Rightarrow> Message \<Rightarrow> bool" where
  "data_msg i m \<longleftrightarrow> Type m = MsgData \<and> ConnID m = i \<and> Size m = int (length (Payload m))"

text \<open>
  From the client: while it does not know its number it acknowledges data with the number -1.
\<close>

definition up_msg :: "int \<Rightarrow> Message \<Rightarrow> bool" where
  "up_msg i m \<longleftrightarrow> m = NewConnect \<or> (\<exists>n. m = NewAck i n \<or> m = NewAck (-1) n) \<or> data_msg i m"

definition down_msg :: "int \<Rightarrow> Message \<Rightarrow> bool" where
  "down_msg i m \<longleftrightarrow> (\<exists>n. m = NewAck i n) \<or> data_msg i m"

definition outbox :: "'a endpoint_scheme \<Rightarrow> Message set" where
  "outbox c = set (tmsg c) \<union> snd ` set (tbuffer c)"

text \<open>
  The client has its number exactly when \<open>statusSignal\<close> is closed; before that it has nothing
  to send but the connect message.
\<close>

definition typed_client :: "int \<Rightarrow> client \<Rightarrow> bool" where
  "typed_client i c \<longleftrightarrow> statusSignal c = [] \<and>
     (if signal_closed c then conn_id c = i \<and> (\<forall>m \<in> outbox c. data_msg i m)
      else conn_id c = -1 \<and> tmsg c = [] \<and> set (tbuffer c) \<subseteq> {(0, NewConnect)})"

definition typed_conn :: "int \<Rightarrow> clientInfo \<Rightarrow> bool" where
  "typed_conn i c \<longleftrightarrow> conn_id c = i \<and> (\<forall>m \<in> outbox c. data_msg i m)"

definition typed :: "int \<Rightarrow> link \<Rightarrow> bool" where
  "typed i k \<longleftrightarrow> typed_client i (cli k) \<and> typed_conn i (conn k) \<and>
     (\<forall>m \<in> c2s k. up_msg i m) \<and> (\<forall>m \<in> s2c k. down_msg i m) \<and>
     (\<forall>m \<in> set (incoming (cli k)). down_msg i m) \<and> (signal_closed (cli k) \<or> c_written k = [])"

lemma send_next_outbox:
  assumes "send_next c = (c', sent)" and "\<forall>m \<in> outbox c. data_msg i m"
  shows "(\<forall>m \<in> outbox c'. data_msg i m) \<and> (\<forall>m \<in> set sent. data_msg i m)"
  using assms(1)
proof (cases rule: send_nextE)
  case none
  with assms(2) show ?thesis by simp
next
  case (one m ms)
  define m' where "m' = m\<lparr>SeqNum := tsq c\<rparr>"
  have c': "tmsg c' = ms" "tbuffer c' = gm_set (tsq c) m' (tbuffer c)" "sent = [m']"
    using one(3,4) by (simp_all add: m'_def)
  have "snd ` set (tbuffer c') \<subseteq> snd ` insert (tsq c, m') (set (tbuffer c))"
    unfolding c'(2) by (rule image_mono [OF gm_set_subset])
  then have "outbox c' \<subseteq> insert m' (outbox c)" unfolding outbox_def c'(1) one(2) by auto
  moreover have "data_msg i m" using assms(2) one(2) by (simp add: outbox_def)
  then have "data_msg i m'" by (simp add: data_msg_def m'_def)
  ultimately show ?thesis using assms(2) c'(3) by auto
qed

lemma outbox_del: "\<forall>m \<in> outbox c. P m \<Longrightarrow> \<forall>m \<in> outbox (c\<lparr>tbuffer := gm_del k (tbuffer c)\<rparr>). P m"
  using gm_del_subset [of k "tbuffer c"] by (auto simp: outbox_def)

lemma outbox_same: "tmsg c' = tmsg c \<Longrightarrow> tbuffer c' = tbuffer c \<Longrightarrow> outbox c' = outbox c"
  by (simp add: outbox_def)

lemma typed_client_same:
  "tbuffer c' = tbuffer c \<Longrightarrow> tmsg c' = tmsg c \<Longrightarrow> conn_id c' = conn_id c \<Longrightarrow> statusSignal c' = statusSignal c \<Longrightarrow>
   signal_closed c' = signal_closed c \<Longrightarrow> typed_client i c' = typed_client i c"
  by (simp add: typed_client_def outbox_def)

lemma typed_client_id: "typed_client i c \<Longrightarrow> conn_id c = i \<or> conn_id c = -1"
  by (auto simp: typed_client_def split: if_splits)

lemma typed_client_buffer: "typed_client i c \<Longrightarrow> m \<in> snd ` set (tbuffer c) \<Longrightarrow> up_msg i m"
  by (cases "signal_closed c") (force simp: typed_client_def outbox_def up_msg_def)+

section \<open>Every step keeps the types\<close>

lemma client_on_data_frame:
  assumes "client_on_data m c = (c', sent)"
  shows "tbuffer c' = tbuffer c" "tmsg c' = tmsg c" "conn_id c' = conn_id c" "statusSignal c' = statusSignal c"
    "signal_closed c' = signal_closed c" "incoming c' = incoming c" "sent \<in> {[], [NewAck (conn_id c) (SeqNum m)]}"
    "running c' = running c" "receiving c' = receiving c" "udp_open c' = udp_open c" "windows c' = windows c"
proof -
  have "\<exists>q b r. c' = c\<lparr>rsq := q, rbuffer := b, rmsg := r\<rparr> \<and> sent \<in> {[], [NewAck (conn_id c) (SeqNum m)]}"
  proof (cases "take_data m c")
    case None
    then have "c' = c\<lparr>rsq := rsq c, rbuffer := rbuffer c, rmsg := rmsg c\<rparr>" "sent = []"
      using assms by (auto simp: client_on_data_def)
    then show ?thesis by blast
  next
    case (Some p)
    then obtain c1 out where p: "take_data m c = Some (c1, out)" by (cases p) auto
    have "c' = c1\<lparr>rmsg := rmsg c1 @ out\<rparr>" "sent = [NewAck (conn_id c1) (SeqNum m)]"
      using assms p by (auto simp: client_on_data_def)
    then have "c' = c\<lparr>rsq := rsq c1, rbuffer := rbuffer c1, rmsg := rmsg c1 @ out\<rparr>" "sent = [NewAck (conn_id c) (SeqNum m)]"
      using arg_cong [OF take_data_upd [OF p], of "\<lambda>c. c\<lparr>rmsg := rmsg c1 @ out\<rparr>"] take_data_frame(6) [OF p] by simp_all
    then show ?thesis by blast
  qed
  then obtain q b r where "c' = c\<lparr>rsq := q, rbuffer := b, rmsg := r\<rparr>" "sent \<in> {[], [NewAck (conn_id c) (SeqNum m)]}" by blast
  then show "tbuffer c' = tbuffer c" "tmsg c' = tmsg c" "conn_id c' = conn_id c" "statusSignal c' = statusSignal c"
    "signal_closed c' = signal_closed c" "incoming c' = incoming c" "sent \<in> {[], [NewAck (conn_id c) (SeqNum m)]}"
    "running c' = running c" "receiving c' = receiving c" "udp_open c' = udp_open c" "windows c' = windows c"
    by simp_all
qed

lemma typed_client_incoming:
  assumes "typed_client i c" and "down_msg i m" and "client_on_incoming m c = (c', sent)"
  shows "typed_client i c' \<and> (\<forall>m \<in> set sent. up_msg i m) \<and> (signal_closed c \<longrightarrow> signal_closed c') \<and>
    incoming c' = incoming c"
proof (cases "Type m")
  case MsgData
  then have d: "client_on_data m (c\<lparr>epochCount := 0\<rparr>) = (c', sent)" using assms(3) by (simp add: client_on_incoming_def)
  note f = client_on_data_frame [OF d]
  have "typed_client i c'" using assms(1) by (simp add: typed_client_def f outbox_def)
  moreover have "conn_id c \<in> {i, -1}" using assms(1) by (auto simp: typed_client_def split: if_splits)
  ultimately show ?thesis using f(5,6,7) by (auto simp: up_msg_def)
next
  case MsgAck
  then obtain n where m: "m = NewAck i n" using assms(2) by (auto simp: down_msg_def data_msg_def)
  have c': "c' = client_on_ack m (c\<lparr>epochCount := 0\<rparr>)" "sent = []"
    using assms(3) MsgAck by (simp_all add: client_on_incoming_def)
  show ?thesis
  proof (cases "gm_get (tbuffer c) n")
    case None
    then have "c' = c\<lparr>epochCount := 0\<rparr>" using c' m by (simp add: client_on_ack_def)
    then show ?thesis using assms(1) c'(2) by (simp add: typed_client_def outbox_def)
  next
    case (Some v)
    then have v: "(n, v) \<in> set (tbuffer c)" by (rule map_of_SomeD)
    show ?thesis
    proof (cases "signal_closed c")
      case True
      then have "data_msg i v" using assms(1) v by (force simp: typed_client_def outbox_def)
      then have "c' = c\<lparr>epochCount := 0, tbuffer := gm_del n (tbuffer c)\<rparr>"
        using c' m Some by (simp add: client_on_ack_def data_msg_def)
      then show ?thesis
        using assms(1) c'(2) True gm_del_subset [of n "tbuffer c"] by (auto simp: typed_client_def outbox_def)
    next
      case False
      then have c: "conn_id c = -1" "tmsg c = []" "set (tbuffer c) \<subseteq> {(0, NewConnect)}" "statusSignal c = []"
        using assms(1) by (auto simp: typed_client_def)
      then have nv: "n = 0" "v = NewConnect" using v by auto
      then have "c' = c\<lparr>epochCount := 0, conn_id := i, signal_closed := True, tbuffer := gm_del 0 (tbuffer c)\<rparr>"
        using c' m Some c(1) by (simp add: client_on_ack_def)
      moreover have "set (gm_del 0 (tbuffer c)) = {}" using c(3) by (auto simp: AList.delete_eq)
      ultimately show ?thesis using c(2,4) c'(2) by (simp add: typed_client_def outbox_def)
    qed
  qed
qed (use assms(2) in \<open>auto simp: down_msg_def data_msg_def\<close>)

lemma typed_client_timer:
  assumes "typed_client i c" and "client_on_timer c = (c', sent)"
  shows "typed_client i c' \<and> (\<forall>m \<in> set sent. up_msg i m) \<and> signal_closed c' = signal_closed c \<and>
    incoming c' = incoming c"
proof -
  have f: "tbuffer c' = tbuffer c" "tmsg c' = tmsg c" "conn_id c' = conn_id c" "statusSignal c' = statusSignal c"
      "signal_closed c' = signal_closed c" "incoming c' = incoming c"
    using assms(2) by (auto simp: client_on_timer_def Let_def split: if_splits)
  have "set sent \<subseteq> {NewConnect, NewAck (conn_id c) 0} \<union> snd ` set (tbuffer c)"
    using assms(2) by (auto simp: client_on_timer_def Let_def split: if_splits)
  moreover have "up_msg i NewConnect" "up_msg i (NewAck (conn_id c) 0)"
    using typed_client_id [OF assms(1)] by (auto simp: up_msg_def)
  ultimately have "\<forall>m \<in> set sent. up_msg i m" using typed_client_buffer [OF assms(1)] by blast
  then show ?thesis using assms(1) typed_client_same [OF f(1-5)] f by blast
qed

lemma typed_client_send:
  assumes "typed_client i c" and "send_next c = (c', sent)"
  shows "typed_client i c' \<and> (\<forall>m \<in> set sent. up_msg i m) \<and> signal_closed c' = signal_closed c \<and>
    incoming c' = incoming c"
proof -
  have f: "signal_closed c' = signal_closed c" "incoming c' = incoming c" "conn_id c' = conn_id c"
      "statusSignal c' = statusSignal c"
    by (subst send_next_upd [OF assms(2)], simp)+
  show ?thesis
  proof (cases "signal_closed c")
    case True
    then show ?thesis using assms(1) send_next_outbox [OF assms(2), of i] f by (simp add: typed_client_def up_msg_def)
  next
    case False
    then have "tmsg c = []" using assms(1) by (simp add: typed_client_def)
    then have "c' = c \<and> sent = []" using assms(2) by (simp add: send_next_def split: if_splits)
    then show ?thesis using assms(1) by simp
  qed
qed

lemma typed_client_handler:
  assumes "typed_client i c" and "\<forall>m \<in> set (incoming c). down_msg i m" and "client_handler e c = Some (c', sent)"
  shows "typed_client i c' \<and> (\<forall>m \<in> set sent. up_msg i m) \<and> (signal_closed c \<longrightarrow> signal_closed c') \<and>
    set (incoming c') \<subseteq> set (incoming c)"
proof -
  consider (close) "c' = c\<lparr>ep_status := handlerClosed, running := False\<rparr>" "sent = []"
    | (inc) m ms where "incoming c = m # ms" "client_on_incoming m (c\<lparr>incoming := ms\<rparr>) = (c', sent)"
    | (timer) "client_on_timer c = (c', sent)" | (send) "send_next c = (c', sent)"
    using assms(3) by (cases e) (auto simp: client_handler_def split: if_splits list.splits)
  then show ?thesis
  proof cases
    case close
    have "typed_client i c' = typed_client i c" by (rule typed_client_same) (simp_all add: close)
    with assms(1) show ?thesis by (simp add: close)
  next
    case inc
    have "typed_client i (c\<lparr>incoming := ms\<rparr>) = typed_client i c" by (rule typed_client_same) simp_all
    then show ?thesis using typed_client_incoming [of i "c\<lparr>incoming := ms\<rparr>" m c' sent] inc assms(1,2) by auto
  next
    case timer
    from typed_client_timer [OF assms(1) this] show ?thesis by simp
  next
    case send
    from typed_client_send [OF assms(1) this] show ?thesis by simp
  qed
qed

text \<open>The other steps of the client; a payload is written only once the number is known.\<close>

lemma typed_client_other:
  assumes "typed_client i c" and "client_exec e c = Some (c', sent)" and "\<And>h. e \<noteq> CHandler h"
    and "\<forall>m. e \<noteq> CReceive (Some m)"
  shows "typed_client i c' \<and> sent = [] \<and> signal_closed c' = signal_closed c \<and> incoming c' = incoming c \<and>
    (written_by e \<noteq> [] \<longrightarrow> signal_closed c)"
proof (cases "\<exists>p. e = CWrite p")
  case True
  then obtain p where e: "e = CWrite p" by blast
  then have "NewClient_result c \<noteq> None" using assms(2) by (auto split: if_splits)
  then have "signal_closed c" using assms(1) by (auto simp: NewClient_result_def recv_signal_def typed_client_def split: if_splits)
  moreover have "c' = c\<lparr>tmsg := tmsg c @ [NewData (conn_id c) (-1) (int (length p)) p]\<rparr>" "sent = []"
    using assms(2) e by (auto simp: client_Write_def split: if_splits)
  moreover have "data_msg i (NewData (conn_id c) (-1) (int (length p)) p)"
    using assms(1) \<open>signal_closed c\<close> by (simp add: typed_client_def data_msg_def)
  ultimately show ?thesis using assms(1) by (simp add: typed_client_def outbox_def ball_Un)
next
  case False
  have o: "tbuffer c' = tbuffer c" "sent = []" "statusSignal c' = statusSignal c" "signal_closed c' = signal_closed c"
    using client_exec_other [OF assms(2,3)] by blast+
  have "tmsg c' = tmsg c" "conn_id c' = conn_id c" "incoming c' = incoming c" "written_by e = []"
    using assms(2-4) False by (cases e; auto simp: client_step_defs Let_def written_by_def
        split: if_splits option.splits list.splits pick.splits)+
  then show ?thesis using typed_client_same [OF o(1) _ _ o(3,4)] o assms(1) by simp
qed

lemma conn_on_data_frame:
  assumes "r = conn_on_data m c"
  shows "tbuffer (cr_conn r) = tbuffer c \<and> tmsg (cr_conn r) = tmsg c \<and> conn_id (cr_conn r) = conn_id c \<and>
    ep_status (cr_conn r) = ep_status c \<and> incoming (cr_conn r) = incoming c \<and>
    set (cr_sent r) \<subseteq> {NewAck (conn_id c) (SeqNum m)}"
proof (cases "take_data m c")
  case None
  then show ?thesis by (simp add: assms conn_on_data_def quiet_result_def)
next
  case (Some p)
  then obtain c1 out where p: "take_data m c = Some (c1, out)" by (cases p) auto
  then have "r = (quiet_result c1 [NewAck (conn_id c1) (SeqNum m)])\<lparr>cr_rmsg := out\<rparr>"
    by (simp add: assms conn_on_data_def)
  then show ?thesis using take_data_frame [OF p] by (simp add: quiet_result_def)
qed

lemma typed_conn_same:
  "tbuffer c' = tbuffer c \<Longrightarrow> tmsg c' = tmsg c \<Longrightarrow> conn_id c' = conn_id c \<Longrightarrow> typed_conn i c' = typed_conn i c"
  by (simp add: typed_conn_def outbox_def)

lemma typed_conn_incoming:
  assumes "typed_conn i c" and "r = conn_on_incoming m c"
  shows "typed_conn i (cr_conn r) \<and> (\<forall>m \<in> set (cr_sent r). down_msg i m)"
proof (cases "Type m")
  case MsgData
  then have "r = conn_on_data m (c\<lparr>epochCount := 0\<rparr>)" using assms(2) by (simp add: conn_on_incoming_def)
  note f = conn_on_data_frame [OF this]
  have "typed_conn i (cr_conn r) = typed_conn i c" by (rule typed_conn_same) (use f in simp_all)
  moreover have "down_msg i (NewAck (conn_id c) (SeqNum m))" using assms(1) by (auto simp: down_msg_def typed_conn_def)
  ultimately show ?thesis using assms(1) f by auto
next
  case MsgAck
  then have r: "cr_conn r = conn_on_ack m (c\<lparr>epochCount := 0\<rparr>)" "cr_sent r = []"
    using assms(2) by (auto simp: conn_on_incoming_def quiet_result_def)
  have "\<forall>m \<in> outbox (c\<lparr>tbuffer := gm_del k (tbuffer c)\<rparr>). data_msg i m" for k
    by (rule outbox_del) (use assms(1) in \<open>simp add: typed_conn_def\<close>)
  then show ?thesis using assms(1) r by (simp add: conn_on_ack_def typed_conn_def outbox_def)
qed (use assms in \<open>simp_all add: conn_on_incoming_def quiet_result_def typed_conn_def outbox_def\<close>)

lemma typed_conn_handle:
  assumes "typed_conn i c" and "handleClient b e c = Some r"
  shows "typed_conn i (cr_conn r) \<and> (\<forall>m \<in> set (cr_sent r). down_msg i m)"
proof -
  consider (close) "cr_conn r = c\<lparr>ep_status := handlerClosed, running := False\<rparr>" "cr_sent r = []"
    | (inc) m ms where "r = conn_on_incoming m (c\<lparr>incoming := ms\<rparr>)"
    | (timer) "r = conn_on_timer c" | (send) "r = conn_on_default b c"
    using assms(2) by (cases e) (auto simp: handleClient_def quiet_result_def split: if_splits list.splits)
  then show ?thesis
  proof cases
    case close
    have "typed_conn i (cr_conn r) = typed_conn i c" by (rule typed_conn_same) (simp_all add: close)
    with assms(1) show ?thesis by (simp add: close)
  next
    case inc
    have "typed_conn i (c\<lparr>incoming := ms\<rparr>) = typed_conn i c" by (rule typed_conn_same) simp_all
    then show ?thesis using typed_conn_incoming inc assms(1) by blast
  next
    case timer
    then have f: "tbuffer (cr_conn r) = tbuffer c" "tmsg (cr_conn r) = tmsg c" "conn_id (cr_conn r) = conn_id c"
      and s: "set (cr_sent r) \<subseteq> insert (NewAck (conn_id c) 0) (snd ` set (tbuffer c))"
      by (auto simp: conn_on_timer_def quiet_result_def Let_def split: if_splits)
    have "\<forall>m \<in> set (cr_sent r). down_msg i m"
      using s assms(1) unfolding typed_conn_def outbox_def down_msg_def by blast
    then show ?thesis using typed_conn_same [OF f] assms(1) by simp
  next
    case send
    obtain c1 ms where s: "send_next c = (c1, ms)" by fastforce
    then have r: "tbuffer (cr_conn r) = tbuffer c1" "tmsg (cr_conn r) = tmsg c1" "conn_id (cr_conn r) = conn_id c1" "cr_sent r = ms"
      using send by (auto simp: conn_on_default_def quiet_result_def Let_def)
    have "typed_conn i c1 \<and> (\<forall>m \<in> set ms. data_msg i m)"
      using send_next_outbox [OF s, of i] send_next_frame(5) [OF s] assms(1) by (simp add: typed_conn_def)
    then show ?thesis using typed_conn_same [OF r(1-3)] r(4) by (simp add: down_msg_def)
  qed
qed

lemma typed_init: "link_init cp sp i a k \<Longrightarrow> typed i k"
proof -
  assume init: "link_init cp sp i a k"
  then have c: "statusSignal (cli k) = []" "\<not> signal_closed (cli k)" "conn_id (cli k) = -1" "tmsg (cli k) = []"
      "tbuffer (cli k) = [(0, NewConnect)]" "incoming (cli k) = []" "c2s k = {NewConnect}"
    by (auto simp: link_init_def NewClient_def Let_def dest!: sym [of _ "cli k"])
  show ?thesis using init
    by (auto simp: link_init_def typed_def typed_client_def c typed_conn_def outbox_def new_clientInfo_def up_msg_def down_msg_def)
qed

lemma typed_step: "link_step k e k' \<Longrightarrow> typed i k \<Longrightarrow> typed i k'"
proof (induction rule: link_step.induct)
  case (client_moves e k c' sent)
  have t: "typed_client i (cli k)" "\<forall>m \<in> set (incoming (cli k)). down_msg i m"
    using client_moves(3) by (simp_all add: typed_def)
  show ?case
  proof (cases "\<exists>h. e = CHandler h")
    case True
    then obtain h where h: "e = CHandler h" "client_handler h (cli k) = Some (c', sent)" using client_moves(1) by auto
    from typed_client_handler [OF t h(2)] show ?thesis
      using client_moves(3) h(1) by (auto simp: typed_def written_by_def)
  next
    case False
    with typed_client_other [OF t(1) client_moves(1) _ client_moves(2)] show ?thesis
      using client_moves(3) by (auto simp: typed_def)
  qed
next
  case (server_moves b e k r)
  then show ?case using typed_conn_handle [of i "conn k" b e r] by (auto simp: typed_def)
next
  case (to_client m k c')
  then have "c' = (cli k)\<lparr>incoming := incoming (cli k) @ [m]\<rparr>"
    by (auto simp: client_receiver_def split: if_splits)
  moreover have "typed_client i ((cli k)\<lparr>incoming := x\<rparr>) = typed_client i (cli k)" for x
    by (rule typed_client_same) simp_all
  ultimately show ?case using to_client by (auto simp: typed_def)
next
  case (to_server m k)
  have "typed_conn i ((conn k)\<lparr>incoming := x\<rparr>) = typed_conn i (conn k)" for x by (rule typed_conn_same) simp_all
  then show ?case using to_server by (simp add: typed_def)
next
  case (server_write k p)
  have "data_msg i (NewData (conn_id (conn k)) (-1) (int (length p)) p)"
    using server_write by (simp add: typed_def typed_conn_def data_msg_def)
  then show ?case using server_write by (simp add: typed_def typed_conn_def outbox_def ball_Un)
next
  case (server_status k st)
  have "typed_conn i ((conn k)\<lparr>ep_status := st\<rparr>) = typed_conn i (conn k)" by (rule typed_conn_same) simp_all
  then show ?case using server_status by (simp add: typed_def)
qed

interpretation link_types: inductive_invariant "link_init cp sp i a" link_step "typed i"
  for cp sp i a
  by unfold_locales (auto intro: typed_init typed_step)

section \<open>A connection that is up\<close>

text \<open>
  The client has its number, neither handler has returned, the client's socket is open and the
  server has not begun to close the connection.
\<close>

definition up_client :: "int \<Rightarrow> client \<Rightarrow> bool" where
  "up_client i c \<longleftrightarrow> running c \<and> receiving c \<and> udp_open c \<and> 0 < windows c \<and> typed_client i c \<and> signal_closed c \<and>
     gm_wf (tbuffer c) \<and> (\<forall>n m. gm_get (tbuffer c) n = Some m \<longrightarrow> SeqNum m = n)"

definition up_conn :: "int \<Rightarrow> clientInfo \<Rightarrow> bool" where
  "up_conn i c \<longleftrightarrow> running c \<and> ep_status c \<noteq> startClosing \<and> conn_id c = i"

text \<open>Every unacknowledged message is on the wire and the application has written \<open>w\<close>.\<close>

definition up :: "int \<Rightarrow> bytes list \<Rightarrow> link \<Rightarrow> bool" where
  "up i w k \<longleftrightarrow> up_client i (cli k) \<and> up_conn i (conn k) \<and> (\<forall>m \<in> set (incoming (cli k)). down_msg i m) \<and>
     snd ` set (tbuffer (cli k)) \<subseteq> c2s k \<and> c_written k = w"

lemma up_client_same:
  assumes "tbuffer c' = tbuffer c" "tmsg c' = tmsg c" "conn_id c' = conn_id c" "statusSignal c' = statusSignal c"
    "signal_closed c' = signal_closed c" "running c' = running c" "receiving c' = receiving c"
    "udp_open c' = udp_open c" "windows c' = windows c"
  shows "up_client i c' = up_client i c"
  using typed_client_same [OF assms(1-5)] assms by (simp add: up_client_def)

lemma up_client_data: "up_client i c \<Longrightarrow> (n, m) \<in> set (tbuffer c) \<Longrightarrow> data_msg i m \<and> SeqNum m = n"
proof -
  assume c: "up_client i c" and nm: "(n, m) \<in> set (tbuffer c)"
  have "m \<in> outbox c" using nm by (force simp: outbox_def)
  moreover have "gm_get (tbuffer c) n = Some m" using c nm by (simp add: up_client_def gm_get_mem)
  ultimately show ?thesis using c by (simp add: up_client_def typed_client_def)
qed

lemma up_client_ack:
  assumes "up_client i c"
  shows "client_on_incoming (NewAck i n) c = (c\<lparr>epochCount := 0, tbuffer := gm_del n (tbuffer c)\<rparr>, [])"
proof (cases "gm_get (tbuffer c) n")
  case None
  then show ?thesis by (simp add: client_on_incoming_def client_on_ack_def gm_del_absent)
next
  case (Some v)
  then have "data_msg i v" using up_client_data [OF assms map_of_SomeD] by blast
  then show ?thesis using Some by (simp add: client_on_incoming_def client_on_ack_def data_msg_def)
qed

lemma up_client_del: "up_client i c \<Longrightarrow> up_client i (c\<lparr>epochCount := e, tbuffer := gm_del n (tbuffer c)\<rparr>)"
  using outbox_del [of c "data_msg i" n] by (simp add: up_client_def typed_client_def outbox_def)

lemma up_client_incoming:
  assumes "up_client i c" and "down_msg i m" and "client_on_incoming m c = (c', sent)"
  shows "up_client i c' \<and> incoming c' = incoming c \<and> set (tbuffer c') \<subseteq> set (tbuffer c)"
proof (cases "Type m")
  case MsgData
  then have d: "client_on_data m (c\<lparr>epochCount := 0\<rparr>) = (c', sent)" using assms(3) by (simp add: client_on_incoming_def)
  note f = client_on_data_frame [OF d]
  have "up_client i c' = up_client i c" by (rule up_client_same) (use f in simp_all)
  with assms(1) f(1,6) show ?thesis by simp
next
  case MsgAck
  then obtain n where "m = NewAck i n" using assms(2) by (auto simp: down_msg_def data_msg_def)
  then have "c' = c\<lparr>epochCount := 0, tbuffer := gm_del n (tbuffer c)\<rparr>" using assms(3) up_client_ack [OF assms(1)] by simp
  then show ?thesis using up_client_del [OF assms(1)] gm_del_subset [of n "tbuffer c"] by simp
qed (use assms(2) in \<open>auto simp: down_msg_def data_msg_def\<close>)

section \<open>Progress\<close>

lemmas link_go = can_reach_step [of link_step]
lemmas link_then = can_reach_trans [of link_step]

text \<open>The application at the client reads all that has been delivered.\<close>

lemma read_all_delivered: "can_reach link_step k (\<lambda>k'. k' = k\<lparr>cli := (cli k)\<lparr>rmsg := []\<rparr>\<rparr>)"
proof (induction "rmsg (cli k)" arbitrary: k)
  case Nil
  then have "k = k\<lparr>cli := (cli k)\<lparr>rmsg := []\<rparr>\<rparr>" by (cases k; cases "cli k") simp
  then show ?case by (rule can_reach_now)
next
  case (Cons d ds)
  let ?k = "k\<lparr>cli := (cli k)\<lparr>rmsg := ds\<rparr>\<rparr>"
  have "client_exec (CRead PickData) (cli k) = Some ((cli k)\<lparr>rmsg := ds\<rparr>, [])"
    using Cons(2) [symmetric] by (simp add: client_Read_def)
  from client_moves [OF this] have "link_step k (KClient (CRead PickData)) ?k"
    by (simp add: written_by_def delivered_by_def)
  moreover have "can_reach link_step ?k (\<lambda>k'. k' = k\<lparr>cli := (cli k)\<lparr>rmsg := []\<rparr>\<rparr>)"
    using Cons(1) [of ?k] by simp
  ultimately show ?case by (rule can_reach_step)
qed

lemma up_read: "up i w (k\<lparr>cli := (cli k)\<lparr>rmsg := ds\<rparr>\<rparr>) = up i w k"
  using up_client_same [of "(cli k)\<lparr>rmsg := ds\<rparr>" "cli k" i] by (simp add: up_def)

text \<open>An iteration of the client's handler.\<close>

lemma client_handler_link:
  assumes "client_handler e (cli k) = Some (c', sent)"
  shows "link_step k (KClient (CHandler e)) (k\<lparr>cli := c', c2s := c2s k \<union> set sent,
    c_delivered := c_delivered k @ drop (length (rmsg (cli k))) (rmsg c')\<rparr>)"
  using client_moves [of "CHandler e" k c' sent] assms by (simp add: written_by_def delivered_by_def)

lemma up_client_step:
  assumes "up i w k" and "up_client i c'" and "set (incoming c') \<subseteq> set (incoming (cli k))"
    and "set (tbuffer c') \<subseteq> set (tbuffer (cli k))"
  shows "up i w (k\<lparr>cli := c', c2s := c2s k \<union> S, c_delivered := D\<rparr>)"
proof -
  have "snd ` set (tbuffer c') \<subseteq> snd ` set (tbuffer (cli k))" using assms(4) by (rule image_mono)
  then have "snd ` set (tbuffer c') \<subseteq> c2s k \<union> S" using assms(1) unfolding up_def by blast
  then show ?thesis using assms(1-3) unfolding up_def by auto
qed

definition flushed :: "bytes list \<Rightarrow> link \<Rightarrow> bool" where
  "flushed w k \<longleftrightarrow> tbuffer (cli k) = [] \<and> tmsg (cli k) = [] \<and> c_written k = w"

definition calm_up :: "int \<Rightarrow> bytes list \<Rightarrow> link \<Rightarrow> bool" where
  "calm_up i w k \<longleftrightarrow> up i w k \<and> incoming (cli k) = [] \<and> rmsg (cli k) = []"

text \<open>The client works off its queue, or its close guard holds and nothing is left to send.\<close>

lemma client_drains: "up i w k \<Longrightarrow> can_reach link_step k (\<lambda>k'. flushed w k' \<or> calm_up i w k')"
proof (induction "incoming (cli k)" arbitrary: k)
  case Nil
  show ?case
    by (rule can_reach_mono [OF read_all_delivered])
      (use Nil up_read in \<open>simp add: calm_up_def\<close>)
next
  case (Cons m ms)
  let ?k = "k\<lparr>cli := (cli k)\<lparr>rmsg := []\<rparr>\<rparr>"
  have up: "up i w ?k" using Cons(3) by (simp add: up_read)
  have "can_reach link_step ?k (\<lambda>k'. flushed w k' \<or> calm_up i w k')"
  proof (cases "close_ready (cli ?k)")
    case True
    then have "flushed w ?k" using up by (simp add: flushed_def close_ready_def up_def)
    then show ?thesis by (intro can_reach_now) simp
  next
    case False
    let ?c = "(cli ?k)\<lparr>incoming := ms\<rparr>"
    obtain c' sent where m: "client_on_incoming m ?c = (c', sent)" by fastforce
    have inc: "incoming (cli ?k) = m # ms" using Cons(2) by simp
    have h: "client_handler EvIncoming (cli ?k) = Some (c', sent)"
      using False inc m up by (simp add: client_handler_def up_def up_client_def)
    have "up_client i ?c = up_client i (cli ?k)" by (rule up_client_same) simp_all
    then have c': "up_client i c' \<and> incoming c' = ms \<and> set (tbuffer c') \<subseteq> set (tbuffer (cli ?k))"
      using up_client_incoming [of i ?c m c' sent] m up inc by (auto simp: up_def)
    have up': "up i w (?k\<lparr>cli := c', c2s := c2s ?k \<union> S, c_delivered := D\<rparr>)" for S D
      by (rule up_client_step [OF up]) (use c' inc in auto)
    show ?thesis
      by (rule link_go [OF client_handler_link [OF h]], rule Cons(1)) (use c' up' in simp_all)
  qed
  then show ?case using link_then [OF read_all_delivered [of k]] by blast
qed

text \<open>The server works off the queue of the connection and acknowledges every data message.\<close>

lemma conn_takes:
  assumes "up_conn i c" and "incoming c = m # ms"
  shows "\<exists>r. handleClient False EvIncoming c = Some r \<and> up_conn i (cr_conn r) \<and> incoming (cr_conn r) = ms \<and>
    (data_msg i m \<longrightarrow> NewAck i (SeqNum m) \<in> set (cr_sent r))"
proof -
  let ?c = "c\<lparr>incoming := ms, epochCount := 0\<rparr>"
  have h: "handleClient False EvIncoming c = Some (conn_on_incoming m (c\<lparr>incoming := ms\<rparr>))"
    using assms by (simp add: handleClient_def up_conn_def close_ready_def)
  have c: "up_conn i ?c" "incoming ?c = ms" using assms(1) by (simp_all add: up_conn_def)
  show ?thesis
  proof (cases "Type m")
    case MsgData
    show ?thesis
    proof (cases "take_data m ?c")
      case None
      then have "\<not> data_msg i m" by (auto simp: take_data_def data_msg_def Let_def split: if_splits)
      then show ?thesis using h c MsgData None by (simp add: conn_on_incoming_def conn_on_data_def quiet_result_def)
    next
      case (Some p)
      then obtain c1 out where p: "take_data m ?c = Some (c1, out)" by (cases p) auto
      have "running c1 = running ?c" by (subst take_data_upd [OF p]) simp
      then have "up_conn i c1 \<and> incoming c1 = ms" using c take_data_frame [OF p] by (simp add: up_conn_def)
      then show ?thesis using h MsgData p by (simp add: conn_on_incoming_def conn_on_data_def quiet_result_def up_conn_def)
    qed
  next
    case MsgAck
    then have h': "handleClient False EvIncoming c = Some (quiet_result (conn_on_ack m ?c) [])"
      using h by (simp add: conn_on_incoming_def)
    have "up_conn i (conn_on_ack m ?c) \<and> incoming (conn_on_ack m ?c) = ms"
      using c by (simp add: conn_on_ack_def up_conn_def)
    then show ?thesis using h' MsgAck by (simp add: quiet_result_def data_msg_def)
  qed (use h c in \<open>simp_all add: conn_on_incoming_def quiet_result_def data_msg_def\<close>)
qed

definition same_client :: "link \<Rightarrow> link \<Rightarrow> bool" where
  "same_client k k' \<longleftrightarrow> cli k' = cli k \<and> c2s k' = c2s k \<and> c_written k' = c_written k \<and> s2c k \<subseteq> s2c k'"

lemma conn_drains:
  "up_conn i (conn k) \<Longrightarrow> can_reach link_step k (\<lambda>k'. same_client k k' \<and> up_conn i (conn k') \<and>
     (\<forall>m \<in> set (incoming (conn k)). data_msg i m \<longrightarrow> NewAck i (SeqNum m) \<in> s2c k'))"
proof (induction "incoming (conn k)" arbitrary: k)
  case Nil
  then show ?case by (intro can_reach_now) (simp add: same_client_def)
next
  case (Cons m ms)
  obtain rr where rr: "handleClient False EvIncoming (conn k) = Some rr" "up_conn i (cr_conn rr)"
      "incoming (cr_conn rr) = ms" "data_msg i m \<longrightarrow> NewAck i (SeqNum m) \<in> set (cr_sent rr)"
    using conn_takes [OF Cons(3) Cons(2) [symmetric]] by blast
  let ?k = "k\<lparr>conn := cr_conn rr, s2c := s2c k \<union> set (cr_sent rr), s_delivered := s_delivered k @ cr_rmsg rr\<rparr>"
  have "can_reach link_step ?k (\<lambda>k'. same_client ?k k' \<and> up_conn i (conn k') \<and>
     (\<forall>m \<in> set (incoming (conn ?k)). data_msg i m \<longrightarrow> NewAck i (SeqNum m) \<in> s2c k'))"
    by (rule Cons(1)) (use rr in simp_all)
  then have "can_reach link_step ?k (\<lambda>k'. same_client k k' \<and> up_conn i (conn k') \<and>
     (\<forall>m \<in> set (incoming (conn k)). data_msg i m \<longrightarrow> NewAck i (SeqNum m) \<in> s2c k'))"
    by (rule can_reach_mono) (use rr(3,4) Cons(2) [symmetric] in \<open>auto simp: same_client_def\<close>)
  then show ?case by (rule link_go [OF server_moves [OF rr(1)]])
qed

text \<open>One unacknowledged message is delivered and its acknowledgement comes back.\<close>

lemma message_acked:
  assumes "calm_up i w k" and "(n, m) \<in> set (tbuffer (cli k))"
  shows "can_reach link_step k (\<lambda>k'. calm_up i w k' \<and> tbuffer (cli k') = gm_del n (tbuffer (cli k)) \<and>
    tmsg (cli k') = tmsg (cli k))"
proof -
  have up: "up_client i (cli k)" "up_conn i (conn k)" "snd ` set (tbuffer (cli k)) \<subseteq> c2s k" "c_written k = w"
      "incoming (cli k) = []" "rmsg (cli k) = []" using assms(1) by (simp_all add: calm_up_def up_def)
  have m: "data_msg i m" "SeqNum m = n" "m \<in> c2s k"
    using up_client_data [OF up(1) assms(2)] up(3) assms(2) by force+
  let ?k = "k\<lparr>conn := (conn k)\<lparr>incoming := incoming (conn k) @ [m]\<rparr>\<rparr>"
  have s: "link_step k (KToServer m) ?k"
    using m up(2) by (intro to_server) (simp_all add: data_msg_def up_conn_def)
  show ?thesis
  proof (rule link_go [OF s], rule link_then [OF conn_drains [of i ?k]])
    show "up_conn i (conn ?k)" using up(2) by (simp add: up_conn_def)
    fix k1
    assume k1: "same_client ?k k1 \<and> up_conn i (conn k1) \<and>
      (\<forall>m \<in> set (incoming (conn ?k)). data_msg i m \<longrightarrow> NewAck i (SeqNum m) \<in> s2c k1)"
    then have c: "cli k1 = cli k" "c2s k1 = c2s k" "c_written k1 = w" and a: "NewAck i n \<in> s2c k1"
      using m up(4) by (auto simp: same_client_def)
    let ?c = "(cli k)\<lparr>incoming := [NewAck i n]\<rparr>" and ?c' = "(cli k)\<lparr>epochCount := 0, tbuffer := gm_del n (tbuffer (cli k))\<rparr>"
    have "client_receiver (Some (NewAck i n)) (cli k1) = Some ?c"
      using up c by (simp add: client_receiver_def up_client_def incoming_cap_def)
    from to_client [OF a this] have s2: "link_step k1 (KToClient (NewAck i n)) (k1\<lparr>cli := ?c\<rparr>)" .
    have "up_client i ?c = up_client i (cli k)" by (rule up_client_same) simp_all
    moreover have "(cli k)\<lparr>incoming := []\<rparr> = cli k" using up(5) by (cases "cli k") simp
    ultimately have h: "client_handler EvIncoming (cli (k1\<lparr>cli := ?c\<rparr>)) = Some (?c', [])"
      using up(1,6) up_client_ack [OF up(1), of n] assms(2)
      by (auto simp: client_handler_def up_client_def close_ready_def)
    have "calm_up i w (k1\<lparr>cli := ?c'\<rparr>)"
    proof -
      have "snd ` set (gm_del n (tbuffer (cli k))) \<subseteq> snd ` set (tbuffer (cli k))" by (rule image_mono [OF gm_del_subset])
      then have "snd ` set (gm_del n (tbuffer (cli k))) \<subseteq> c2s k1" using up(3) c(2) by blast
      then show ?thesis using up(4-6) k1 c up_client_del [OF up(1), of n 0] by (simp add: calm_up_def up_def)
    qed
    then show "can_reach link_step k1 (\<lambda>k'. calm_up i w k' \<and> tbuffer (cli k') = gm_del n (tbuffer (cli k)) \<and>
        tmsg (cli k') = tmsg (cli k))"
      by (intro link_go [OF s2] link_go [OF client_handler_link [OF h]] can_reach_now) simp
  qed
qed

lemma all_acked:
  "calm_up i w k \<Longrightarrow> can_reach link_step k (\<lambda>k'. calm_up i w k' \<and> tbuffer (cli k') = [] \<and> tmsg (cli k') = tmsg (cli k))"
proof (induction "length (tbuffer (cli k))" arbitrary: k rule: less_induct)
  case less
  show ?case
  proof (cases "tbuffer (cli k)")
    case Nil
    then show ?thesis using less(2) by (intro can_reach_now) simp
  next
    case (Cons nm l)
    obtain n m where nm: "(n, m) \<in> set (tbuffer (cli k))" using Cons by (cases nm) auto
    have "gm_wf (tbuffer (cli k))" using less(2) by (simp add: calm_up_def up_def up_client_def)
    then have "gm_get (tbuffer (cli k)) n = Some m" using nm by (simp add: gm_get_mem)
    then have "length (gm_del n (tbuffer (cli k))) < length (tbuffer (cli k))" by (rule gm_del_shorter)
    then have "can_reach link_step t (\<lambda>k'. calm_up i w k' \<and> tbuffer (cli k') = [] \<and> tmsg (cli k') = tmsg (cli k))"
      if "calm_up i w t \<and> tbuffer (cli t) = gm_del n (tbuffer (cli k)) \<and> tmsg (cli t) = tmsg (cli k)" for t
      using less(1) [of t] that by simp
    then show ?thesis by (rule link_then [OF message_acked [OF less(2) nm]])
  qed
qed

text \<open>With nothing unacknowledged the window has room for the next message.\<close>

lemma next_sent:
  assumes "calm_up i w k" and "tbuffer (cli k) = []" and "tmsg (cli k) = m # ms"
  shows "\<exists>k'. link_step k (KClient (CHandler EvDefault)) k' \<and> calm_up i w k' \<and> tmsg (cli k') = ms"
proof -
  let ?c = "cli k" and ?m = "m\<lparr>SeqNum := tsq (cli k)\<rparr>"
  let ?c' = "(cli k)\<lparr>tmsg := ms, tbuffer := [(tsq (cli k), ?m)], tsq := tsq (cli k) + 1\<rparr>"
  have up: "up_client i ?c" "incoming ?c = []" "rmsg ?c = []" using assms(1) by (simp_all add: calm_up_def up_def)
  have s: "send_next ?c = (?c', [?m])"
    using assms(2,3) up(1) by (simp add: send_next_def minUnAcked_def up_client_def Let_def)
  then have h: "client_handler EvDefault ?c = Some (?c', [?m])"
    using up assms(3) by (simp add: client_handler_def close_ready_def up_client_def)
  have "typed_client i ?c'" using typed_client_send [OF _ s] up(1) by (simp add: up_client_def)
  then have "up_client i ?c'" using up(1) by (simp add: up_client_def gm_wf_def)
  then have "calm_up i w (k\<lparr>cli := ?c', c2s := insert ?m (c2s k)\<rparr>)"
    using assms(1) by (simp add: calm_up_def up_def)
  moreover have "link_step k (KClient (CHandler EvDefault)) (k\<lparr>cli := ?c', c2s := insert ?m (c2s k)\<rparr>)"
    using client_handler_link [OF h] by simp
  ultimately show ?thesis by (intro exI [of _ "k\<lparr>cli := ?c', c2s := insert ?m (c2s k)\<rparr>"]) simp
qed

lemma all_flushed: "calm_up i w k \<Longrightarrow> can_reach link_step k (flushed w)"
proof (induction "length (tmsg (cli k))" arbitrary: k)
  case 0
  then show ?case
    by (intro can_reach_mono [OF all_acked]) (auto simp: flushed_def calm_up_def up_def)
next
  case (Suc n)
  show ?case
  proof (rule link_then [OF all_acked [OF Suc(3)]])
    fix k1
    assume k1: "calm_up i w k1 \<and> tbuffer (cli k1) = [] \<and> tmsg (cli k1) = tmsg (cli k)"
    then obtain m ms where ms: "tmsg (cli k1) = m # ms" "n = length ms" using Suc(2) by (metis length_Suc_conv)
    from next_sent [OF _ _ ms(1)] k1 obtain k2 where k2: "link_step k1 (KClient (CHandler EvDefault)) k2"
      "calm_up i w k2" "tmsg (cli k2) = ms" by blast
    show "can_reach link_step k1 (flushed w)"
      by (rule link_go [OF k2(1)], rule Suc(1)) (use k2 ms in simp_all)
  qed
qed

text \<open>From a state of a connection that is up, whatever the wire has lost.\<close>

lemma up_flushes: "up i w k \<Longrightarrow> can_reach link_step k (flushed w)"
  by (rule link_then [OF client_drains]) (auto intro: can_reach_now all_flushed)

text \<open>A timer event puts every unacknowledged message on the wire again.\<close>

lemma resend:
  assumes "up_client i (cli k)" and "up_conn i (conn k)" and "\<forall>m \<in> set (incoming (cli k)). down_msg i m"
    and "epochCount (cli k) + 1 \<noteq> retries (cli k)"
  shows "can_reach link_step k (\<lambda>k'. flushed (c_written k) k' \<or> up i (c_written k) k')"
proof (rule link_then [OF read_all_delivered])
  fix k1
  assume k1: "k1 = k\<lparr>cli := (cli k)\<lparr>rmsg := []\<rparr>\<rparr>"
  show "can_reach link_step k1 (\<lambda>k'. flushed (c_written k) k' \<or> up i (c_written k) k')"
  proof (cases "close_ready (cli k1)")
    case True
    then show ?thesis using k1 by (intro can_reach_now) (simp add: flushed_def close_ready_def)
  next
    case False
    let ?c' = "(cli k1)\<lparr>epochCount := epochCount (cli k) + 1\<rparr>"
    obtain sent where t: "client_on_timer (cli k1) = (?c', sent @ map snd (tbuffer (cli k)))"
      using k1 assms(4) by (auto simp: client_on_timer_def Let_def)
    then have h: "client_handler EvTimer (cli k1) = Some (?c', sent @ map snd (tbuffer (cli k)))"
      using False k1 assms(1) by (simp add: client_handler_def up_client_def)
    have "up_client i ?c' = up_client i (cli k)" by (rule up_client_same) (simp_all add: k1)
    then have "up i (c_written k) (k1\<lparr>cli := ?c', c2s := c2s k1 \<union> (set sent \<union> snd ` set (tbuffer (cli k)))\<rparr>)"
      using assms(1-3) k1 by (auto simp: up_def)
    then show ?thesis using k1 by (intro link_go [OF client_handler_link [OF h]] can_reach_now) simp
  qed
qed

text \<open>A run is possible as well when more messages are on the wire.\<close>

lemma link_step_more:
  "link_step k e k' \<Longrightarrow> link_step (k\<lparr>c2s := c2s k \<union> A, s2c := s2c k \<union> B\<rparr>) e (k'\<lparr>c2s := c2s k' \<union> A, s2c := s2c k' \<union> B\<rparr>)"
proof (induction rule: link_step.induct)
  case (client_moves e k c' sent)
  then show ?case
    using link_step.client_moves [of e "k\<lparr>c2s := c2s k \<union> A, s2c := s2c k \<union> B\<rparr>" c' sent] by (cases k) (simp add: Un_ac)
next
  case (server_moves b e k r)
  then show ?case
    using link_step.server_moves [of b e "k\<lparr>c2s := c2s k \<union> A, s2c := s2c k \<union> B\<rparr>" r] by (cases k) (simp add: Un_ac)
next
  case (to_client m k c')
  then show ?case using link_step.to_client [of m "k\<lparr>c2s := c2s k \<union> A, s2c := s2c k \<union> B\<rparr>" c'] by (cases k) simp
next
  case (to_server m k)
  then show ?case using link_step.to_server [of m "k\<lparr>c2s := c2s k \<union> A, s2c := s2c k \<union> B\<rparr>"] by (cases k) simp
next
  case (server_write k p)
  then show ?case using link_step.server_write [of "k\<lparr>c2s := c2s k \<union> A, s2c := s2c k \<union> B\<rparr>" p] by (cases k) simp
next
  case (server_status k st)
  then show ?case using link_step.server_status [of "k\<lparr>c2s := c2s k \<union> A, s2c := s2c k \<union> B\<rparr>" st] by (cases k) simp
qed

lemma link_steps_more:
  "steps link_step k es k' \<Longrightarrow>
   steps link_step (k\<lparr>c2s := c2s k \<union> A, s2c := s2c k \<union> B\<rparr>) es (k'\<lparr>c2s := c2s k' \<union> A, s2c := s2c k' \<union> B\<rparr>)"
  by (induction rule: steps.induct) (auto simp: steps_simps dest: link_step_more)

lemma up_client_reach:
  assumes "link_inv k" and "typed i k" and "signal_closed (cli k)" and "running (cli k)" and "receiving (cli k)"
    and "udp_open (cli k)" and "0 < windows (cli k)"
  shows "up_client i (cli k)"
proof -
  obtain L where ok: "sender_ok L (cli k)" using assms(1) by (auto simp: link_inv_def dir_inv_def)
  have "SeqNum m = n" if "gm_get (tbuffer (cli k)) n = Some m" for n m
  proof -
    have "data_msg i m" using assms(2,3) map_of_SomeD [OF that] by (force simp: typed_def typed_client_def outbox_def)
    moreover have "buf_ok L n m" using ok that by (simp add: sender_ok_def)
    ultimately show ?thesis by (auto simp: buf_ok_def data_msg_def)
  qed
  then show ?thesis using assms ok by (simp add: up_client_def typed_def sender_ok_def)
qed

lemma delivered_when_flushed: "link_inv k \<Longrightarrow> flushed w k \<Longrightarrow> s_delivered k = w"
  by (erule link_invE) (use dir_inv_all_acked in \<open>fastforce simp: flushed_def\<close>)

section \<open>Properties\<close>

text \<open>
  C6: what is on the wire is well formed. In every reachable state of a connection with number
  \<open>i\<close>, every message the client has sent is the connect message, an acknowledgement without
  payload that carries the number of the connection (or -1, while the client does not know it),
  or a data message of the connection with a positive sequence number whose size is the length
  of its payload; the server sends only such acknowledgements and data messages. The client
  knows its number as soon as \<open>NewClient\<close> has returned.
\<close>

theorem lsp_messages_well_formed:
  assumes "reach (link_init cp sp i a) link_step k"
  shows "(\<forall>m \<in> c2s k. up_msg i m \<and> (Type m = MsgData \<longrightarrow> 1 \<le> SeqNum m)) \<and>
    (\<forall>m \<in> s2c k. down_msg i m \<and> (Type m = MsgData \<longrightarrow> 1 \<le> SeqNum m)) \<and>
    (NewClient_result (cli k) \<noteq> None \<longrightarrow> NewClient_result (cli k) = Some (Inr i))"
proof -
  have inv: "link_inv k" "typed i k"
    using link.reach_inv [OF assms] link_types.reach_inv [OF assms] by blast+
  have "\<forall>m \<in> c2s k \<union> s2c k. Type m = MsgData \<longrightarrow> 1 \<le> SeqNum m"
    using inv(1) by (auto simp: link_inv_def dir_inv_def data_ok_def carries_def)
  moreover have "NewClient_result (cli k) \<noteq> None \<longrightarrow> NewClient_result (cli k) = Some (Inr i)"
    using inv(2) by (auto simp: typed_def typed_client_def NewClient_result_def recv_signal_def split: if_splits)
  ultimately show ?thesis using inv(2) by (auto simp: typed_def)
qed

theorem lsp_messages_well_formed_witness:
  "\<exists>k. run_opt link_exec first_exchange link_start = Some k \<and> (\<forall>m \<in> c2s k. up_msg 73 m \<and> (Type m = MsgData \<longrightarrow> 1 \<le> SeqNum m))"
proof -
  obtain k where k: "run_opt link_exec first_exchange link_start = Some k"
    using first_exchange_result by (auto split: option.splits)
  from lsp_messages_well_formed [OF first_exchange_reach [OF k]] k show ?thesis by blast
qed

text \<open>
  C5: the protocol recovers from every loss. Take any reachable state of a connection that has
  not been declared lost: the client's handler, receiver and socket are working, its next timer
  event does not reach the epoch limit, and the server's handler is working and has not been
  told to close. Suppose that every message on the wire is lost. Then the two ends can go on,
  with messages they send from now on only, to a state in which everything the client had
  written has been delivered to the server's read channel. The client may have begun to close.
\<close>

theorem lsp_recovers_from_loss:
  assumes "reach (link_init cp sp i a) link_step k"
    and "running (cli k)" and "receiving (cli k)" and "udp_open (cli k)" and "0 < windows (cli k)"
    and "epochCount (cli k) + 1 \<noteq> retries (cli k)"
    and "running (conn k)" and "ep_status (conn k) \<noteq> startClosing"
  shows "\<exists>es k'. steps link_step (k\<lparr>c2s := {}, s2c := {}\<rparr>) es k' \<and>
    c_written k' = c_written k \<and> s_delivered k' = c_written k"
proof -
  let ?k = "k\<lparr>c2s := {}, s2c := {}\<rparr>"
  have inv: "link_inv k" "typed i k"
    using link.reach_inv [OF assms(1)] link_types.reach_inv [OF assms(1)] by blast+
  show ?thesis
  proof (cases "signal_closed (cli k)")
    case False
    then have "c_written k = []" using inv(2) by (simp add: typed_def)
    then have "s_delivered ?k = c_written k" using link_inv_prefixes [OF inv(1)] by fastforce
    then show ?thesis by (intro exI [of _ "[]"] exI [of _ ?k]) (simp add: steps_Nil)
  next
    case True
    have up: "up_client i (cli ?k)" "up_conn i (conn ?k)" "\<forall>m \<in> set (incoming (cli ?k)). down_msg i m"
      "epochCount (cli ?k) + 1 \<noteq> retries (cli ?k)"
      using up_client_reach [OF inv True assms(2-5)] assms(6-8) inv(2) by (simp_all add: up_conn_def typed_def typed_conn_def)
    have "can_reach link_step ?k (flushed (c_written k))"
      using link_then [OF resend [OF up]] up_flushes can_reach_now by (metis (no_types, lifting) link.select_convs(5) link.surjective link.update_convs(3,4))
    then obtain es k' where k': "steps link_step ?k es k'" "flushed (c_written k) k'" by (auto simp: can_reach_def)
    have "steps link_step k es (k'\<lparr>c2s := c2s k' \<union> c2s k, s2c := s2c k' \<union> s2c k\<rparr>)"
      using link_steps_more [OF k'(1), where A = "c2s k" and B = "s2c k"] by simp
    then have "link_inv (k'\<lparr>c2s := c2s k' \<union> c2s k, s2c := s2c k' \<union> s2c k\<rparr>)" using link.steps_inv inv(1) by blast
    then have "s_delivered k' = c_written k"
      using delivered_when_flushed [of "k'\<lparr>c2s := c2s k' \<union> c2s k, s2c := s2c k' \<union> s2c k\<rparr>" "c_written k"] k'(2)
      by (simp add: flushed_def)
    then show ?thesis using k' by (auto simp: flushed_def)
  qed
qed

lemma first_exchange_up:
  "case run_opt link_exec first_exchange link_start of None \<Rightarrow> False
   | Some k \<Rightarrow> running (cli k) \<and> receiving (cli k) \<and> udp_open (cli k) \<and> 0 < windows (cli k) \<and>
       epochCount (cli k) + 1 \<noteq> retries (cli k) \<and> running (conn k) \<and> ep_status (conn k) \<noteq> startClosing \<and>
       c_written k = [''hi'', ''yo''] \<and> s_delivered k = [''hi'']"
  by code_simp

theorem lsp_recovers_from_loss_witness:
  "\<exists>k es k'. run_opt link_exec first_exchange link_start = Some k \<and> s_delivered k = [''hi''] \<and>
     steps link_step (k\<lparr>c2s := {}, s2c := {}\<rparr>) es k' \<and> s_delivered k' = [''hi'', ''yo'']"
proof -
  obtain k where k: "run_opt link_exec first_exchange link_start = Some k"
    and u: "running (cli k)" "receiving (cli k)" "udp_open (cli k)" "0 < windows (cli k)"
      "epochCount (cli k) + 1 \<noteq> retries (cli k)" "running (conn k)" "ep_status (conn k) \<noteq> startClosing"
    and w: "c_written k = [''hi'', ''yo'']" "s_delivered k = [''hi'']"
    using first_exchange_up by (auto split: option.splits)
  from lsp_recovers_from_loss [OF first_exchange_reach [OF k] u] k w show ?thesis by auto
qed

end
