(* ===== verification/Lsp_System.thy ===== *)
theory Lsp_System
  imports Lsp_Liveness "HOL-Library.Sublist"
begin

text \<open>
  The whole of LSP: one server with its registry and routing, any number of clients at
  addresses of their own, and a network that loses, repeats and reorders packets. Seen from one
  client, the system takes steps of the connection of \<open>Lsp_Protocol\<close> or none, so what is
  proved there for one pair of ends holds for every client of a running server, in terms of what
  the applications write and read.
\<close>

section \<open>The system\<close>

text \<open>
  \<open>to_srv\<close> holds every packet a client has sent, with its address, and \<open>to_cli\<close> every packet the
  server has sent, with its destination. The other fields record what the applications did:
  the payloads they wrote and read, and the connection numbers \<open>Read\<close> has returned.
\<close>

record sys =
  srv :: server
  clis :: "string \<rightharpoonup> client"
  to_srv :: "(Message \<times> string) set"
  to_cli :: "(Message \<times> string) set"
  cli_written :: "string \<Rightarrow> bytes list"
  cli_read :: "string \<Rightarrow> bytes list"
  srv_written :: "(int \<times> bytes) list"
  srv_read :: "(int \<times> bytes) list"
  known :: "int set"

definition sys_init :: "sys \<Rightarrow> bool" where
  "sys_init s \<longleftrightarrow> NewServer None None = Inr (srv s) \<and> clis s = Map.empty \<and> to_srv s = {} \<and> to_cli s = {} \<and>
     cli_written s = (\<lambda>_. []) \<and> cli_read s = (\<lambda>_. []) \<and> srv_written s = [] \<and> srv_read s = [] \<and> known s = {}"

datatype sys_event =
    Dial string Params                \<comment> \<open>\<open>NewClient\<close> at an unused address\<close>
  | AtClient string client_event
  | AtServer server_event

definition read_by :: "client_event \<Rightarrow> client \<Rightarrow> bytes list" where
  "read_by e c = (case e of CRead PickData \<Rightarrow> take 1 (rmsg c) | _ \<Rightarrow> [])"

definition read_from :: "server_event \<Rightarrow> server \<Rightarrow> (int \<times> bytes) list" where
  "read_from e s = (case e of SRead PickData \<Rightarrow> take 1 (s_rmsg s) | _ \<Rightarrow> [])"

definition learned :: "server_event \<Rightarrow> server \<Rightarrow> int set" where
  "learned e s = (case e of SRead PickData \<Rightarrow> fst ` set (take 1 (s_rmsg s))
     | SRead PickErr \<Rightarrow> fst ` set (take 1 (s_err s)) | _ \<Rightarrow> {})"

definition written_to :: "server_event \<Rightarrow> (int \<times> bytes) list" where
  "written_to e = (case e of SWrite i p \<Rightarrow> [(i, p)] | _ \<Rightarrow> [])"

text \<open>
  A packet is read only if it was sent, and the application of the server writes only to
  connection numbers it has got from \<open>Read\<close>.
\<close>

definition client_may :: "string \<Rightarrow> client_event \<Rightarrow> sys \<Rightarrow> bool" where
  "client_may a e s = (case e of CReceive (Some m) \<Rightarrow> (m, a) \<in> to_cli s | _ \<Rightarrow> True)"

definition server_may :: "server_event \<Rightarrow> sys \<Rightarrow> bool" where
  "server_may e s = (case e of SReceive (Some am) \<Rightarrow> am \<in> to_srv s | SWrite i _ \<Rightarrow> i \<in> known s | _ \<Rightarrow> True)"

fun sys_exec :: "Params \<Rightarrow> sys_event \<Rightarrow> sys \<Rightarrow> (sys \<times> unit) option" where
  "sys_exec sp (Dial a cp) s = (if clis s a \<noteq> None then None
     else case NewClient None None cp of
         Fatal _ \<Rightarrow> None
       | Waiting c sent \<Rightarrow> Some (s\<lparr>clis := (clis s)(a \<mapsto> c), to_srv := to_srv s \<union> (\<lambda>m. (m, a)) ` set sent\<rparr>, ()))"
| "sys_exec sp (AtClient a e) s = (case clis s a of
       None \<Rightarrow> None
     | Some c \<Rightarrow> if \<not> client_may a e s then None
         else case client_exec e c of
             None \<Rightarrow> None
           | Some (c', sent) \<Rightarrow> Some (s\<lparr>clis := (clis s)(a \<mapsto> c'), to_srv := to_srv s \<union> (\<lambda>m. (m, a)) ` set sent,
               cli_written := (cli_written s)(a := cli_written s a @ written_by e),
               cli_read := (cli_read s)(a := cli_read s a @ read_by e c)\<rparr>, ()))"
| "sys_exec sp (AtServer e) s = (if \<not> server_may e s then None
     else case server_exec sp e (srv s) of
         None \<Rightarrow> None
       | Some (t, sent) \<Rightarrow> Some (s\<lparr>srv := t, to_cli := to_cli s \<union> set sent, srv_written := srv_written s @ written_to e,
           srv_read := srv_read s @ read_from e (srv s), known := known s \<union> learned e (srv s)\<rparr>, ()))"

definition sys_step :: "Params \<Rightarrow> sys \<Rightarrow> sys_event \<Rightarrow> sys \<Rightarrow> bool" where
  "sys_step sp s e t \<longleftrightarrow> sys_exec sp e s = Some (t, ())"

section \<open>The steps of the server, one by one\<close>

fun put_pending :: "pending_send \<Rightarrow> clientInfo \<Rightarrow> clientInfo" where
  "put_pending (ToIncoming m) c = c\<lparr>incoming := incoming c @ [m]\<rparr>"
| "put_pending (ToTmsg m) c = c\<lparr>tmsg := tmsg c @ [m]\<rparr>"

lemma conn_send_eq:
  assumes "conn_send p s = Some t" and "gm_get (conns s) (pending_id p) = Some c"
  shows "t = s\<lparr>conns := gm_set (pending_id p) (put_pending p c) (conns s)\<rparr>"
  using assms by (cases p) (auto simp: upd_conn_def split: if_splits)

text \<open>The message a routed packet or payload becomes for \<open>handle\<close>, before it is sent.\<close>

definition taken_up :: "pending_send \<Rightarrow> server \<Rightarrow> server" where
  "taken_up p s = s\<lparr>handle_send := Some p\<rparr>"

definition passed_on :: "pending_send \<Rightarrow> clientInfo \<Rightarrow> server \<Rightarrow> server" where
  "passed_on p c s = s\<lparr>conns := gm_set (pending_id p) (put_pending p c) (conns s), handle_send := None\<rparr>"

lemma route_cases:
  assumes ok: "registry_ok s" and n: "handle_send s = None"
  obtains (dropped) "route p s = s" "pending_id p \<notin> set (clients s)"
  | (waits) "route p s = taken_up p s" "pending_id p \<in> set (clients s)"
  | (goes) c where "route p s = passed_on p c (taken_up p s)" "pending_id p \<in> set (clients s)"
      "gm_get (conns s) (pending_id p) = Some c"
proof (cases "pending_id p \<in> set (clients s)")
  case True
  then obtain c where c: "gm_get (conns s) (pending_id p) = Some c"
    using ok gm_key_get [of "pending_id p" "conns s"] unfolding registry_ok_def by blast
  show ?thesis
  proof (cases "conn_send p s")
    case None
    with True waits show ?thesis by (simp add: route_def taken_up_def)
  next
    case (Some t)
    then have "route p s = passed_on p c (taken_up p s)"
      using True conn_send_eq [OF Some c] n by (cases s) (simp add: route_def passed_on_def taken_up_def)
    with goes True c show ?thesis by blast
  qed
qed (use dropped in \<open>simp add: route_def\<close>)

lemma server_exec_cases:
  assumes ex: "server_exec sp e s = Some (t, sent)"
  obtains (connect) m a ms where "s_incoming s = (m, a) # ms" "e = SHandle HIncoming"
      "t = s\<lparr>s_incoming := ms, conns := gm_set (lastConnID s) (new_clientInfo sp (lastConnID s) a) (conns s),
         clients := lastConnID s # clients s, lastConnID := lastConnID s + 1\<rparr>" "sent = [(NewAck (lastConnID s) 0, a)]"
  | (again) am ms where "s_incoming s = am # ms" "e = SHandle HIncoming" "t = s\<lparr>s_incoming := ms\<rparr>" "sent = []"
  | (packet) m a ms where "s_incoming s = (m, a) # ms" "e = SHandle HIncoming" "Type m \<noteq> MsgConnect"
      "handle_send s = None" "t = route (ToIncoming m) (s\<lparr>s_incoming := ms\<rparr>)" "sent = []"
  | (payload) m ms where "outgoing s = m # ms" "e = SHandle HOutgoing" "handle_send s = None"
      "t = route (ToTmsg m) (s\<lparr>outgoing := ms\<rparr>)" "sent = []"
  | (pending) p u where "e = SHandle HSend" "handle_send s = Some p" "conn_send p s = Some u"
      "t = u\<lparr>handle_send := None\<rparr>" "sent = []"
  | (unregister) j js where "e = SHandle HCls" "cls s = j # js" "handle_send s = None"
      "t = handle_cls j (s\<lparr>cls := js\<rparr>)" "sent = []"
  | (conn) j h where "e = SConn j h" "server_conn j h s = Some (t, sent)"
  | (receive) am where "e = SReceive (Some am)" "t = s\<lparr>s_incoming := s_incoming s @ [am]\<rparr>" "sent = []"
  | (read_data) d ds where "e = SRead PickData" "s_rmsg s = d # ds" "t = s\<lparr>s_rmsg := ds\<rparr>" "sent = []"
  | (read_err) d ds where "e = SRead PickErr" "s_err s = d # ds" "t = s\<lparr>s_err := ds\<rparr>" "sent = []"
  | (writes) i p where "e = SWrite i p" "t = s\<lparr>outgoing := outgoing s @ [NewData i (-1) (int (length p)) p]\<rparr>" "sent = []"
  | (other) st cl b rc ud where "t = s\<lparr>s_status := st, cls := cl, bcls_closed := b, s_receiving := rc, s_udp_open := ud\<rparr>"
      "sent = []" "read_from e s = []" "learned e s = {}" "written_to e = []"
proof (cases e)
  case (SHandle h)
  show ?thesis
  proof (cases h)
    case HIncoming
    with SHandle ex obtain m a ms where i: "s_incoming s = (m, a) # ms" "handle_send s = None"
      and r: "(t, sent) = (if Type m = MsgConnect then handle_connect sp a (s\<lparr>s_incoming := ms\<rparr>)
        else (handle_other m (s\<lparr>s_incoming := ms\<rparr>), []))"
      by (auto simp: server_handle_def Let_def split: if_splits list.splits)
    show ?thesis
    proof (cases "Type m = MsgConnect")
      case True
      with r i SHandle HIncoming show ?thesis
        using connect again by (auto simp: handle_connect_def split: if_splits)
    next
      case False
      with r i SHandle HIncoming show ?thesis using packet by (simp add: handle_other_def)
    qed
  next
    case HOutgoing
    with SHandle ex show ?thesis
      using payload by (auto simp: server_handle_def handle_outgoing_def split: if_splits list.splits)
  next
    case HCls
    with SHandle ex show ?thesis using unregister by (auto simp: server_handle_def split: if_splits list.splits)
  next
    case HSend
    with SHandle ex show ?thesis using pending by (auto simp: server_handle_def split: if_splits option.splits)
  qed
next
  case (SConn j h)
  with ex conn show ?thesis by simp
next
  case (SReceive r)
  show ?thesis
  proof (cases r)
    case None
    with SReceive ex other [of "s_udp_open s" "s_receiving t" "bcls_closed s" "cls s" "s_status t"] show ?thesis
      by (auto simp: server_receiver_def read_from_def learned_def written_to_def split: if_splits)
  next
    case (Some am)
    with SReceive ex receive show ?thesis by (auto simp: server_receiver_def split: if_splits)
  qed
next
  case (SRead p)
  with ex read_data read_err show ?thesis
    by (cases p) (auto simp: server_Read_def split: list.splits)
next
  case (SWrite i p)
  with ex writes show ?thesis by (auto simp: server_Write_def split: if_splits)
next
  case (SCloseConn i)
  with ex other [of "s_udp_open s" "s_receiving s" "bcls_closed s" "cls t" "s_status s"] show ?thesis
    by (auto simp: server_CloseConn_def read_from_def learned_def written_to_def split: if_splits)
next
  case SCloseBegin
  with ex other [of "s_udp_open s" "s_receiving s" "bcls_closed t" "cls s" "s_status t"] show ?thesis
    by (auto simp: server_Close_begin_def read_from_def learned_def written_to_def)
next
  case SClosePoll
  with ex other [of "s_udp_open t" "s_receiving s" "bcls_closed s" "cls s" "s_status s"] show ?thesis
    by (auto simp: server_Close_poll_def Let_def read_from_def learned_def written_to_def split: if_splits)
qed

section \<open>Who owns a connection number\<close>

definition owned :: "server \<Rightarrow> string \<Rightarrow> int set" where
  "owned s a = {j. \<exists>d. gm_get (conns s) j = Some d \<and> addr d = a}"

text \<open>
  The numbers a client at the address uses: 0 in the connect message, -1 before it is
  connected, and numbers the server has given to its address.
\<close>

definition own_ids :: "server \<Rightarrow> string \<Rightarrow> int set" where
  "own_ids s a = {0, -1} \<union> owned s a"

definition ids_in :: "int set \<Rightarrow> client \<Rightarrow> bool" where
  "ids_in I c \<longleftrightarrow> conn_id c \<in> I \<and> (\<forall>m \<in> set (incoming c). ConnID m \<in> I) \<and> (\<forall>m \<in> outbox c. ConnID m \<in> I)"

lemma ids_in_mono: "ids_in I c \<Longrightarrow> I \<subseteq> J \<Longrightarrow> ids_in J c"
  by (auto simp: ids_in_def)

lemma ids_in_same:
  "ids_in I c \<Longrightarrow> conn_id c' = conn_id c \<Longrightarrow> set (incoming c') \<subseteq> set (incoming c) \<Longrightarrow> tmsg c' = tmsg c \<Longrightarrow>
   tbuffer c' = tbuffer c \<Longrightarrow> ids_in I c'"
  by (auto simp: ids_in_def outbox_def ball_Un)

lemma client_incoming_ids:
  assumes "ids_in I c" and "ConnID m \<in> I" and "client_on_incoming m c = (c', sent)"
  shows "ids_in I c' \<and> (\<forall>m \<in> set sent. ConnID m \<in> I)"
proof (cases "Type m")
  case MsgData
  then have d: "client_on_data m (c\<lparr>epochCount := 0\<rparr>) = (c', sent)" using assms(3) by (simp add: client_on_incoming_def)
  note f = client_on_data_frame [OF d]
  have "ids_in I c'" by (rule ids_in_same [OF assms(1)]) (simp_all add: f)
  then show ?thesis using f(7) assms(1) by (auto simp: ids_in_def)
next
  case MsgAck
  then have c': "c' = client_on_ack m (c\<lparr>epochCount := 0\<rparr>)" "sent = []"
    using assms(3) by (simp_all add: client_on_incoming_def)
  have "outbox c' \<subseteq> outbox c" "incoming c' = incoming c" "conn_id c' = conn_id c \<or> conn_id c' = ConnID m"
    using c' gm_del_subset [of "SeqNum m" "tbuffer c"]
    by (auto simp: client_on_ack_def outbox_def Let_def split: option.splits if_splits)
  then show ?thesis using assms(1,2) c'(2) unfolding ids_in_def by auto
qed (use assms in \<open>auto simp: client_on_incoming_def ids_in_def outbox_def ball_Un\<close>)

lemma send_next_ids:
  assumes "ids_in I c" and "send_next c = (c', sent)"
  shows "ids_in I c' \<and> (\<forall>m \<in> set sent. ConnID m \<in> I)"
  using assms(2)
proof (cases rule: send_nextE)
  case (one m ms)
  define m' where "m' = m\<lparr>SeqNum := tsq c\<rparr>"
  have c': "tmsg c' = ms" "tbuffer c' = gm_set (tsq c) m' (tbuffer c)" "sent = [m']" "conn_id c' = conn_id c"
      "incoming c' = incoming c"
    using one(3,4) by (simp_all add: m'_def)
  have "ConnID m' \<in> I" using assms(1) one(2) by (simp add: ids_in_def outbox_def ball_Un m'_def)
  moreover have "outbox c' \<subseteq> insert m' (outbox c)"
    using gm_set_subset [of "tsq c" m' "tbuffer c"] c'(1,2) one(2) by (auto simp: outbox_def)
  ultimately show ?thesis using assms(1) c' by (auto simp: ids_in_def)
qed (use assms(1) in simp)

lemma client_exec_ids:
  assumes ok: "ids_in I c" and ex: "client_exec e c = Some (c', sent)" and z: "0 \<in> I"
    and rc: "\<And>m. e = CReceive (Some m) \<Longrightarrow> ConnID m \<in> I"
  shows "ids_in I c' \<and> (\<forall>m \<in> set sent. ConnID m \<in> I)"
proof (cases e)
  case (CHandler h)
  consider (close) "c' = c\<lparr>ep_status := handlerClosed, running := False\<rparr>" "sent = []"
    | (inc) m ms where "incoming c = m # ms" "client_on_incoming m (c\<lparr>incoming := ms\<rparr>) = (c', sent)"
    | (timer) "client_on_timer c = (c', sent)" | (send) "send_next c = (c', sent)"
    using ex CHandler by (cases h) (auto simp: client_handler_def split: if_splits list.splits)
  then show ?thesis
  proof cases
    case close
    with ok show ?thesis by (simp add: ids_in_def outbox_def ball_Un)
  next
    case inc
    then have "ids_in I (c\<lparr>incoming := ms\<rparr>)" "ConnID m \<in> I" using ok by (auto simp: ids_in_def outbox_def ball_Un)
    then show ?thesis using client_incoming_ids inc(2) by blast
  next
    case timer
    then have f: "conn_id c' = conn_id c" "incoming c' = incoming c" "tmsg c' = tmsg c" "tbuffer c' = tbuffer c"
      and s: "set sent \<subseteq> {NewConnect, NewAck (conn_id c) 0} \<union> snd ` set (tbuffer c)"
      by (auto simp: client_on_timer_def Let_def split: if_splits)
    have "ids_in I c'" by (rule ids_in_same [OF ok]) (simp_all add: f)
    moreover have "ConnID NewConnect \<in> I" "ConnID (NewAck (conn_id c) 0) \<in> I" using z ok by (simp_all add: ids_in_def)
    moreover have "\<forall>m \<in> snd ` set (tbuffer c). ConnID m \<in> I" using ok by (simp add: ids_in_def outbox_def ball_Un)
    ultimately show ?thesis using s by blast
  next
    case send
    then show ?thesis using send_next_ids [OF ok] by blast
  qed
next
  case (CReceive r)
  then show ?thesis using ok ex rc
    by (cases r) (auto simp: client_receiver_def ids_in_def outbox_def ball_Un split: if_splits)
next
  case (CRead p)
  then show ?thesis using ok ex
    by (cases p) (auto simp: client_Read_def ids_in_def outbox_def ball_Un split: list.splits)
next
  case (CWrite p)
  then show ?thesis using ok ex by (auto simp: client_Write_def ids_in_def outbox_def ball_Un split: if_splits)
next
  case CCloseBegin
  then show ?thesis using ok ex by (auto simp: client_Close_begin_def ids_in_def outbox_def ball_Un split: if_splits)
next
  case CClosePoll
  then show ?thesis using ok ex
    by (auto simp: client_Close_poll_def ids_in_def outbox_def ball_Un Let_def split: if_splits)
qed

section \<open>The invariant of the server\<close>

definition is_write :: "Message \<Rightarrow> bool" where
  "is_write m \<longleftrightarrow> m = NewData (ConnID m) (-1) (int (length (Payload m))) (Payload m)"

text \<open>What \<open>handle\<close> holds came from the network \<open>W\<close> or from \<open>Write\<close>, for a registered connection.\<close>

definition pending_ok :: "(Message \<times> string) set \<Rightarrow> server \<Rightarrow> bool" where
  "pending_ok W s \<longleftrightarrow> (case handle_send s of
       None \<Rightarrow> True
     | Some (ToIncoming m) \<Rightarrow> ConnID m \<in> set (clients s) \<and> Type m \<noteq> MsgConnect \<and> (\<exists>a. (m, a) \<in> W)
     | Some (ToTmsg m) \<Rightarrow> ConnID m \<in> set (clients s) \<and> is_write m)"

definition conn_ok :: "(Message \<times> string) set \<Rightarrow> int \<Rightarrow> clientInfo \<Rightarrow> bool" where
  "conn_ok W i d \<longleftrightarrow> typed_conn i d \<and> addr d \<in> snd ` W"

definition srv_ok :: "(Message \<times> string) set \<Rightarrow> server \<Rightarrow> bool" where
  "srv_ok W s \<longleftrightarrow> registry_ok s \<and>
     (\<forall>i d. gm_get (conns s) i = Some d \<longrightarrow> conn_ok W i d) \<and>
     set (s_incoming s) \<subseteq> W \<and> (\<forall>m \<in> set (outgoing s). is_write m \<and> ConnID m \<in> gm_keys (conns s)) \<and>
     fst ` set (s_rmsg s) \<subseteq> gm_keys (conns s) \<and> fst ` set (s_err s) \<subseteq> gm_keys (conns s) \<and> pending_ok W s"

lemma srv_okD:
  assumes "srv_ok W s"
  shows "registry_ok s" and "gm_get (conns s) i = Some d \<Longrightarrow> conn_ok W i d"
    and "set (s_incoming s) \<subseteq> W" and "m \<in> set (outgoing s) \<Longrightarrow> is_write m \<and> ConnID m \<in> gm_keys (conns s)"
    and "fst ` set (s_rmsg s) \<subseteq> gm_keys (conns s)" and "fst ` set (s_err s) \<subseteq> gm_keys (conns s)" and "pending_ok W s"
  using assms by (auto simp: srv_ok_def)

text \<open>The numbers, their addresses and the registry: what the steps may change of them.\<close>

lemma srv_ok_cong:
  assumes ok: "srv_ok W s" and reg: "registry_ok t" and k: "gm_keys (conns s) \<subseteq> gm_keys (conns t)"
    and c: "\<And>i d. gm_get (conns t) i = Some d \<Longrightarrow> conn_ok W i d"
    and i: "set (s_incoming t) \<subseteq> W"
    and o: "\<And>m. m \<in> set (outgoing t) \<Longrightarrow> m \<in> set (outgoing s) \<or> is_write m \<and> ConnID m \<in> gm_keys (conns s)"
    and r: "fst ` set (s_rmsg t) \<subseteq> gm_keys (conns s)" and e: "fst ` set (s_err t) \<subseteq> gm_keys (conns s)"
    and p: "pending_ok W t"
  shows "srv_ok W t"
  using srv_okD(4) [OF ok] reg k c i o r e p unfolding srv_ok_def by blast

lemma pending_ok_same:
  "pending_ok W s \<Longrightarrow> handle_send t = handle_send s \<Longrightarrow> set (clients s) \<subseteq> set (clients t) \<Longrightarrow> pending_ok W t"
  by (auto simp: pending_ok_def split: option.splits pending_send.splits)

lemma pending_okD:
  assumes "pending_ok W s" and "handle_send s = Some p"
  shows "pending_id p \<in> set (clients s)" and "p = ToIncoming m \<Longrightarrow> Type m \<noteq> MsgConnect \<and> (\<exists>a. (m, a) \<in> W)"
    and "p = ToTmsg m \<Longrightarrow> is_write m"
  using assms by (cases p; simp add: pending_ok_def)+

lemma is_write_data: "is_write m \<Longrightarrow> data_msg (ConnID m) m"
  by (metis NewData_sel(1,4,5) data_msg_def is_write_def)

lemma put_pending_same [simp]: "addr (put_pending p c) = addr c" "conn_id (put_pending p c) = conn_id c"
  by (cases p; simp)+

lemma conn_ok_pending:
  assumes "conn_ok W (pending_id p) c" and "\<And>m. p = ToTmsg m \<Longrightarrow> is_write m"
  shows "conn_ok W (pending_id p) (put_pending p c)"
  using assms is_write_data by (cases p) (auto simp: conn_ok_def typed_conn_def outbox_def)

lemma conn_ok_status: "conn_ok W i c \<Longrightarrow> conn_ok W i (c\<lparr>ep_status := st\<rparr>)"
  by (simp add: conn_ok_def typed_conn_def outbox_def)

lemma conn_ok_new: "a \<in> snd ` W \<Longrightarrow> conn_ok W i (new_clientInfo sp i a)"
  by (simp add: conn_ok_def typed_conn_def outbox_def new_clientInfo_def)

lemma conn_ok_handle: "conn_ok W i c \<Longrightarrow> handleClient b h c = Some x \<Longrightarrow> conn_ok W i (cr_conn x)"
  using typed_conn_handle [of i c b h x] handleClient_identity [of b h c x] by (simp add: conn_ok_def)

lemma srv_ok_taken_up:
  assumes "srv_ok W s" and "pending_ok W (taken_up p s)"
  shows "srv_ok W (taken_up p s)"
  using assms registry_ok_same [of "taken_up p s" s] by (simp add: srv_ok_def taken_up_def)

lemma srv_ok_passed_on:
  assumes ok: "srv_ok W s" and p: "handle_send s = Some p" and c: "gm_get (conns s) (pending_id p) = Some c"
  shows "srv_ok W (passed_on p c s)"
proof (rule srv_ok_cong [OF ok])
  note q = pending_okD [OF srv_okD(7) [OF ok] p]
  show "gm_keys (conns s) \<subseteq> gm_keys (conns (passed_on p c s))" by (auto simp: passed_on_def)
  have k: "gm_keys (conns (passed_on p c s)) = gm_keys (conns s)"
    using gm_get_Some_key [OF c] by (auto simp: passed_on_def)
  show "registry_ok (passed_on p c s)"
  proof (rule registry_ok_cong [OF srv_okD(1) [OF ok] k])
    show "conn_addr (passed_on p c s) j = conn_addr s j" for j using c by (simp add: conn_addr_def passed_on_def)
    show "conn_id d = j" if "gm_get (conns (passed_on p c s)) j = Some d" for j d
      using that srv_okD(1) [OF ok] c by (auto simp: registry_ok_def passed_on_def split: if_splits)
  qed (use srv_okD(1) [OF ok] in \<open>simp_all add: passed_on_def registry_ok_def\<close>)
  show "conn_ok W i d" if "gm_get (conns (passed_on p c s)) i = Some d" for i d
    using that srv_okD(2) [OF ok, of i d] conn_ok_pending [OF srv_okD(2) [OF ok c] q(3)]
    by (auto simp: passed_on_def split: if_splits)
qed (use srv_okD [OF ok] in \<open>auto simp: passed_on_def pending_ok_def\<close>)

lemma srv_ok_route:
  assumes ok: "srv_ok W s" and n: "handle_send s = None"
    and i: "\<And>m. p = ToIncoming m \<Longrightarrow> Type m \<noteq> MsgConnect \<and> (\<exists>a. (m, a) \<in> W)" and o: "\<And>m. p = ToTmsg m \<Longrightarrow> is_write m"
  shows "srv_ok W (route p s)"
  using srv_okD(1) [OF ok] n
proof (cases rule: route_cases [where p = p])
  case dropped
  with ok show ?thesis by simp
next
  case waits
  then have "pending_ok W (taken_up p s)" using i o by (cases p) (auto simp: pending_ok_def taken_up_def)
  then show ?thesis using srv_ok_taken_up [OF ok] waits by simp
next
  case (goes c)
  then have "pending_ok W (taken_up p s)" using i o by (cases p) (auto simp: pending_ok_def taken_up_def)
  then have "srv_ok W (taken_up p s)" by (rule srv_ok_taken_up [OF ok])
  then show ?thesis using srv_ok_passed_on [of W "taken_up p s" p c] goes by (simp add: taken_up_def)
qed

text \<open>Taking the head off a channel of \<open>handle\<close>, and the channels the applications use.\<close>

lemma srv_ok_frame:
  assumes ok: "srv_ok W s" and "conns t = conns s" "clients t = clients s" "lastConnID t = lastConnID s"
    "handle_send t = handle_send s" and "set (s_incoming t) \<subseteq> W" "set (outgoing t) \<subseteq> set (outgoing s)"
    "set (s_rmsg t) \<subseteq> set (s_rmsg s)" "set (s_err t) \<subseteq> set (s_err s)"
  shows "srv_ok W t"
proof (rule srv_ok_cong [OF ok])
  show "fst ` set (s_rmsg t) \<subseteq> gm_keys (conns s)" by (rule order_trans [OF image_mono [OF assms(8)] srv_okD(5) [OF ok]])
  show "fst ` set (s_err t) \<subseteq> gm_keys (conns s)" by (rule order_trans [OF image_mono [OF assms(9)] srv_okD(6) [OF ok]])
  show "pending_ok W t" by (rule pending_ok_same [OF srv_okD(7) [OF ok] assms(5)]) (simp add: assms(3))
  show "registry_ok t" unfolding registry_ok_same [OF assms(2-4)] by (rule srv_okD(1) [OF ok])
  show "conn_ok W i d" if "gm_get (conns t) i = Some d" for i d
    using that unfolding assms(2) by (rule srv_okD(2) [OF ok])
  show "gm_keys (conns s) \<subseteq> gm_keys (conns t)" unfolding assms(2) by (rule order_refl)
  show "set (s_incoming t) \<subseteq> W" by (rule assms(6))
  show "m \<in> set (outgoing s) \<or> is_write m \<and> ConnID m \<in> gm_keys (conns s)" if "m \<in> set (outgoing t)" for m
    using subsetD [OF assms(7) that] by (rule disjI1)
qed

lemma handle_cls_frame:
  "handle_send (handle_cls j s) = handle_send s" "s_incoming (handle_cls j s) = s_incoming s"
  "outgoing (handle_cls j s) = outgoing s" "s_rmsg (handle_cls j s) = s_rmsg s" "s_err (handle_cls j s) = s_err s"
  "gm_keys (conns (handle_cls j s)) = gm_keys (conns s)" "set (clients (handle_cls j s)) \<subseteq> set (clients s)"
proof -
  show "gm_keys (conns (handle_cls j s)) = gm_keys (conns s)"
    by (auto simp: handle_cls_def Let_def upd_conn_def dest: gm_get_Some_key split: option.split)
  show "set (clients (handle_cls j s)) \<subseteq> set (clients s)"
    using set_remove1_subset [of j "clients s"] by (auto simp: handle_cls_def Let_def)
qed (simp_all add: handle_cls_def Let_def)

lemma srv_ok_unregister:
  assumes ok: "srv_ok W s" and n: "handle_send s = None" and reg: "registry_ok (handle_cls j (s\<lparr>cls := js\<rparr>))"
  shows "srv_ok W (handle_cls j (s\<lparr>cls := js\<rparr>))"
proof (rule srv_ok_cong [OF ok reg])
  let ?t = "handle_cls j (s\<lparr>cls := js\<rparr>)"
  show "conn_ok W i d" if "gm_get (conns ?t) i = Some d" for i d
    using that handle_cls_get [of j "s\<lparr>cls := js\<rparr>" i] srv_okD(2) [OF ok, of i] conn_ok_status by auto
  show "pending_ok W ?t" using n by (simp add: pending_ok_def handle_cls_frame)
qed (use srv_okD [OF ok] in \<open>auto simp: handle_cls_frame\<close>)

lemma srv_ok_connect:
  assumes ok: "srv_ok W s" and m: "s_incoming s = (m, a) # ms" and reg: "registry_ok t"
    and t: "t = s\<lparr>s_incoming := ms, conns := gm_set (lastConnID s) (new_clientInfo sp (lastConnID s) a) (conns s),
      clients := lastConnID s # clients s, lastConnID := lastConnID s + 1\<rparr>"
  shows "srv_ok W t"
proof (rule srv_ok_cong [OF ok reg])
  have "a \<in> snd ` W" using srv_okD(3) [OF ok] m by force
  from conn_ok_new [OF this] show "conn_ok W i d" if "gm_get (conns t) i = Some d" for i d
    using that srv_okD(2) [OF ok, of i] t by (auto split: if_splits)
  show "pending_ok W t" using pending_ok_same [OF srv_okD(7) [OF ok], of t] t by auto
qed (use srv_okD [OF ok] m t in auto)

lemma srv_ok_conn:
  assumes ok: "srv_ok W s" and r: "server_conn j h s = Some (t, sent)" and reg: "registry_ok t"
  shows "srv_ok W t"
proof -
  from r obtain d x where d: "gm_get (conns s) j = Some d" "handleClient (bcls_closed s) h d = Some x"
    and t: "t = s\<lparr>conns := gm_set j (cr_conn x) (conns s), s_rmsg := s_rmsg s @ map (Pair j) (cr_rmsg x),
        cls := cls s @ (if cr_cls x then [j] else []), s_err := s_err s @ map (Pair j) (cr_err x)\<rparr>"
    by (auto simp: server_conn_def split: option.splits)
  have j: "j \<in> gm_keys (conns s)" by (rule gm_get_Some_key [OF d(1)])
  have new: "conn_ok W j (cr_conn x)" by (rule conn_ok_handle [OF srv_okD(2) [OF ok d(1)] d(2)])
  show ?thesis
  proof (rule srv_ok_cong [OF ok reg])
    show "conn_ok W i e" if "gm_get (conns t) i = Some e" for i e
      using that srv_okD(2) [OF ok, of i e] new t by (auto split: if_splits)
    show "pending_ok W t" using pending_ok_same [OF srv_okD(7) [OF ok], of t] t by simp
  qed (use srv_okD [OF ok] j t in auto)
qed

lemma srv_ok_exec:
  assumes ok: "srv_ok W s" and ex: "server_exec sp e s = Some (t, sent)"
    and rc: "\<And>am. e = SReceive (Some am) \<Longrightarrow> am \<in> W" and wr: "\<And>i p. e = SWrite i p \<Longrightarrow> i \<in> gm_keys (conns s)"
  shows "srv_ok W t"
proof -
  have reg: "registry_ok t" using registry_ok_exec [OF srv_okD(1) [OF ok] ex] .
  have W: "set ms \<subseteq> W" if "s_incoming s = am # ms" for am ms using srv_okD(3) [OF ok] that by auto
  show ?thesis using ex
  proof (cases rule: server_exec_cases)
    case (connect m a ms)
    then show ?thesis using srv_ok_connect [OF ok connect(1) reg] by blast
  next
    case (again am ms)
    then show ?thesis using srv_ok_frame [OF ok, of t] W by simp
  next
    case (packet m a ms)
    have "srv_ok W (s\<lparr>s_incoming := ms\<rparr>)" using srv_ok_frame [OF ok, of "s\<lparr>s_incoming := ms\<rparr>"] W packet(1) by simp
    moreover have "(m, a) \<in> W" using srv_okD(3) [OF ok] packet(1) by simp
    ultimately show ?thesis using srv_ok_route [of W "s\<lparr>s_incoming := ms\<rparr>" "ToIncoming m"] packet(3-5) by auto
  next
    case (payload m ms)
    have "srv_ok W (s\<lparr>outgoing := ms\<rparr>)"
      using srv_ok_frame [OF ok, of "s\<lparr>outgoing := ms\<rparr>"] srv_okD(3) [OF ok] payload(1) by auto
    moreover have "is_write m" using srv_okD(4) [OF ok, of m] payload(1) by simp
    ultimately show ?thesis using srv_ok_route [of W "s\<lparr>outgoing := ms\<rparr>" "ToTmsg m"] payload(3,4) by auto
  next
    case (pending p u)
    have "pending_id p \<in> set (clients s)" using pending_okD(1) [OF srv_okD(7) [OF ok] pending(2)] .
    then obtain c where c: "gm_get (conns s) (pending_id p) = Some c"
      using srv_okD(1) [OF ok] gm_key_get [of "pending_id p" "conns s"] unfolding registry_ok_def by blast
    have "t = passed_on p c s" using conn_send_eq [OF pending(3) c] pending(4) by (simp add: passed_on_def)
    then show ?thesis using srv_ok_passed_on [OF ok pending(2) c] by simp
  next
    case (unregister j js)
    then show ?thesis using srv_ok_unregister [OF ok] reg by blast
  next
    case (conn j h)
    then show ?thesis using srv_ok_conn [OF ok _ reg] by blast
  next
    case (writes i p)
    have "is_write (NewData i (-1) (int (length p)) p)" "i \<in> gm_keys (conns s)" using wr writes(1) by (auto simp: is_write_def)
    then show ?thesis using srv_okD [OF ok] reg writes(2)
      by (intro srv_ok_cong [OF ok reg]) (auto intro: pending_ok_same)
  qed (use srv_ok_frame [OF ok, of t] srv_okD(3) [OF ok] rc in auto)
qed

lemma srv_ok_mono:
  assumes "srv_ok W s" and "W \<subseteq> W'"
  shows "srv_ok W' s"
proof -
  have "conn_ok W' i d" if "conn_ok W i d" for i d using that image_mono [OF assms(2), of snd] by (auto simp: conn_ok_def)
  moreover have "pending_ok W' s" if "pending_ok W s"
    using that assms(2) by (auto simp: pending_ok_def split: option.splits pending_send.splits)
  moreover have "set (s_incoming s) \<subseteq> W'" using srv_okD(3) [OF assms(1)] assms(2) by (rule order_trans)
  ultimately show ?thesis using assms(1) by (simp add: srv_ok_def)
qed

text \<open>Numbers and addresses are given once and stay.\<close>

lemma conn_change_addr: "conn_change s i c c' \<Longrightarrow> addr c' = addr c"
  by (auto simp: conn_change_def handleClient_identity)

lemma server_exec_grows:
  assumes "registry_ok s" and "server_exec sp e s = Some (t, sent)"
  shows "gm_keys (conns s) \<subseteq> gm_keys (conns t)" and "owned s a \<subseteq> owned t a"
proof -
  have g: "\<exists>c'. gm_get (conns t) i = Some c' \<and> addr c' = addr c" if "gm_get (conns s) i = Some c" for i c
    using server_exec_change [OF assms that] conn_change_addr by blast
  show "gm_keys (conns s) \<subseteq> gm_keys (conns t)"
    using g gm_key_get [of _ "conns s"] gm_get_Some_key [of "conns t"] by blast
  show "owned s a \<subseteq> owned t a" using g by (fastforce simp: owned_def)
qed

lemma server_exec_sent:
  assumes ok: "srv_ok W s" and ex: "server_exec sp e s = Some (t, sent)" and m: "(m, a) \<in> set sent"
  shows "ConnID m \<in> owned t a"
  using ex
proof (cases rule: server_exec_cases)
  case (connect m' b ms)
  then show ?thesis using m by (simp add: owned_def new_clientInfo_def)
next
  case (conn j h)
  then obtain d x where d: "gm_get (conns s) j = Some d" "handleClient (bcls_closed s) h d = Some x"
    and t: "gm_get (conns t) j = Some (cr_conn x)" "sent = map (\<lambda>m. (m, addr d)) (cr_sent x)"
    by (auto simp: server_conn_def split: option.splits)
  have "typed_conn j d" using srv_okD(2) [OF ok d(1)] by (simp add: conn_ok_def)
  then have "\<forall>m \<in> set (cr_sent x). ConnID m = j"
    using typed_conn_handle [OF _ d(2), of j] by (auto simp: down_msg_def data_msg_def)
  then show ?thesis using m t handleClient_identity [OF d(2)] by (auto simp: owned_def)
qed (use m in simp_all)

section \<open>The invariant of the system\<close>

definition sys_inv :: "sys \<Rightarrow> bool" where
  "sys_inv s \<longleftrightarrow> srv_ok (to_srv s) (srv s) \<and>
     (\<forall>m a. (m, a) \<in> to_srv s \<longrightarrow> clis s a \<noteq> None \<and> ConnID m \<in> own_ids (srv s) a) \<and>
     (\<forall>m a. (m, a) \<in> to_cli s \<longrightarrow> ConnID m \<in> owned (srv s) a) \<and>
     (\<forall>a c. clis s a = Some c \<longrightarrow> ids_in (own_ids (srv s) a) c) \<and>
     (\<forall>a. clis s a = None \<longrightarrow> cli_written s a = [] \<and> cli_read s a = []) \<and>
     known s \<union> fst ` set (srv_read s) \<union> fst ` set (srv_written s) \<subseteq> gm_keys (conns (srv s))"

lemma sys_invD:
  assumes "sys_inv s"
  shows "srv_ok (to_srv s) (srv s)" and "(m, a) \<in> to_srv s \<Longrightarrow> clis s a \<noteq> None \<and> ConnID m \<in> own_ids (srv s) a"
    and "(m, a) \<in> to_cli s \<Longrightarrow> ConnID m \<in> owned (srv s) a" and "clis s a = Some c \<Longrightarrow> ids_in (own_ids (srv s) a) c"
    and "clis s a = None \<Longrightarrow> cli_written s a = [] \<and> cli_read s a = []"
    and "known s \<union> fst ` set (srv_read s) \<union> fst ` set (srv_written s) \<subseteq> gm_keys (conns (srv s))"
  using assms by (simp_all add: sys_inv_def)

lemma sys_init_inv: "sys_init s \<Longrightarrow> sys_inv s"
proof -
  assume i: "sys_init s"
  then have "server_init (srv s)" by (simp add: sys_init_def server_init_def)
  then have "registry_ok (srv s)" by (rule registry.init_inv)
  then have "srv_ok {} (srv s)" using i by (auto simp: sys_init_def NewServer_def srv_ok_def pending_ok_def dest!: sym [of _ "srv s"])
  then show ?thesis using i by (simp add: sys_inv_def sys_init_def)
qed

lemma own_ids_mono: "owned s a \<subseteq> owned t a \<Longrightarrow> own_ids s a \<subseteq> own_ids t a"
  by (auto simp: own_ids_def)

lemma sys_inv_server:
  assumes inv: "sys_inv s" and st: "sys_exec sp (AtServer e) s = Some (t, u)"
  shows "sys_inv t"
proof -
  from st obtain r sent where may: "server_may e s" and ex: "server_exec sp e (srv s) = Some (r, sent)"
    and t: "t = s\<lparr>srv := r, to_cli := to_cli s \<union> set sent, srv_written := srv_written s @ written_to e,
        srv_read := srv_read s @ read_from e (srv s), known := known s \<union> learned e (srv s)\<rparr>"
    by (auto split: if_splits option.splits)
  note I = sys_invD [OF inv]
  note g = server_exec_grows [OF srv_okD(1) [OF I(1)] ex]
  have k: "learned e (srv s) \<union> fst ` set (read_from e (srv s)) \<union> fst ` set (written_to e) \<subseteq> gm_keys (conns (srv s))"
  proof -
    have "fst ` set (take 1 (s_rmsg (srv s))) \<subseteq> gm_keys (conns (srv s))"
      "fst ` set (take 1 (s_err (srv s))) \<subseteq> gm_keys (conns (srv s))"
      using srv_okD(5,6) [OF I(1)] set_take_subset [of 1 "s_rmsg (srv s)"] set_take_subset [of 1 "s_err (srv s)"] by blast+
    then show ?thesis using may I(6)
      by (auto simp: learned_def read_from_def written_to_def server_may_def split: server_event.splits pick.splits)
  qed
  have "srv_ok (to_srv s) r"
    using I(1) ex
  proof (rule srv_ok_exec)
    show "am \<in> to_srv s" if "e = SReceive (Some am)" for am using may that by (simp add: server_may_def)
    show "i \<in> gm_keys (conns (srv s))" if "e = SWrite i p" for i p using may that I(6) by (auto simp: server_may_def)
  qed
  moreover have "ConnID m \<in> owned r a" if "(m, a) \<in> to_cli s \<union> set sent" for m a
    using that server_exec_sent [OF I(1) ex] I(3) g(2) by blast
  moreover have "ids_in (own_ids r a) c" if "clis s a = Some c" for a c
    using ids_in_mono [OF I(4) [OF that] own_ids_mono [OF g(2)]] .
  moreover have "ConnID m \<in> own_ids r a" if "(m, a) \<in> to_srv s" for m a
    using I(2) [OF that] own_ids_mono [OF g(2)] by blast
  moreover have "known s \<union> learned e (srv s) \<subseteq> gm_keys (conns r)"
    "fst ` set (srv_read s @ read_from e (srv s)) \<subseteq> gm_keys (conns r)"
    "fst ` set (srv_written s @ written_to e) \<subseteq> gm_keys (conns r)"
    using I(6) k g(1) unfolding set_append image_Un by blast+
  moreover have "clis s a \<noteq> None" if "(m, a) \<in> to_srv s" for m a using I(2) that by blast
  ultimately show ?thesis using I(5) unfolding sys_inv_def t by simp
qed

lemma sys_inv_clients:
  assumes inv: "sys_inv s" and c: "ids_in (own_ids (srv s) a) c" and m: "\<forall>m \<in> set sent. ConnID m \<in> own_ids (srv s) a"
  shows "sys_inv (s\<lparr>clis := (clis s)(a \<mapsto> c), to_srv := to_srv s \<union> (\<lambda>m. (m, a)) ` set sent,
    cli_written := (cli_written s)(a := w), cli_read := (cli_read s)(a := r)\<rparr>)"
  using sys_invD [OF inv] srv_ok_mono [OF sys_invD(1) [OF inv], of "to_srv s \<union> (\<lambda>m. (m, a)) ` set sent"] c m
  by (auto simp: sys_inv_def)

lemma sys_inv_step: "sys_inv s \<Longrightarrow> sys_step sp s e t \<Longrightarrow> sys_inv t"
proof (cases e)
  case (Dial a cp)
  assume inv: "sys_inv s" and st: "sys_step sp s e t"
  let ?s = "\<lambda>c. s\<lparr>clis := (clis s)(a \<mapsto> c), to_srv := to_srv s \<union> (\<lambda>m. (m, a)) ` set [NewConnect],
    cli_written := (cli_written s)(a := cli_written s a), cli_read := (cli_read s)(a := cli_read s a)\<rparr>"
  from st Dial obtain c where "NewClient None None cp = Waiting c [NewConnect]" and t: "t = ?s c"
    by (auto simp: sys_step_def NewClient_def Let_def split: if_splits new_client.splits)
  then have "client_init c" by (auto simp: client_init_def)
  then have "ids_in (own_ids (srv s) a) c" by (simp add: ids_in_def outbox_def client_init_fields own_ids_def)
  then show ?thesis unfolding t by (intro sys_inv_clients [OF inv]) (simp_all add: own_ids_def)
next
  case (AtClient a e')
  assume inv: "sys_inv s" and st: "sys_step sp s e t"
  from st AtClient obtain c c' sent where c: "clis s a = Some c" "client_may a e' s" "client_exec e' c = Some (c', sent)"
    and t: "t = s\<lparr>clis := (clis s)(a \<mapsto> c'), to_srv := to_srv s \<union> (\<lambda>m. (m, a)) ` set sent,
      cli_written := (cli_written s)(a := cli_written s a @ written_by e'),
      cli_read := (cli_read s)(a := cli_read s a @ read_by e' c)\<rparr>"
    by (auto simp: sys_step_def split: if_splits option.splits)
  have "ids_in (own_ids (srv s) a) c' \<and> (\<forall>m \<in> set sent. ConnID m \<in> own_ids (srv s) a)"
    using sys_invD(4) [OF inv c(1)] c(3)
  proof (rule client_exec_ids)
    show "0 \<in> own_ids (srv s) a" by (simp add: own_ids_def)
    show "ConnID m \<in> own_ids (srv s) a" if "e' = CReceive (Some m)" for m
      using sys_invD(3) [OF inv, of m a] c(2) that by (simp add: client_may_def own_ids_def)
  qed
  then show ?thesis unfolding t by (intro sys_inv_clients [OF inv]) simp_all
next
  case (AtServer e')
  assume "sys_inv s" and "sys_step sp s e t"
  with AtServer show ?thesis using sys_inv_server [of s sp e' t] by (simp only: sys_step_def)
qed

interpretation system: inductive_invariant sys_init "sys_step sp" sys_inv for sp
  by unfold_locales (auto intro: sys_init_inv sys_inv_step)

section \<open>One connection of the system\<close>

definition payloads :: "int \<Rightarrow> (int \<times> bytes) list \<Rightarrow> bytes list" where
  "payloads i l = map snd (filter (\<lambda>x. fst x = i) l)"

lemma payloads_simps [simp]:
  "payloads i [] = []" "payloads i (x # l) = (if fst x = i then [snd x] else []) @ payloads i l"
  "payloads i (l @ l') = payloads i l @ payloads i l'" "payloads i (map (Pair j) ps) = (if j = i then ps else [])"
  by (simp_all add: payloads_def filter_map comp_def)

lemma payloads_absent: "i \<notin> fst ` set l \<Longrightarrow> payloads i l = []"
  by (auto simp: payloads_def filter_empty_conv)

text \<open>Payloads for the connection that \<open>Write\<close> has taken and \<open>handle\<close> has not passed on.\<close>

definition pend :: "int \<Rightarrow> server \<Rightarrow> bytes list" where
  "pend i s = (case handle_send s of Some (ToTmsg m) \<Rightarrow> if ConnID m = i then [Payload m] else [] | _ \<Rightarrow> []) @
     map Payload (filter (\<lambda>m. ConnID m = i) (outgoing s))"

text \<open>
  Connection \<open>i\<close> is the only one the address \<open>a\<close> ever had. The address of a client whose
  connection was lost can get another number when an old connect message arrives once more.
\<close>

definition only_conn :: "int \<Rightarrow> string \<Rightarrow> server \<Rightarrow> bool" where
  "only_conn i a s \<longleftrightarrow> owned s a \<subseteq> {i} \<and> (\<forall>b. i \<in> owned s b \<longrightarrow> b = a)"

text \<open>The connection object, as it will be created where it is not there yet.\<close>

definition conn_of :: "Params \<Rightarrow> int \<Rightarrow> string \<Rightarrow> server \<Rightarrow> clientInfo" where
  "conn_of sp i a s = (case gm_get (conns s) i of Some d \<Rightarrow> d | None \<Rightarrow> new_clientInfo sp i a)"

text \<open>What a step of the server is for its end of one connection.\<close>

inductive srv_link :: "Message set \<Rightarrow> clientInfo \<Rightarrow> Message set \<Rightarrow> bytes list \<Rightarrow> bytes list \<Rightarrow> clientInfo \<Rightarrow> bool"
  for W where
  sl_none: "srv_link W c {} [] [] c"
| sl_move: "handleClient b h c = Some x \<Longrightarrow> srv_link W c (set (cr_sent x)) (cr_rmsg x) [] (cr_conn x)"
| sl_in: "m \<in> W \<Longrightarrow> Type m \<noteq> MsgConnect \<Longrightarrow> ConnID m = conn_id c \<Longrightarrow>
    srv_link W c {} [] [] (c\<lparr>incoming := incoming c @ [m]\<rparr>)"
| sl_write: "srv_link W c {} [] [p] (c\<lparr>tmsg := tmsg c @ [NewData (conn_id c) (-1) (int (length p)) p]\<rparr>)"
| sl_status: "srv_link W c {} [] [] (c\<lparr>ep_status := st\<rparr>)"

lemma srv_link_reach:
  assumes "srv_link (c2s k) (conn k) M out w c'" and r: "reach init link_step k"
  shows "reach init link_step (k\<lparr>conn := c', s2c := s2c k \<union> M, s_written := s_written k @ w, s_delivered := s_delivered k @ out\<rparr>)"
  using assms(1)
proof cases
  case sl_none
  then show ?thesis using r by simp
next
  case (sl_move b h x)
  then show ?thesis using reach_step [OF r server_moves [of b h k x]] by simp
next
  case (sl_in m)
  then show ?thesis using reach_step [OF r to_server [of m k]] by simp
next
  case (sl_write p)
  then show ?thesis using reach_step [OF r server_write [of k p]] by simp
next
  case (sl_status st)
  then show ?thesis using reach_step [OF r server_status [of k st]] by simp
qed

definition link_effect :: "Params \<Rightarrow> int \<Rightarrow> string \<Rightarrow> (Message \<times> string) set \<Rightarrow> server_event \<Rightarrow> server \<Rightarrow> server \<Rightarrow>
    (Message \<times> string) list \<Rightarrow> bool" where
  "link_effect sp i a W e s t sent \<longleftrightarrow> (\<exists>M out w.
     srv_link {m. (m, a) \<in> W} (conn_of sp i a s) M out w (conn_of sp i a t) \<and>
     insert (NewAck i 0) {m. (m, a) \<in> set sent} = insert (NewAck i 0) M \<and>
     payloads i (read_from e s) @ payloads i (s_rmsg t) = payloads i (s_rmsg s) @ out \<and>
     (if i \<in> set (clients t)
      then (i \<in> set (clients s) \<or> i \<notin> gm_keys (conns s)) \<and> pend i s @ payloads i (written_to e) = w @ pend i t
      else w = []))"

lemma link_effectI:
  "srv_link {m. (m, a) \<in> W} (conn_of sp i a s) M out w (conn_of sp i a t) \<Longrightarrow>
   insert (NewAck i 0) {m. (m, a) \<in> set sent} = insert (NewAck i 0) M \<Longrightarrow>
   payloads i (read_from e s) @ payloads i (s_rmsg t) = payloads i (s_rmsg s) @ out \<Longrightarrow>
   (i \<in> set (clients t) \<Longrightarrow> i \<in> set (clients s) \<or> i \<notin> gm_keys (conns s)) \<Longrightarrow>
   (i \<in> set (clients t) \<Longrightarrow> pend i s @ payloads i (written_to e) = w @ pend i t) \<Longrightarrow>
   (i \<notin> set (clients t) \<Longrightarrow> w = []) \<Longrightarrow> link_effect sp i a W e s t sent"
  unfolding link_effect_def by (rule exI [of _ M], rule exI [of _ out], rule exI [of _ w]) simp

text \<open>A step that leaves the connection, its mailbox and the registry as they are.\<close>

lemma link_effect_none:
  assumes "conn_of sp i a t = conn_of sp i a s" and "\<forall>m. (m, a) \<in> set sent \<longrightarrow> m = NewAck i 0"
    and "payloads i (read_from e s) @ payloads i (s_rmsg t) = payloads i (s_rmsg s)"
    and "i \<in> set (clients t) \<Longrightarrow> i \<in> set (clients s) \<or> i \<notin> gm_keys (conns s)"
    and "i \<in> set (clients t) \<Longrightarrow> pend i t = pend i s @ payloads i (written_to e)"
  shows "link_effect sp i a W e s t sent"
  using assms by (intro link_effectI [of a W sp i s "{}" "[]" "[]"]) (auto intro: sl_none)

lemma conn_of_cong: "gm_get (conns t) i = gm_get (conns s) i \<Longrightarrow> conn_of sp i a t = conn_of sp i a s"
  by (simp add: conn_of_def)

lemma pend_taken:
  "handle_send s = None \<Longrightarrow> outgoing s = m # ms \<Longrightarrow>
   pend i (taken_up (ToTmsg m) (s\<lparr>outgoing := ms\<rparr>)) = pend i s"
  "handle_send s = None \<Longrightarrow> pend i (taken_up (ToIncoming m) s) = pend i s"
  by (simp_all add: pend_def taken_up_def)

text \<open>\<open>handle\<close> passes on what it holds.\<close>

lemma link_effect_passed_on:
  assumes ok: "srv_ok W s" and ids: "\<And>m b. (m, b) \<in> W \<Longrightarrow> ConnID m \<in> own_ids s b" and only: "only_conn i a s"
    and p: "handle_send s = Some p" and c: "gm_get (conns s) (pending_id p) = Some c"
    and e: "read_from e s0 = []" "written_to e = []"
    and s0: "conns s = conns s0" "s_rmsg s = s_rmsg s0" "clients s = clients s0" "i \<in> set (clients s) \<Longrightarrow> pend i s = pend i s0"
  shows "link_effect sp i a W e s0 (passed_on p c s) []"
proof (cases "pending_id p = i")
  case False
  then have "pend i (passed_on p c s) = pend i s"
    using p by (cases p) (simp_all add: pend_def passed_on_def)
  with False show ?thesis
    using e s0 by (intro link_effect_none conn_of_cong) (auto simp: passed_on_def)
next
  case True
  note q = pending_okD [OF srv_okD(7) [OF ok] p]
  have cl: "i \<in> set (clients s)" using q(1) True by simp
  have of: "conn_of sp i a s0 = c" "conn_of sp i a (passed_on p c s) = put_pending p c"
    using c True s0(1) by (simp_all add: conn_of_def passed_on_def)
  have id: "conn_id c = i" using srv_okD(2) [OF ok c] True by (simp add: conn_ok_def typed_conn_def)
  show ?thesis
  proof (cases p)
    case (ToIncoming m)
    then obtain b where m: "Type m \<noteq> MsgConnect" "(m, b) \<in> W" using q(2) by blast
    have "73 \<le> i" using srv_okD(1) [OF ok] cl by (auto simp: registry_ok_def)
    then have "i \<in> owned s b" using ids [OF m(2)] ToIncoming True by (auto simp: own_ids_def)
    then have "b = a" using only by (simp add: only_conn_def)
    then have "srv_link {m. (m, a) \<in> W} c {} [] [] (put_pending p c)"
      using sl_in [of m "{m. (m, a) \<in> W}" c] m id ToIncoming True by simp
    then show ?thesis
      using of e s0 cl p ToIncoming
      by (intro link_effectI [of a W sp i s0 "{}" "[]" "[]"]) (simp_all add: passed_on_def pend_def)
  next
    case (ToTmsg m)
    then have m: "m = NewData (conn_id c) (-1) (int (length (Payload m))) (Payload m)"
      using q(3) [of m] True id by (simp add: is_write_def)
    have "srv_link {m. (m, a) \<in> W} c {} [] [Payload m] (put_pending p c)"
      using sl_write [of "{m. (m, a) \<in> W}" c "Payload m"] unfolding ToTmsg put_pending.simps m [symmetric] .
    moreover have "pend i s = Payload m # pend i (passed_on p c s)"
      using p ToTmsg True by (simp add: pend_def passed_on_def)
    ultimately show ?thesis
      using of e s0 cl by (intro link_effectI [of a W sp i s0 "{}" "[]" "[Payload m]"]) (simp_all add: passed_on_def)
  qed
qed

lemma link_effect_route:
  assumes ok: "srv_ok W s1" and ids: "\<And>m b. (m, b) \<in> W \<Longrightarrow> ConnID m \<in> own_ids s1 b" and only: "only_conn i a s1"
    and n: "handle_send s1 = None" and pk: "pending_ok W (taken_up p s1) \<or> pending_id p \<notin> set (clients s1)"
    and e: "read_from e s0 = []" "written_to e = []"
    and s0: "conns s1 = conns s0" "s_rmsg s1 = s_rmsg s0" "clients s1 = clients s0"
    and pend: "pend i (taken_up p s1) = pend i s0" and drop: "pending_id p \<noteq> i \<Longrightarrow> pend i s1 = pend i s0"
  shows "link_effect sp i a W e s0 (route p s1) []"
  using srv_okD(1) [OF ok] n
proof (cases rule: route_cases [where p = p])
  case dropped
  then show ?thesis using e s0 drop by (intro link_effect_none conn_of_cong) auto
next
  case waits
  then show ?thesis using e s0 pend by (intro link_effect_none conn_of_cong) (auto simp: taken_up_def)
next
  case (goes c)
  have ok': "srv_ok W (taken_up p s1)" using srv_ok_taken_up [OF ok] pk goes(2) by blast
  have own: "owned (taken_up p s1) = owned s1" "own_ids (taken_up p s1) = own_ids s1"
    by (simp_all add: owned_def own_ids_def taken_up_def fun_eq_iff)
  have "link_effect sp i a W e s0 (passed_on p c (taken_up p s1)) []"
    using ok'
  proof (rule link_effect_passed_on)
    show "ConnID m \<in> own_ids (taken_up p s1) b" if "(m, b) \<in> W" for m b using ids [OF that] own by simp
    show "only_conn i a (taken_up p s1)" using only by (simp add: only_conn_def own)
    show "gm_get (conns (taken_up p s1)) (pending_id p) = Some c" using goes(3) by (simp add: taken_up_def)
  qed (use e s0 pend in \<open>simp_all add: taken_up_def\<close>)
  then show ?thesis using goes(1) by simp
qed

lemma link_effect_connect:
  assumes ok: "registry_ok s" and only: "only_conn i a t"
    and t: "t = s\<lparr>s_incoming := ms, conns := gm_set (lastConnID s) (new_clientInfo sp (lastConnID s) b) (conns s),
      clients := lastConnID s # clients s, lastConnID := lastConnID s + 1\<rparr>"
    and e: "read_from e s = []" "written_to e = []"
  shows "link_effect sp i a W e s t [(NewAck (lastConnID s) 0, b)]"
proof -
  have new: "lastConnID s \<notin> gm_keys (conns s)" using ok by (auto simp: registry_ok_def)
  have own: "lastConnID s \<in> owned t b" by (simp add: owned_def t new_clientInfo_def)
  have pend: "pend i t = pend i s" by (simp add: pend_def t)
  show ?thesis
  proof (cases "b = a")
    case True
    then have i: "i = lastConnID s" using only own by (auto simp: only_conn_def)
    then have "gm_get (conns s) i = None" using new by (simp add: gm_get_None_key)
    then have "conn_of sp i a t = conn_of sp i a s" using i True by (simp add: conn_of_def t)
    then show ?thesis using e i new pend by (intro link_effect_none) (simp_all add: t)
  next
    case False
    then have i: "i \<noteq> lastConnID s" using only own by (auto simp: only_conn_def)
    then have "conn_of sp i a t = conn_of sp i a s" by (simp add: conn_of_def t)
    then show ?thesis using e i False pend by (intro link_effect_none) (simp_all add: t)
  qed
qed

lemma link_effect_conn:
  assumes r: "server_conn j h s = Some (t, sent)" and only: "only_conn i a s" and e: "e = SConn j h"
  shows "link_effect sp i a W e s t sent"
proof -
  from r obtain d x where d: "gm_get (conns s) j = Some d" "handleClient (bcls_closed s) h d = Some x"
    and t: "t = s\<lparr>conns := gm_set j (cr_conn x) (conns s), s_rmsg := s_rmsg s @ map (Pair j) (cr_rmsg x),
        cls := cls s @ (if cr_cls x then [j] else []), s_err := s_err s @ map (Pair j) (cr_err x)\<rparr>"
    and sent: "sent = map (\<lambda>m. (m, addr d)) (cr_sent x)"
    by (auto simp: server_conn_def split: option.splits)
  have own: "j \<in> owned s (addr d)" using d(1) by (simp add: owned_def)
  have e': "read_from e s = []" "written_to e = []" by (simp_all add: e read_from_def written_to_def)
  have pend: "pend i t = pend i s" by (simp add: pend_def t)
  show ?thesis
  proof (cases "j = i")
    case True
    then have "addr d = a" using only own by (simp add: only_conn_def)
    then have "{m. (m, a) \<in> set sent} = set (cr_sent x)" using sent by auto
    moreover have "srv_link {m. (m, a) \<in> W} (conn_of sp i a s) (set (cr_sent x)) (cr_rmsg x) [] (conn_of sp i a t)"
      using sl_move [OF d(2)] d(1) True by (simp add: conn_of_def t)
    ultimately show ?thesis
      using e' pend True
      by (intro link_effectI [of a W sp i s "set (cr_sent x)" "cr_rmsg x" "[]"]) (simp_all add: t)
  next
    case False
    then have "addr d \<noteq> a" using only own by (auto simp: only_conn_def)
    then show ?thesis using e' pend False sent by (intro link_effect_none conn_of_cong) (auto simp: t)
  qed
qed

lemma only_conn_before:
  assumes "registry_ok s" and "server_exec sp e s = Some (t, sent)" and "only_conn i a t"
  shows "only_conn i a s"
  using assms(3) server_exec_grows(2) [OF assms(1,2)] unfolding only_conn_def by blast

lemma server_exec_link:
  assumes ok: "srv_ok W s" and ids: "\<And>m b. (m, b) \<in> W \<Longrightarrow> ConnID m \<in> own_ids s b"
    and ex: "server_exec sp e s = Some (t, sent)" and only: "only_conn i a t"
  shows "link_effect sp i a W e s t sent"
proof -
  have only_s: "only_conn i a s" by (rule only_conn_before [OF srv_okD(1) [OF ok] ex only])
  have own: "owned (s\<lparr>s_incoming := ms\<rparr>) = owned s" "owned (s\<lparr>outgoing := os\<rparr>) = owned s" for ms os
    by (simp_all add: owned_def fun_eq_iff)
  have h: "read_from (SHandle k) s = []" "written_to (SHandle k) = []" for k
    by (simp_all add: read_from_def written_to_def)
  show ?thesis using ex
  proof (cases rule: server_exec_cases)
    case (connect m b ms)
    then show ?thesis using link_effect_connect [OF srv_okD(1) [OF ok] only connect(3), of e W] h by simp
  next
    case (again am ms)
    then show ?thesis using h by (intro link_effect_none conn_of_cong) (simp_all add: pend_def)
  next
    case (packet m b ms)
    let ?s1 = "s\<lparr>s_incoming := ms\<rparr>"
    have "set ms \<subseteq> W" "(m, b) \<in> W" using srv_okD(3) [OF ok] packet(1) by auto
    then have ok1: "srv_ok W ?s1" using srv_ok_frame [OF ok, of ?s1] by simp
    have "link_effect sp i a W e s (route (ToIncoming m) ?s1) []"
      using ok1
    proof (rule link_effect_route)
      show "pending_ok W (taken_up (ToIncoming m) ?s1) \<or> pending_id (ToIncoming m) \<notin> set (clients ?s1)"
        using packet(3) \<open>(m, b) \<in> W\<close> by (auto simp: pending_ok_def taken_up_def)
    qed (use ids only_s packet(2,4) h own in \<open>simp_all add: own_ids_def only_conn_def pend_def taken_up_def\<close>)
    then show ?thesis using packet(5,6) by simp
  next
    case (payload m ms)
    let ?s1 = "s\<lparr>outgoing := ms\<rparr>"
    have ok1: "srv_ok W ?s1" using srv_ok_frame [OF ok, of ?s1] srv_okD(3) [OF ok] payload(1) by auto
    have "link_effect sp i a W e s (route (ToTmsg m) ?s1) []"
      using ok1
    proof (rule link_effect_route)
      show "pending_ok W (taken_up (ToTmsg m) ?s1) \<or> pending_id (ToTmsg m) \<notin> set (clients ?s1)"
        using srv_okD(4) [OF ok, of m] payload(1) by (auto simp: pending_ok_def taken_up_def)
      show "pend i (taken_up (ToTmsg m) ?s1) = pend i s" by (rule pend_taken(1) [OF payload(3,1)])
    qed (use ids only_s payload(1,2,3) h own in \<open>simp_all add: own_ids_def only_conn_def pend_def\<close>)
    then show ?thesis using payload(4,5) by simp
  next
    case (pending p u)
    have "pending_id p \<in> set (clients s)" using pending_okD(1) [OF srv_okD(7) [OF ok] pending(2)] .
    then obtain c where c: "gm_get (conns s) (pending_id p) = Some c"
      using srv_okD(1) [OF ok] gm_key_get [of "pending_id p" "conns s"] unfolding registry_ok_def by blast
    have "t = passed_on p c s" using conn_send_eq [OF pending(3) c] pending(4) by (simp add: passed_on_def)
    moreover have "link_effect sp i a W e s (passed_on p c s) []"
      using ok ids only_s pending(2) c by (rule link_effect_passed_on) (simp_all add: pending(1) h)
    ultimately show ?thesis using pending(5) by simp
  next
    case (unregister j js)
    have f: "handle_send t = None" "outgoing t = outgoing s" "s_rmsg t = s_rmsg s" "set (clients t) \<subseteq> set (clients s)"
      using unregister(3,4) handle_cls_frame [of j "s\<lparr>cls := js\<rparr>"] by simp_all
    then have pend: "pend i t = pend i s" using unregister(3) by (simp add: pend_def)
    have "gm_get (conns t) i = gm_get (conns s) i \<or>
        (\<exists>c. gm_get (conns s) i = Some c \<and> gm_get (conns t) i = Some (c\<lparr>ep_status := startClosing\<rparr>))"
      using handle_cls_get [of j "s\<lparr>cls := js\<rparr>" i] unregister(4) by simp
    then have "srv_link {m. (m, a) \<in> W} (conn_of sp i a s) {} [] [] (conn_of sp i a t)"
      using sl_none [of "{m. (m, a) \<in> W}"] sl_status [of "{m. (m, a) \<in> W}"] by (auto simp: conn_of_def)
    then show ?thesis
      using f pend unregister(1,5) h by (intro link_effectI [of a W sp i s "{}" "[]" "[]"]) auto
  next
    case (conn j h)
    then show ?thesis using link_effect_conn [OF _ only_s] by blast
  next
    case (receive am)
    then show ?thesis
      by (intro link_effect_none conn_of_cong) (simp_all add: pend_def read_from_def written_to_def)
  next
    case (read_data d ds)
    then show ?thesis
      by (intro link_effect_none conn_of_cong) (simp_all add: pend_def read_from_def written_to_def)
  next
    case (read_err d ds)
    then show ?thesis
      by (intro link_effect_none conn_of_cong) (simp_all add: pend_def read_from_def written_to_def)
  next
    case (writes j p)
    then show ?thesis
      by (intro link_effect_none conn_of_cong) (simp_all add: pend_def read_from_def written_to_def)
  next
    case (other st cl b rc ud)
    then show ?thesis by (intro link_effect_none conn_of_cong) (simp_all add: pend_def)
  qed
qed

section \<open>The system as seen from one client\<close>

definition view :: "Params \<Rightarrow> int \<Rightarrow> string \<Rightarrow> client \<Rightarrow> bytes list \<Rightarrow> sys \<Rightarrow> link" where
  "view sp i a c w s = \<lparr>cli = c, conn = conn_of sp i a (srv s), c2s = {m. (m, a) \<in> to_srv s},
     s2c = insert (NewAck i 0) {m. (m, a) \<in> to_cli s}, c_written = cli_written s a, s_written = w,
     c_delivered = cli_read s a @ rmsg c, s_delivered = payloads i (srv_read s) @ payloads i (s_rmsg (srv s))\<rparr>"

text \<open>
  The payloads \<open>w\<close> that \<open>handle\<close> has passed to the connection are the first ones written to
  it, and all but those on their way while it is registered.
\<close>

definition passed :: "int \<Rightarrow> bytes list \<Rightarrow> sys \<Rightarrow> bool" where
  "passed i w s \<longleftrightarrow> prefix w (payloads i (srv_written s)) \<and>
     (i \<in> set (clients (srv s)) \<longrightarrow> payloads i (srv_written s) = w @ pend i (srv s))"

definition sim :: "Params \<Rightarrow> int \<Rightarrow> string \<Rightarrow> sys \<Rightarrow> bool" where
  "sim sp i a s \<longleftrightarrow> (\<forall>c. clis s a = Some c \<longrightarrow>
     (\<exists>cp w. reach (link_init cp sp i a) link_step (view sp i a c w s) \<and> passed i w s))"

lemma client_exec_reads:
  assumes "client_exec e c = Some (c', sent)"
  shows "read_by e c @ rmsg c' = rmsg c @ delivered_by e c c'"
proof (cases e)
  case (CHandler h)
  with assms obtain out where "rmsg c' = rmsg c @ out" using client_handler_move [of h c c' sent] by auto
  then show ?thesis using CHandler by (simp add: read_by_def delivered_by_def)
next
  case (CRead p)
  with assms show ?thesis by (cases p) (auto simp: client_Read_def read_by_def delivered_by_def split: list.splits)
qed (use assms in \<open>auto simp: client_step_defs read_by_def delivered_by_def Let_def split: if_splits option.splits\<close>)

lemma view_client_move:
  assumes r: "reach init link_step (view sp i a c w s)" and may: "client_may a e s"
    and ex: "client_exec e c = Some (c', sent)"
    and t: "t = s\<lparr>clis := (clis s)(a \<mapsto> c'), to_srv := to_srv s \<union> (\<lambda>m. (m, a)) ` set sent,
      cli_written := (cli_written s)(a := cli_written s a @ written_by e),
      cli_read := (cli_read s)(a := cli_read s a @ read_by e c)\<rparr>"
  shows "reach init link_step (view sp i a c' w t)"
proof (cases "\<exists>m. e = CReceive (Some m)")
  case True
  then obtain m where m: "e = CReceive (Some m)" by blast
  then have "m \<in> s2c (view sp i a c w s)" using may by (simp add: client_may_def view_def)
  moreover have rc: "client_receiver (Some m) (cli (view sp i a c w s)) = Some c'" "sent = []"
    using ex m by (auto simp: view_def)
  ultimately have "reach init link_step ((view sp i a c w s)\<lparr>cli := c'\<rparr>)" using reach_step [OF r to_client] by blast
  moreover have "rmsg c' = rmsg c" using client_exec_reads [OF ex] m by (simp add: read_by_def delivered_by_def)
  ultimately show ?thesis using rc(2) by (simp add: view_def t m written_by_def read_by_def)
next
  case False
  let ?k = "view sp i a c w s"
  have "link_step ?k (KClient e) (?k\<lparr>cli := c', c2s := c2s ?k \<union> set sent,
      c_written := c_written ?k @ written_by e, c_delivered := c_delivered ?k @ delivered_by e (cli ?k) c'\<rparr>)"
  proof (rule client_moves)
    show "client_exec e (cli ?k) = Some (c', sent)" using ex by (simp add: view_def)
    show "\<forall>m. e \<noteq> CReceive (Some m)" using False by blast
  qed
  moreover have "{m. (m, a) \<in> to_srv s \<or> (m, a) \<in> (\<lambda>m. (m, a)) ` set sent} = {m. (m, a) \<in> to_srv s} \<union> set sent" by blast
  moreover have "(cli_read s a @ rmsg c) @ delivered_by e c c' = (cli_read s a @ read_by e c) @ rmsg c'"
    using client_exec_reads [OF ex] by simp
  ultimately show ?thesis using reach_step [OF r, of "KClient e"] by (simp add: view_def t del: append_assoc)
qed

lemma pend_fresh:
  assumes "srv_ok W s" and "i \<notin> gm_keys (conns s)"
  shows "pend i s = []"
proof -
  have "ConnID m \<noteq> i" if "m \<in> set (outgoing s)" for m using srv_okD(4) [OF assms(1) that] assms(2) by blast
  moreover have "ConnID m \<noteq> i" if "handle_send s = Some (ToTmsg m)" for m
    using pending_okD(1) [OF srv_okD(7) [OF assms(1)] that] srv_okD(1) [OF assms(1)] assms(2)
    by (auto simp: registry_ok_def)
  ultimately show ?thesis
    by (auto simp: pend_def filter_empty_conv split: option.split pending_send.split)
qed

lemma view_server_move:
  assumes inv: "sys_inv s" and r: "reach init link_step (view sp i a c w s)" and p: "passed i w s"
    and ex: "server_exec sp e (srv s) = Some (u, sent)" and only: "only_conn i a u"
    and t: "t = s\<lparr>srv := u, to_cli := to_cli s \<union> set sent, srv_written := srv_written s @ written_to e,
      srv_read := srv_read s @ read_from e (srv s), known := k\<rparr>"
  shows "\<exists>w'. reach init link_step (view sp i a c w' t) \<and> passed i w' t"
proof -
  note I = sys_invD [OF inv]
  have "link_effect sp i a (to_srv s) e (srv s) u sent"
    using server_exec_link [OF I(1) _ ex only] I(2) by blast
  then obtain M out w' where l: "srv_link {m. (m, a) \<in> to_srv s} (conn_of sp i a (srv s)) M out w' (conn_of sp i a u)"
    and M: "insert (NewAck i 0) {m. (m, a) \<in> set sent} = insert (NewAck i 0) M"
    and out: "payloads i (read_from e (srv s)) @ payloads i (s_rmsg u) = payloads i (s_rmsg (srv s)) @ out"
    and w: "if i \<in> set (clients u)
      then (i \<in> set (clients (srv s)) \<or> i \<notin> gm_keys (conns (srv s))) \<and> pend i (srv s) @ payloads i (written_to e) = w' @ pend i u
      else w' = []"
    unfolding link_effect_def by blast
  let ?k = "view sp i a c w s"
  have "reach init link_step (?k\<lparr>conn := conn_of sp i a u, s2c := s2c ?k \<union> M, s_written := s_written ?k @ w',
      s_delivered := s_delivered ?k @ out\<rparr>)"
    by (rule srv_link_reach [OF _ r]) (use l in \<open>simp add: view_def\<close>)
  moreover have "insert (NewAck i 0) {m. (m, a) \<in> to_cli s \<or> (m, a) \<in> set sent} =
      insert (NewAck i 0) ({m. (m, a) \<in> to_cli s} \<union> M)"
    using M by blast
  ultimately have "reach init link_step (view sp i a c (w @ w') t)" using out by (simp add: view_def t)
  moreover have "passed i (w @ w') t"
  proof (cases "i \<in> set (clients u)")
    case True
    have "payloads i (srv_written s) = w @ pend i (srv s)"
    proof (cases "i \<in> gm_keys (conns (srv s))")
      case True
      with w \<open>i \<in> set (clients u)\<close> p show ?thesis by (simp add: passed_def)
    next
      case False
      then have "payloads i (srv_written s) = []" using I(6) by (intro payloads_absent) blast
      then show ?thesis using p pend_fresh [OF I(1) False] by (simp add: passed_def)
    qed
    then show ?thesis using w True by (simp add: passed_def t)
  next
    case False
    then show ?thesis using w p by (simp add: passed_def t)
  qed
  ultimately show ?thesis by blast
qed

lemma view_dial:
  assumes inv: "sys_inv s" and a: "clis s a = None" and c: "NewClient None None cp = Waiting c sent"
    and only: "only_conn i a (srv s)"
    and t: "t = s\<lparr>clis := (clis s)(a \<mapsto> c), to_srv := to_srv s \<union> (\<lambda>m. (m, a)) ` set sent\<rparr>"
  shows "link_init cp sp i a (view sp i a c [] t) \<and> passed i [] t"
proof -
  note I = sys_invD [OF inv]
  have no: "owned (srv s) a = {}"
    using srv_okD(2) [OF I(1)] I(2) a by (fastforce simp: owned_def conn_ok_def)
  have i: "i \<notin> gm_keys (conns (srv s))"
  proof
    assume "i \<in> gm_keys (conns (srv s))"
    then obtain d where "gm_get (conns (srv s)) i = Some d" using gm_key_get by metis
    then have "i \<in> owned (srv s) (addr d)" by (simp add: owned_def)
    with only no show False by (auto simp: only_conn_def)
  qed
  have l: "payloads i (srv_written s) = []" "payloads i (srv_read s) = []" "payloads i (s_rmsg (srv s)) = []"
    using i I(6) srv_okD(5) [OF I(1)] by (intro payloads_absent, blast)+
  have W: "{m. (m, a) \<in> to_srv s \<or> (m, a) \<in> (\<lambda>m. (m, a)) ` set sent} = set sent" "{m. (m, a) \<in> to_cli s} = {}"
    using I(2,3) a no by blast+
  have "rmsg c = []" using c by (auto simp: NewClient_def Let_def)
  then have "link_init cp sp i a (view sp i a c [] t)"
    using c I(5) [OF a] l W gm_get_None_key [of "conns (srv s)" i] i
    by (simp add: link_init_def view_def t conn_of_def)
  moreover have "passed i [] t" using l pend_fresh [OF I(1) i] by (simp add: passed_def t)
  ultimately show ?thesis by blast
qed

lemma sim_step:
  assumes inv: "sys_inv s" and st: "sys_step sp s e t" and only: "only_conn i a (srv t)"
    and sim: "only_conn i a (srv s) \<Longrightarrow> sim sp i a s"
  shows "sim sp i a t"
proof (cases e)
  case (Dial b cp)
  with st obtain c sent where c: "clis s b = None" "NewClient None None cp = Waiting c sent"
    and t: "t = s\<lparr>clis := (clis s)(b \<mapsto> c), to_srv := to_srv s \<union> (\<lambda>m. (m, b)) ` set sent\<rparr>"
    by (auto simp: sys_step_def split: if_splits new_client.splits)
  show ?thesis
  proof (cases "b = a")
    case True
    have "link_init cp sp i a (view sp i a c [] t) \<and> passed i [] t"
      using view_dial [OF inv _ c(2), of a i t sp] c(1) only t True by simp
    then show ?thesis using True t by (auto simp: sim_def intro: reach_init)
  next
    case False
    then have "view sp i a d w t = view sp i a d w s" "passed i w t = passed i w s" for d w
      by (auto simp: view_def passed_def t)
    then show ?thesis using sim only False by (simp add: sim_def t)
  qed
next
  case (AtClient b e')
  with st obtain c c' sent where c: "clis s b = Some c" "client_may b e' s" "client_exec e' c = Some (c', sent)"
    and t: "t = s\<lparr>clis := (clis s)(b \<mapsto> c'), to_srv := to_srv s \<union> (\<lambda>m. (m, b)) ` set sent,
      cli_written := (cli_written s)(b := cli_written s b @ written_by e'),
      cli_read := (cli_read s)(b := cli_read s b @ read_by e' c)\<rparr>"
    by (auto simp: sys_step_def split: if_splits option.splits)
  have p: "passed i w t = passed i w s" for w by (simp add: passed_def t)
  show ?thesis
  proof (cases "b = a")
    case True
    obtain cp w where "reach (link_init cp sp i a) link_step (view sp i a c w s)" "passed i w s"
      using sim only c(1) True by (auto simp: sim_def t)
    then have "reach (link_init cp sp i a) link_step (view sp i a c' w t)" "passed i w t"
      using view_client_move [OF _ _ c(3), of "link_init cp sp i a" sp i a w s t] c(2) t True p by simp_all
    then show ?thesis using True by (auto simp: sim_def t)
  next
    case False
    then have "view sp i a d w t = view sp i a d w s" for d w by (auto simp: view_def t)
    then show ?thesis using sim only False p by (simp add: sim_def t)
  qed
next
  case (AtServer e')
  with st obtain u sent where ex: "server_exec sp e' (srv s) = Some (u, sent)"
    and t: "t = s\<lparr>srv := u, to_cli := to_cli s \<union> set sent, srv_written := srv_written s @ written_to e',
        srv_read := srv_read s @ read_from e' (srv s), known := known s \<union> learned e' (srv s)\<rparr>"
    by (auto simp: sys_step_def split: if_splits option.splits)
  have only_u: "only_conn i a u" using only t by simp
  have "only_conn i a (srv s)" by (rule only_conn_before [OF srv_okD(1) [OF sys_invD(1) [OF inv]] ex only_u])
  then have "sim sp i a s" by (rule sim)
  show ?thesis
    unfolding sim_def
  proof (intro allI impI)
    fix c assume "clis t a = Some c"
    then have "clis s a = Some c" using t by simp
    then obtain cp w where "reach (link_init cp sp i a) link_step (view sp i a c w s)" "passed i w s"
      using \<open>sim sp i a s\<close> by (auto simp: sim_def)
    from view_server_move [OF inv this ex only_u t]
    show "\<exists>cp w. reach (link_init cp sp i a) link_step (view sp i a c w t) \<and> passed i w t" by blast
  qed
qed

text \<open>The simulation, for every connection that stays the only one of its address.\<close>

interpretation simulation: inductive_invariant sys_init "sys_step sp"
  "\<lambda>s. sys_inv s \<and> (only_conn i a (srv s) \<longrightarrow> sim sp i a s)" for sp i a
proof
  show "sys_inv s \<and> (only_conn i a (srv s) \<longrightarrow> sim sp i a s)" if "sys_init s" for s
    using that sys_init_inv by (simp add: sim_def sys_init_def)
  show "sys_inv t \<and> (only_conn i a (srv t) \<longrightarrow> sim sp i a t)"
    if H: "sys_inv s \<and> (only_conn i a (srv s) \<longrightarrow> sim sp i a s)" and st: "sys_step sp s e t" for s e t
  proof
    show "sys_inv t" by (rule sys_inv_step [OF conjunct1 [OF H] st])
    show "only_conn i a (srv t) \<longrightarrow> sim sp i a t"
      using sim_step [OF conjunct1 [OF H] st, of i a] H by simp
  qed
qed

lemma system_view:
  assumes "reach sys_init (sys_step sp) s" and "clis s a = Some c"
    and "gm_get (conns (srv s)) i = Some d" and "addr d = a"
    and "\<forall>j d'. gm_get (conns (srv s)) j = Some d' \<and> addr d' = a \<longrightarrow> j = i"
  obtains cp w where "reach (link_init cp sp i a) link_step (view sp i a c w s)" "passed i w s"
    "conn (view sp i a c w s) = d"
proof -
  have "only_conn i a (srv s)" using assms(3-5) by (auto simp: only_conn_def owned_def)
  then have "sim sp i a s" using simulation.reach_inv [OF assms(1)] by blast
  with assms(2) obtain cp w where "reach (link_init cp sp i a) link_step (view sp i a c w s)" "passed i w s"
    by (auto simp: sim_def)
  with that show ?thesis using assms(3) by (simp add: view_def conn_of_def)
qed

lemma system_delivers:
  assumes "reach sys_init (sys_step sp) s" and "clis s a = Some c"
    and "gm_get (conns (srv s)) i = Some d" and "addr d = a"
    and "\<forall>j d'. gm_get (conns (srv s)) j = Some d' \<and> addr d' = a \<longrightarrow> j = i"
  shows "prefix (payloads i (srv_read s)) (cli_written s a) \<and> prefix (cli_read s a) (payloads i (srv_written s))"
proof -
  obtain cp w where r: "reach (link_init cp sp i a) link_step (view sp i a c w s)" and p: "passed i w s"
    using system_view [OF assms] by blast
  obtain u v where "c_written (view sp i a c w s) = s_delivered (view sp i a c w s) @ u"
      "s_written (view sp i a c w s) = c_delivered (view sp i a c w s) @ v"
    using link_inv_prefixes [OF link.reach_inv [OF r]] .
  then have "cli_written s a = payloads i (srv_read s) @ payloads i (s_rmsg (srv s)) @ u" "w = cli_read s a @ rmsg c @ v"
    by (simp_all add: view_def)
  moreover have "prefix w (payloads i (srv_written s))" using p by (simp add: passed_def)
  ultimately show ?thesis using prefix_order.trans [of "cli_read s a" w] by simp
qed

section \<open>Properties\<close>

text \<open>
  C1: the service a server gives to each of its clients. Any number of clients use one server
  over a network that loses, repeats and reorders packets. In every reachable state, for a client
  whose address has had one connection, the payloads the application of the server has read from
  that connection are a prefix of those the client has written, and the payloads the client
  has read are a prefix of those written to its connection, whatever other clients do, however
  handlers, routing and full channels interleave.
\<close>

theorem lsp_system_delivery:
  assumes "reach sys_init (sys_step sp) s" and "clis s a = Some c"
    and "gm_get (conns (srv s)) i = Some d" and "addr d = a"
    and "\<forall>j d'. gm_get (conns (srv s)) j = Some d' \<and> addr d' = a \<longrightarrow> j = i"
  shows "prefix (payloads i (srv_read s)) (cli_written s a) \<and> prefix (cli_read s a) (payloads i (srv_written s))"
  using assms by (rule system_delivers)

text \<open>Two clients and a server that echoes.\<close>

definition sys_start :: sys where
  "sys_start = \<lparr>srv = (case NewServer None None of Inr s \<Rightarrow> s), clis = Map.empty, to_srv = {}, to_cli = {},
     cli_written = (\<lambda>_. []), cli_read = (\<lambda>_. []), srv_written = [], srv_read = [], known = {}\<rparr>"

definition sys_run :: "sys_event list" where
  "sys_run = [Dial ''a'' NewParams, Dial ''b'' NewParams,
     AtServer (SReceive (Some (NewConnect, ''b''))), AtServer (SReceive (Some (NewConnect, ''a''))),
     AtServer (SHandle HIncoming), AtServer (SHandle HIncoming),
     AtClient ''a'' (CReceive (Some (NewAck 74 0))), AtClient ''a'' (CHandler EvIncoming),
     AtClient ''a'' (CWrite ''x''), AtClient ''a'' (CHandler EvDefault),
     AtServer (SReceive (Some (NewData 74 1 1 ''x'', ''a''))), AtServer (SHandle HIncoming),
     AtServer (SConn 74 EvIncoming), AtServer (SRead PickData), AtServer (SWrite 74 ''x''),
     AtServer (SHandle HOutgoing), AtServer (SConn 74 EvDefault),
     AtClient ''a'' (CReceive (Some (NewData 74 1 1 ''x''))), AtClient ''a'' (CHandler EvIncoming),
     AtClient ''a'' (CRead PickData)]"

lemma sys_run_result:
  "case run_opt (sys_exec NewParams) sys_run sys_start of None \<Rightarrow> False
   | Some s \<Rightarrow> srv_read s = [(74, ''x'')] \<and> cli_read s ''a'' = [''x''] \<and> clis s ''a'' \<noteq> None \<and>
       map (\<lambda>(i, d). (i, addr d)) (conns (srv s)) = [(73, ''b''), (74, ''a'')]"
  by code_simp

lemma sys_run_sent:
  "case run_opt (sys_exec NewParams) sys_run sys_start of None \<Rightarrow> False
   | Some s \<Rightarrow> (NewData 74 1 1 ''x'', ''a'') \<in> to_srv s \<and> cli_written s ''a'' = [''x''] \<and> srv_written s = [(74, ''x'')]"
  by code_simp

lemma sys_run_reach:
  assumes "run_opt (sys_exec sp) es sys_start = Some s"
  shows "reach sys_init (sys_step sp) s"
proof -
  have "steps (sys_step sp) sys_start es s" using run_opt_steps [OF assms] by (simp add: sys_step_def [abs_def])
  moreover have "sys_init sys_start" by (simp add: sys_init_def sys_start_def NewServer_def)
  ultimately show ?thesis by (blast intro: reach_steps reach_init)
qed

lemma two_conns:
  assumes "map (\<lambda>(i, d). (i, addr d)) cs = [(i1, a1), (i2, a2)]" and "i1 \<noteq> i2" and "a1 \<noteq> a2"
  shows "\<exists>d. gm_get cs i2 = Some d \<and> addr d = a2 \<and> (\<forall>j e. gm_get cs j = Some e \<and> addr e = a2 \<longrightarrow> j = i2)"
proof -
  from assms(1) obtain d d' where "cs = [(i1, d'), (i2, d)]" "addr d' = a1" "addr d = a2"
    by (auto simp: map_eq_Cons_conv)
  with assms(2,3) show ?thesis by auto
qed

theorem lsp_system_delivery_witness:
  "\<exists>s. run_opt (sys_exec NewParams) sys_run sys_start = Some s \<and> payloads 74 (srv_read s) = [''x''] \<and>
     cli_read s ''a'' = [''x''] \<and> prefix (payloads 74 (srv_read s)) (cli_written s ''a'') \<and>
     prefix (cli_read s ''a'') (payloads 74 (srv_written s))"
proof -
  obtain s c where s: "run_opt (sys_exec NewParams) sys_run sys_start = Some s" "srv_read s = [(74, ''x'')]"
      "cli_read s ''a'' = [''x'']" "clis s ''a'' = Some c"
    and m: "map (\<lambda>(i, d). (i, addr d)) (conns (srv s)) = [(73, ''b''), (74, ''a'')]"
    using sys_run_result by (auto split: option.splits)
  obtain d where g: "gm_get (conns (srv s)) 74 = Some d" "addr d = ''a''"
    "\<forall>j e. gm_get (conns (srv s)) j = Some e \<and> addr e = ''a'' \<longrightarrow> j = 74"
    using two_conns [OF m] by auto
  from lsp_system_delivery [OF sys_run_reach [OF s(1)] s(4) g] s show ?thesis by simp
qed

text \<open>
  C4: what an orderly close has delivered. When the close guard of a client's handler holds, every
  payload its application has written has reached the server, in order: it has been read there or
  waits in \<open>s.rmsg\<close>. The guard of a connection of the server speaks only of what \<open>handle\<close> has passed
  to it: if the connection is registered and no payload for it is on the way through \<open>s.outgoing\<close>,
  every payload written to it has been read by the client or waits in its \<open>rmsg\<close>.
\<close>

theorem lsp_close_flushes:
  assumes "reach sys_init (sys_step sp) s" and "clis s a = Some c"
    and "gm_get (conns (srv s)) i = Some d" and "addr d = a"
    and "\<forall>j d'. gm_get (conns (srv s)) j = Some d' \<and> addr d' = a \<longrightarrow> j = i"
  shows "(close_ready c \<longrightarrow>
      payloads i (srv_read s) @ payloads i (s_rmsg (srv s)) = cli_written s a) \<and>
    (close_ready d \<and> i \<in> set (clients (srv s)) \<and> pend i (srv s) = [] \<longrightarrow>
      cli_read s a @ rmsg c = payloads i (srv_written s))"
proof -
  obtain cp w where r: "reach (link_init cp sp i a) link_step (view sp i a c w s)" and p: "passed i w s"
    and d: "conn (view sp i a c w s) = d"
    using system_view [OF assms] by blast
  have "s_delivered (view sp i a c w s) = c_written (view sp i a c w s)" if "close_ready c"
    using link_close_flushed(1) [OF link.reach_inv [OF r]] that by (simp add: view_def)
  moreover have "c_delivered (view sp i a c w s) = s_written (view sp i a c w s)" if "close_ready d"
    using link_close_flushed(2) [OF link.reach_inv [OF r]] that d by simp
  ultimately show ?thesis using p by (simp add: view_def passed_def)
qed

text \<open>The two clients and the echo, continued until both ends of a connection may close.\<close>

definition closing_run :: "sys_event list" where
  "closing_run = sys_run @
     [AtClient ''a'' (CReceive (Some (NewAck 74 1))), AtClient ''a'' (CHandler EvIncoming),
      AtServer (SReceive (Some (NewAck 74 1, ''a''))), AtServer (SHandle HIncoming), AtServer (SConn 74 EvIncoming),
      AtClient ''a'' CCloseBegin, AtServer SCloseBegin, AtServer (SConn 74 EvDefault)]"

lemma closing_run_result:
  "case run_opt (sys_exec NewParams) closing_run sys_start of None \<Rightarrow> False
   | Some s \<Rightarrow> (case clis s ''a'' of None \<Rightarrow> False | Some c \<Rightarrow> close_ready c \<and> rmsg c = []) \<and>
       (case gm_get (conns (srv s)) 74 of None \<Rightarrow> False | Some d \<Rightarrow> close_ready d) \<and>
       (clients (srv s) = [74, 73] \<and> outgoing (srv s) = [] \<and> handle_send (srv s) = None \<and> s_rmsg (srv s) = []) \<and>
       map (\<lambda>(i, d). (i, addr d)) (conns (srv s)) = [(73, ''b''), (74, ''a'')] \<and>
       cli_written s ''a'' = [''x''] \<and> srv_written s = [(74, ''x'')]"
  by code_simp

theorem lsp_close_flushes_witness:
  "\<exists>s c d. run_opt (sys_exec NewParams) closing_run sys_start = Some s \<and> clis s ''a'' = Some c \<and>
     gm_get (conns (srv s)) 74 = Some d \<and> close_ready c \<and> close_ready d \<and>
     payloads 74 (srv_read s) = [''x''] \<and> cli_read s ''a'' = [''x'']"
proof -
  obtain s c d' where s: "run_opt (sys_exec NewParams) closing_run sys_start = Some s" "clis s ''a'' = Some c"
      "close_ready c" "rmsg c = []" "clients (srv s) = [74, 73]" "outgoing (srv s) = []" "handle_send (srv s) = None"
      "s_rmsg (srv s) = []" "cli_written s ''a'' = [''x'']" "srv_written s = [(74, ''x'')]"
      "gm_get (conns (srv s)) 74 = Some d'" "close_ready d'"
    and m: "map (\<lambda>(i, d). (i, addr d)) (conns (srv s)) = [(73, ''b''), (74, ''a'')]"
    using closing_run_result by (auto split: option.splits)
  obtain d where g: "gm_get (conns (srv s)) 74 = Some d" "addr d = ''a''"
    "\<forall>j e. gm_get (conns (srv s)) j = Some e \<and> addr e = ''a'' \<longrightarrow> j = 74"
    using two_conns [OF m] by auto
  have "close_ready d" using s(11,12) g(1) by simp
  with lsp_close_flushes [OF sys_run_reach [OF s(1)] s(2) g] s g(1) show ?thesis by (simp add: pend_def)
qed

end
