(* ===== verification/Utf8.thy ===== *)
theory Utf8
  imports Dsys_Prelude
begin

text \<open>
  What the word count uses of Go's text library: decoding of UTF-8 into runes as
  \<open>range\<close> over a string does it, \<open>strings.FieldsFunc\<close>, \<open>unicode.IsLetter\<close> on Latin-1,
  and the replacement of invalid bytes by \<open>encoding/json\<close>. The lemmas show that decoding
  starts afresh after a newline and that concatenated valid encodings decode to themselves.
\<close>

section \<open>Runes\<close>

definition byte :: "char \<Rightarrow> nat" where
  "byte c = of_char c"

definition RuneError :: nat where
  "RuneError = 65533"

text \<open>
  A continuation byte, and the accepted range of the second byte, which is narrower after
  the first bytes \<open>E0\<close>, \<open>ED\<close>, \<open>F0\<close> and \<open>F4\<close>.
\<close>

definition cont :: "char \<Rightarrow> bool" where
  "cont c \<longleftrightarrow> 128 \<le> byte c \<and> byte c \<le> 191"

definition second_ok :: "char \<Rightarrow> char \<Rightarrow> bool" where
  "second_ok a b \<longleftrightarrow>
     (if byte a = 224 then 160 else if byte a = 240 then 144 else 128) \<le> byte b \<and>
     byte b \<le> (if byte a = 237 then 159 else if byte a = 244 then 143 else 191)"

text \<open>
  The valid encoding a text starts with: the rune and the number of its bytes, or
  \<open>None\<close> where Go yields \<open>RuneError\<close> and consumes one byte.
\<close>

fun lead :: "string \<Rightarrow> (nat \<times> nat) option" where
  "lead [] = None"
| "lead (a # s) =
    (if byte a < 128 then Some (byte a, 1)
     else if 194 \<le> byte a \<and> byte a \<le> 223 then
       (case s of
          b # _ \<Rightarrow> if cont b then Some ((byte a - 192) * 64 + (byte b - 128), 2) else None
        | _ \<Rightarrow> None)
     else if 224 \<le> byte a \<and> byte a \<le> 239 then
       (case s of
          b # c # _ \<Rightarrow>
            if second_ok a b \<and> cont c
            then Some ((byte a - 224) * 4096 + (byte b - 128) * 64 + (byte c - 128), 3) else None
        | _ \<Rightarrow> None)
     else if 240 \<le> byte a \<and> byte a \<le> 244 then
       (case s of
          b # c # d # _ \<Rightarrow>
            if second_ok a b \<and> cont c \<and> cont d
            then Some ((byte a - 240) * 262144 + (byte b - 128) * 4096 + (byte c - 128) * 64
                       + (byte d - 128), 4) else None
        | _ \<Rightarrow> None)
     else None)"

text \<open>\<open>utf8.DecodeRuneInString\<close>: the rune and its width.\<close>

definition DecodeRune :: "string \<Rightarrow> nat \<times> nat" where
  "DecodeRune s = (case lead s of Some rw \<Rightarrow> rw | None \<Rightarrow> (RuneError, 1))"

lemma lead_width:
  assumes "lead s = Some (r, w)"
  shows "0 < w \<and> w \<le> length s"
  using assms by (cases s) (auto split: if_splits list.splits)

lemma DecodeRune_pos: "0 < snd (DecodeRune s)"
  by (auto simp: DecodeRune_def dest: lead_width split: option.splits)

text \<open>The runes of a text, each with the bytes it was decoded from.\<close>

function runes :: "string \<Rightarrow> (nat \<times> string) list" where
  "runes s = (if s = [] then []
     else let (r, w) = DecodeRune s in (r, take w s) # runes (drop w s))"
  by pat_completeness auto
termination
proof (relation "measure length")
  fix s :: string and p r w
  assume "s \<noteq> []" "p = DecodeRune s" "(r, w) = p"
  then show "(drop w s, s) \<in> measure length"
    using DecodeRune_pos [of s] by (cases s) (auto simp: prod_eq_iff)
qed simp

declare runes.simps [simp del]

lemma runes_Nil [simp]: "runes [] = []"
  by (simp add: runes.simps)

lemma runes_lead: "lead s = Some (r, w) \<Longrightarrow> runes s = (r, take w s) # runes (drop w s)"
  using lead_width [of s r w] by (subst runes.simps) (auto simp: DecodeRune_def)

lemma runes_bad: "lead (c # s) = None \<Longrightarrow> runes (c # s) = (RuneError, [c]) # runes s"
  by (subst runes.simps) (simp add: DecodeRune_def)

lemma runes_concat: "concat (map snd (runes s)) = s"
proof (induction s rule: runes.induct)
  case (1 s)
  show ?case
  proof (cases s)
    case (Cons c t)
    then have "runes s = (fst (DecodeRune s), take (snd (DecodeRune s)) s) # runes (drop (snd (DecodeRune s)) s)"
      by (subst runes.simps) (simp add: case_prod_beta)
    then show ?thesis using 1 [of "DecodeRune s" "fst (DecodeRune s)" "snd (DecodeRune s)"] Cons by simp
  qed simp
qed

text \<open>Decoding looks only at the bytes of the encoding.\<close>

lemma lead_take:
  assumes "lead s = Some (r, w)"
  shows "lead (take w s @ t) = Some (r, w)"
proof (cases s)
  case (Cons a s')
  show ?thesis
  proof (cases s')
    case Nil
    with assms Cons show ?thesis by (auto split: if_splits)
  next
    case c1: (Cons b s'')
    show ?thesis
    proof (cases s'')
      case Nil
      with assms Cons c1 show ?thesis by (auto split: if_splits)
    next
      case c2: (Cons c s3)
      then show ?thesis
        using assms Cons c1 by (cases s3) (auto split: if_splits)
    qed
  qed
qed (use assms in simp)

lemma lead_newline: "lead (CHR 0x0A # s) = Some (10, 1)"
  by (simp add: byte_def)

lemma not_cont_newline: "\<not> cont (CHR 0x0A)" "\<not> second_ok a (CHR 0x0A)"
  by (simp_all add: cont_def second_ok_def byte_def)

text \<open>A newline ends whatever encoding was begun before it.\<close>

lemma lead_before_newline: "a \<noteq> [] \<Longrightarrow> lead (a @ CHR 0x0A # b) = lead a"
proof (cases a)
  case (Cons x a1)
  then show ?thesis
  proof (cases a1)
    case Nil
    with Cons show ?thesis by (auto simp: not_cont_newline split: list.splits)
  next
    case c1: (Cons y a2)
    then show ?thesis
    proof (cases a2)
      case Nil
      with Cons c1 show ?thesis by (auto simp: not_cont_newline split: list.splits)
    next
      case c2: (Cons z a3)
      then show ?thesis
        using Cons c1 by (cases a3) (auto simp: not_cont_newline split: list.splits)
    qed
  qed
qed simp

lemma runes_newline: "runes (a @ CHR 0x0A # b) = runes a @ (10, [CHR 0x0A]) # runes b"
proof (induction a rule: runes.induct)
  case (1 a)
  show ?case
  proof (cases a)
    case Nil
    then show ?thesis by (simp add: runes_lead [OF lead_newline])
  next
    case (Cons c t)
    show ?thesis
    proof (cases "lead a")
      case None
      then have "runes a = (RuneError, [c]) # runes t"
        "runes (a @ CHR 0x0A # b) = (RuneError, [c]) # runes (t @ CHR 0x0A # b)"
        using Cons lead_before_newline [of a b] by (simp_all add: runes_bad)
      moreover have "DecodeRune a = (RuneError, 1)" using None by (simp add: DecodeRune_def)
      ultimately show ?thesis using 1 [of "(RuneError, 1)" RuneError 1] Cons by simp
    next
      case (Some p)
      then obtain r w where l: "lead a = Some (r, w)" by (cases p) auto
      then have "w \<le> length a" using lead_width by blast
      moreover have "lead (a @ CHR 0x0A # b) = Some (r, w)"
        using l Cons lead_before_newline [of a b] by simp
      moreover have "DecodeRune a = (r, w)" "a \<noteq> []" using l Cons by (simp_all add: DecodeRune_def)
      ultimately show ?thesis
        using 1 [of "(r, w)" r w] runes_lead [OF l] runes_lead [of "a @ CHR 0x0A # b" r w] by simp
    qed
  qed
qed

section \<open>Valid text\<close>

text \<open>An encoding that decodes to itself, whatever follows.\<close>

definition valid_rune :: "nat \<times> string \<Rightarrow> bool" where
  "valid_rune rb \<longleftrightarrow> lead (snd rb) = Some (fst rb, length (snd rb))"

definition valid_utf8 :: "string \<Rightarrow> bool" where
  "valid_utf8 s \<longleftrightarrow> list_all valid_rune (runes s)"

text \<open>
  \<open>encoding/json\<close> writes a string with escapes that its decoder undoes, except that every
  invalid byte is replaced by the encoding of \<open>RuneError\<close>.
\<close>

definition json_text :: "string \<Rightarrow> string" where
  "json_text s = concat (map (\<lambda>rb. if valid_rune rb then snd rb else [CHR 0xEF, CHR 0xBF, CHR 0xBD]) (runes s))"

lemma json_text_valid: "valid_utf8 s \<Longrightarrow> json_text s = s"
proof -
  assume "valid_utf8 s"
  then have "map (\<lambda>rb. if valid_rune rb then snd rb else [CHR 0xEF, CHR 0xBF, CHR 0xBD]) (runes s)
    = map snd (runes s)"
    by (auto simp: valid_utf8_def list_all_iff)
  then show ?thesis unfolding json_text_def by (simp only: runes_concat)
qed

lemma runes_valid: "valid_rune (r, b) \<Longrightarrow> runes (b @ s) = (r, b) # runes s"
proof -
  assume "valid_rune (r, b)"
  then have "lead b = Some (r, length b)" by (simp add: valid_rune_def)
  from lead_take [OF this, of s] show ?thesis by (simp add: runes_lead)
qed

lemma runes_valid_list: "list_all valid_rune rs \<Longrightarrow> runes (concat (map snd rs)) = rs"
proof (induction rs)
  case (Cons rb rs)
  then show ?case using runes_valid [of "fst rb" "snd rb"] by simp
qed simp

lemma valid_utf8_concat: "list_all valid_rune rs \<Longrightarrow> valid_utf8 (concat (map snd rs))"
  by (simp add: valid_utf8_def runes_valid_list)

text \<open>What \<open>runes\<close> yields is a valid encoding or a replaced byte.\<close>

lemma runes_valid_or_error: "rb \<in> set (runes s) \<Longrightarrow> valid_rune rb \<or> fst rb = RuneError \<and> length (snd rb) = 1"
proof (induction s rule: runes.induct)
  case (1 s)
  show ?case
  proof (cases s)
    case (Cons c t)
    show ?thesis
    proof (cases "lead s")
      case None
      then show ?thesis
        using 1(1) [of "(RuneError, 1)" RuneError 1] 1(2) Cons
        by (auto simp: runes_bad DecodeRune_def)
    next
      case (Some p)
      then obtain r w where l: "lead s = Some (r, w)" by (cases p) auto
      then have "valid_rune (r, take w s)"
        using lead_take [OF l, of "[]"] lead_width [OF l] by (simp add: valid_rune_def min_def)
      then show ?thesis
        using 1(1) [of "(r, w)" r w] 1(2) Cons l runes_lead [OF l] by (auto simp: DecodeRune_def)
    qed
  qed (use 1 in simp)
qed

lemma valid_utf8_ascii: "list_all (\<lambda>c. byte c < 128) s \<Longrightarrow> valid_utf8 s"
proof -
  have "list_all (\<lambda>c. byte c < 128) s \<Longrightarrow> list_all valid_rune (runes s)"
  proof (induction s)
    case (Cons c s)
    then have "lead (c # s) = Some (byte c, 1)" by simp
    then show ?case using Cons by (simp add: runes_lead valid_rune_def)
  qed simp
  then show "list_all (\<lambda>c. byte c < 128) s \<Longrightarrow> valid_utf8 s" by (simp add: valid_utf8_def)
qed

lemma utoa_byte: "list_all (\<lambda>c. byte c < 128) (utoa n)"
  using utoa_digits [of n] by (auto simp: list_all_iff is_digit_def byte_def)

lemma valid_utf8_Itoa: "valid_utf8 (Itoa i)"
  using utoa_byte by (auto simp: Itoa_def byte_def intro!: valid_utf8_ascii)

section \<open>Letters and fields\<close>

text \<open>
  \<open>unicode.IsLetter\<close>. The letters of Latin-1 are written out; above Latin-1 the Unicode
  table is the parameter, of which only one entry matters: the replacement character,
  U+FFFD, is a symbol and not a letter.
\<close>

definition IsLetter :: "(nat \<Rightarrow> bool) \<Rightarrow> nat \<Rightarrow> bool" where
  "IsLetter table r \<longleftrightarrow>
    (if r \<le> 255 then 65 \<le> r \<and> r \<le> 90 \<or> 97 \<le> r \<and> r \<le> 122 \<or> r \<in> {170, 181, 186} \<or>
       192 \<le> r \<and> r \<noteq> 215 \<and> r \<noteq> 247
     else r \<noteq> RuneError \<and> table r)"

text \<open>
  \<open>strings.FieldsFunc\<close>: the maximal runs of runes that do not satisfy \<open>f\<close>, each as the
  bytes it has in the text. \<open>cur\<close> is the field that has been begun, the slice from
  \<open>start\<close> to the current index.
\<close>

fun fields_loop :: "(nat \<Rightarrow> bool) \<Rightarrow> (nat \<times> string) list \<Rightarrow> string option \<Rightarrow> string list" where
  "fields_loop f [] cur = (case cur of None \<Rightarrow> [] | Some s \<Rightarrow> [s])"
| "fields_loop f ((r, b) # rs) cur =
    (if f r then (case cur of None \<Rightarrow> fields_loop f rs None | Some s \<Rightarrow> s # fields_loop f rs None)
     else fields_loop f rs (Some ((case cur of None \<Rightarrow> [] | Some s \<Rightarrow> s) @ b)))"

definition FieldsFunc :: "string \<Rightarrow> (nat \<Rightarrow> bool) \<Rightarrow> string list" where
  "FieldsFunc s f = fields_loop f (runes s) None"

lemma fields_loop_sep:
  "f r \<Longrightarrow> fields_loop f (as @ (r, b) # bs) cur = fields_loop f as cur @ fields_loop f bs None"
  by (induction f as cur rule: fields_loop.induct) (auto split: option.splits)

lemma FieldsFunc_newline:
  "f 10 \<Longrightarrow> FieldsFunc (a @ CHR 0x0A # b) f = FieldsFunc a f @ FieldsFunc b f"
  by (simp add: FieldsFunc_def runes_newline fields_loop_sep)

text \<open>A field is a concatenation of encodings whose runes do not satisfy \<open>f\<close>.\<close>

definition field_of :: "(nat \<Rightarrow> bool) \<Rightarrow> (nat \<times> string) list \<Rightarrow> string \<Rightarrow> bool" where
  "field_of f rs s \<longleftrightarrow> (\<exists>ps. set ps \<subseteq> {rb \<in> set rs. \<not> f (fst rb)} \<and> s = concat (map snd ps))"

lemma fields_loop_fields:
  "(\<forall>c. cur = Some c \<longrightarrow> field_of f all c) \<Longrightarrow> set rs \<subseteq> set all \<Longrightarrow>
   s \<in> set (fields_loop f rs cur) \<Longrightarrow> field_of f all s"
proof (induction f rs cur rule: fields_loop.induct)
  case (1 f cur)
  then show ?case by (auto split: option.splits)
next
  case (2 f r b rs cur)
  show ?case
  proof (cases "f r")
    case True
    then show ?thesis using 2(1,2,4-6) by (auto split: option.splits)
  next
    case False
    have "field_of f all ((case cur of None \<Rightarrow> [] | Some s \<Rightarrow> s) @ b)"
    proof -
      obtain ps where ps: "set ps \<subseteq> {rb \<in> set all. \<not> f (fst rb)}"
        "(case cur of None \<Rightarrow> [] | Some s \<Rightarrow> s) = concat (map snd ps)"
      proof (cases cur)
        case None
        then show ?thesis using that [of "[]"] by simp
      next
        case (Some c)
        then show ?thesis using 2(4) that by (auto simp: field_of_def)
      qed
      have "set (ps @ [(r, b)]) \<subseteq> {rb \<in> set all. \<not> f (fst rb)}"
        using ps(1) 2(5) False by auto
      moreover have "(case cur of None \<Rightarrow> [] | Some s \<Rightarrow> s) @ b = concat (map snd (ps @ [(r, b)]))"
        using ps(2) by simp
      ultimately show ?thesis unfolding field_of_def by blast
    qed
    then show ?thesis using 2(3) False 2(5,6) by auto
  qed
qed

lemma FieldsFunc_valid:
  assumes "f RuneError" and "s \<in> set (FieldsFunc t f)"
  shows "valid_utf8 s"
proof -
  have "field_of f (runes t) s"
    using fields_loop_fields [of None f "runes t" "runes t" s] assms(2) by (simp add: FieldsFunc_def)
  then obtain ps where ps: "set ps \<subseteq> {rb \<in> set (runes t). \<not> f (fst rb)}" "s = concat (map snd ps)"
    by (auto simp: field_of_def)
  then have "list_all valid_rune ps"
    using runes_valid_or_error assms(1) by (fastforce simp: list_all_iff)
  then show ?thesis using valid_utf8_concat ps(2) by simp
qed

end
