(* ===== verification/Base64.thy ===== *)
theory Base64
  imports Utf8
begin

text \<open>
  The standard base64 encoding with padding, in which \<open>encoding/json\<close> writes and reads a
  \<open>[]byte\<close>.
\<close>

section \<open>The alphabet\<close>

definition b64_char :: "nat \<Rightarrow> char" where
  "b64_char i = char_of (if i < 26 then 65 + i else if i < 52 then 71 + i else if i < 62 then i - 4
     else if i = 62 then 43 else 47)"

definition b64_val :: "char \<Rightarrow> nat option" where
  "b64_val c = (let b = byte c in
     if 65 \<le> b \<and> b \<le> 90 then Some (b - 65) else if 97 \<le> b \<and> b \<le> 122 then Some (b - 71)
     else if 48 \<le> b \<and> b \<le> 57 then Some (b + 4) else if b = 43 then Some 62
     else if b = 47 then Some 63 else None)"

section \<open>Encoding and decoding\<close>

fun b64_encode :: "bytes \<Rightarrow> string" where
  "b64_encode [] = []"
| "b64_encode [a] = [b64_char (byte a div 4), b64_char (byte a mod 4 * 16), CHR ''='', CHR ''='']"
| "b64_encode [a, b] = [b64_char (byte a div 4), b64_char (byte a mod 4 * 16 + byte b div 16),
     b64_char (byte b mod 16 * 4), CHR ''='']"
| "b64_encode (a # b # c # s) = b64_char (byte a div 4) # b64_char (byte a mod 4 * 16 + byte b div 16) #
     b64_char (byte b mod 16 * 4 + byte c div 64) # b64_char (byte c mod 64) # b64_encode s"

text \<open>
  The decoder works on groups of four characters; only the last group may be padded. Spare
  bits of a padded group are ignored. Line breaks are skipped before.
\<close>

fun b64_groups :: "string \<Rightarrow> bytes option" where
  "b64_groups [] = Some []"
| "b64_groups (w # x # y # z # s) =
     (case (b64_val w, b64_val x) of
        (Some i, Some j) \<Rightarrow>
          let a = char_of (i * 4 + j div 16) in
          if s = [] \<and> y = CHR ''='' \<and> z = CHR ''='' then Some [a]
          else (case b64_val y of
             None \<Rightarrow> None
           | Some k \<Rightarrow>
               let b = char_of (j mod 16 * 16 + k div 4) in
               if s = [] \<and> z = CHR ''='' then Some [a, b]
               else (case b64_val z of
                  None \<Rightarrow> None
                | Some l \<Rightarrow> map_option (\<lambda>bs. a # b # char_of (k mod 4 * 64 + l) # bs) (b64_groups s)))
      | _ \<Rightarrow> None)"
| "b64_groups _ = None"

definition b64_decode :: "string \<Rightarrow> bytes option" where
  "b64_decode s = b64_groups (filter (\<lambda>c. c \<noteq> CHR 0x0A \<and> c \<noteq> CHR 0x0D) s)"

section \<open>Round trip\<close>

definition b64_char_ok :: "char \<Rightarrow> bool" where
  "b64_char_ok c \<longleftrightarrow> c = CHR ''='' \<or> b64_val c \<noteq> None"

lemma b64_val_char [simp]: "i < 64 \<Longrightarrow> b64_val (b64_char i) = Some i"
proof -
  assume i: "i < 64"
  consider "i < 26" | "26 \<le> i" "i < 52" | "52 \<le> i" "i < 62" | "i = 62" | "i = 63" using i by linarith
  then show ?thesis by cases (auto simp: b64_val_def b64_char_def byte_def Let_def)
qed

lemma b64_char_not_pad [simp]: "i < 64 \<Longrightarrow> b64_char i \<noteq> CHR ''=''"
proof -
  have "b64_val CHR ''='' = None" by (simp add: b64_val_def byte_def)
  moreover assume "i < 64"
  ultimately show ?thesis using b64_val_char by (metis option.distinct(1))
qed

lemma byte_less [simp]: "byte c < 256"
  by (simp add: byte_def)

lemma char_of_byte [simp]: "char_of (byte c) = c"
  by (simp add: byte_def)

text \<open>The bits of three bytes, cut into four numbers below 64, and back.\<close>

lemma b64_bits:
  assumes "a < 256" and "b < 256" and "c < (256 :: nat)"
  shows "a div 4 < 64" and "a mod 4 * 16 < 64" and "a mod 4 * 16 + b div 16 < 64"
    and "b mod 16 * 4 < 64" and "b mod 16 * 4 + c div 64 < 64" and "c mod 64 < 64"
    and "a div 4 * 4 + a mod 4 * 16 div 16 = a"
    and "a div 4 * 4 + (a mod 4 * 16 + b div 16) div 16 = a"
    and "(a mod 4 * 16 + b div 16) mod 16 * 16 + b mod 16 * 4 div 4 = b"
    and "(a mod 4 * 16 + b div 16) mod 16 * 16 + (b mod 16 * 4 + c div 64) div 4 = b"
    and "(b mod 16 * 4 + c div 64) mod 4 * 64 + c mod 64 = c"
proof -
  show "a div 4 < 64" "a mod 4 * 16 < 64" "b mod 16 * 4 < 64" "c mod 64 < 64" using assms by auto
  have q: "b div 16 < 16" "c div 64 < 4" using assms by auto
  then show "a mod 4 * 16 + b div 16 < 64" "b mod 16 * 4 + c div 64 < 64"
    using mod_less_divisor [of 4 a] mod_less_divisor [of 16 b] by linarith+
  have d: "(a mod 4 * 16 + b div 16) div 16 = a mod 4" "(a mod 4 * 16 + b div 16) mod 16 = b div 16"
    "(b mod 16 * 4 + c div 64) div 4 = b mod 16" "(b mod 16 * 4 + c div 64) mod 4 = c div 64"
    using q by simp_all
  show "a div 4 * 4 + a mod 4 * 16 div 16 = a" "a div 4 * 4 + (a mod 4 * 16 + b div 16) div 16 = a"
    unfolding d by simp_all
  show "(a mod 4 * 16 + b div 16) mod 16 * 16 + b mod 16 * 4 div 4 = b"
    "(a mod 4 * 16 + b div 16) mod 16 * 16 + (b mod 16 * 4 + c div 64) div 4 = b"
    "(b mod 16 * 4 + c div 64) mod 4 * 64 + c mod 64 = c"
    unfolding d by simp_all
qed

lemma b64_groups_encode: "b64_groups (b64_encode bs) = Some bs"
proof (induction bs rule: b64_encode.induct)
  case (2 a)
  show ?case using b64_bits [of "byte a" 0 0] by (simp add: Let_def)
next
  case (3 a b)
  show ?case using b64_bits [of "byte a" "byte b" 0] by (simp add: Let_def)
next
  case (4 a b c s)
  have "byte b div 16 < 16" "byte c div 64 < 4" 
    using byte_less [of b] byte_less [of c] by (auto intro: less_mult_imp_div_less)
  then show ?case using b64_bits(1,3,5,6) [of "byte a" "byte b" "byte c"] 4 by (simp add: Let_def)
qed simp

lemma b64_encode_ok: "list_all b64_char_ok (b64_encode bs)"
proof (induction bs rule: b64_encode.induct)
  case (2 a)
  show ?case using b64_bits [of "byte a" 0 0] by (simp add: b64_char_ok_def)
next
  case (3 a b)
  show ?case using b64_bits [of "byte a" "byte b" 0] by (simp add: b64_char_ok_def)
next
  case (4 a b c s)
  then show ?case using b64_bits [of "byte a" "byte b" "byte c"] by (simp add: b64_char_ok_def)
qed simp

lemma b64_char_ok_plain:
  assumes "b64_char_ok c"
  shows "32 \<le> byte c" and "byte c < 128" and "c \<noteq> CHR ''\"''" and "c \<noteq> CHR 0x5C" and "c \<noteq> CHR 0x0A" and "c \<noteq> CHR 0x0D"
  using assms by (auto simp: b64_char_ok_def b64_val_def byte_def Let_def split: if_splits)

theorem b64_roundtrip: "b64_decode (b64_encode bs) = Some bs"
proof -
  have "filter (\<lambda>c. c \<noteq> CHR 0x0A \<and> c \<noteq> CHR 0x0D) (b64_encode bs) = b64_encode bs"
    using b64_encode_ok [of bs] b64_char_ok_plain(5,6) by (auto simp: filter_id_conv list_all_iff)
  then show ?thesis by (simp add: b64_decode_def b64_groups_encode)
qed

lemma b64_encode_length: "length (b64_encode bs) = 4 * ((length bs + 2) div 3)"
proof (induction bs rule: b64_encode.induct)
  case (4 a b c s)
  have "(length (a # b # c # s) + 2) div 3 = Suc ((length s + 2) div 3)" by (simp add: div_if)
  then show ?case using 4 by simp
qed simp_all

end
