(* ===== verification/Json.thy ===== *)
theory Json
  imports Base64
begin

text \<open>
  What the projects use of \<open>encoding/json\<close>: the syntax of JSON values as
  \<open>json.Unmarshal\<close> accepts it, the decoding of string literals, the conversion of values to
  the integers, strings and byte slices of a struct, the matching of field names, and the
  text \<open>json.Marshal\<close> writes for a struct with such fields.
\<close>

section \<open>Writing\<close>

definition hex_char :: "nat \<Rightarrow> char" where
  "hex_char d = (if d < 10 then digit_char d else char_of (87 + d))"

text \<open>
  A rune inside a string literal. An invalid byte is written as the escape of the replacement
  character, and \<open>runes\<close> gives it as \<open>RuneError\<close> with one byte.
\<close>

definition quote_rune :: "nat \<times> string \<Rightarrow> string" where
  "quote_rune rb = (case rb of (r, b) \<Rightarrow>
     if r = 34 \<or> r = 92 then CHR 0x5C # b
     else if r = 10 then [CHR 0x5C, CHR ''n'']
     else if r = 13 then [CHR 0x5C, CHR ''r'']
     else if r = 9 then [CHR 0x5C, CHR ''t'']
     else if r < 32 \<or> r = 38 \<or> r = 60 \<or> r = 62
       then [CHR 0x5C, CHR ''u'', CHR ''0'', CHR ''0'', hex_char (r div 16), hex_char (r mod 16)]
     else if r = RuneError \<and> length b = 1 then CHR 0x5C # ''ufffd''
     else if r = 8232 then CHR 0x5C # ''u2028''
     else if r = 8233 then CHR 0x5C # ''u2029''
     else b)"

definition quote_string :: "string \<Rightarrow> string" where
  "quote_string s = CHR ''\"'' # concat (map quote_rune (runes s)) @ ''\"''"

definition quote_bytes :: "bytes \<Rightarrow> string" where
  "quote_bytes bs = CHR ''\"'' # b64_encode bs @ ''\"''"

text \<open>An object with its members in the order of the fields of the struct.\<close>

fun members :: "(string \<times> string) list \<Rightarrow> string" where
  "members [] = ''''"
| "members [(k, v)] = CHR ''\"'' # k @ ''\":'' @ v"
| "members ((k, v) # kvs) = CHR ''\"'' # k @ ''\":'' @ v @ CHR '','' # members kvs"

definition marshal_object :: "(string \<times> string) list \<Rightarrow> string" where
  "marshal_object kvs = CHR ''{'' # members kvs @ ''}''"

section \<open>Reading\<close>

datatype json = JNull | JBool bool | JNumber string | JString string | JArray "json list"
  | JObject "(string \<times> json) list"

definition is_ws :: "char \<Rightarrow> bool" where
  "is_ws c \<longleftrightarrow> c = CHR 0x20 \<or> c = CHR 0x09 \<or> c = CHR 0x0D \<or> c = CHR 0x0A"

definition skip_ws :: "string \<Rightarrow> string" where
  "skip_ws s = dropWhile is_ws s"

definition hex_val :: "char \<Rightarrow> nat option" where
  "hex_val c = (let b = byte c in
     if 48 \<le> b \<and> b \<le> 57 then Some (b - 48) else if 97 \<le> b \<and> b \<le> 102 then Some (b - 87)
     else if 65 \<le> b \<and> b \<le> 70 then Some (b - 55) else None)"

text \<open>Four hexadecimal digits: their value and the rest of the text.\<close>

fun hex4 :: "string \<Rightarrow> (nat \<times> string) option" where
  "hex4 (a # b # c # d # s) = (case (hex_val a, hex_val b, hex_val c, hex_val d) of
     (Some w, Some x, Some y, Some z) \<Rightarrow> Some (((w * 16 + x) * 16 + y) * 16 + z, s) | _ \<Rightarrow> None)"
| "hex4 _ = None"

text \<open>\<open>utf8.EncodeRune\<close>; a surrogate or a number beyond the range is written as \<open>RuneError\<close>.\<close>

definition EncodeRune :: "nat \<Rightarrow> string" where
  "EncodeRune r0 = (let r = (if 55296 \<le> r0 \<and> r0 \<le> 57343 \<or> 1114111 < r0 then RuneError else r0) in
     if r < 128 then [char_of r]
     else if r < 2048 then [char_of (192 + r div 64), char_of (128 + r mod 64)]
     else if r < 65536 then [char_of (224 + r div 4096), char_of (128 + r div 64 mod 64), char_of (128 + r mod 64)]
     else [char_of (240 + r div 262144), char_of (128 + r div 4096 mod 64),
           char_of (128 + r div 64 mod 64), char_of (128 + r mod 64)])"

text \<open>\<open>utf16.DecodeRune\<close> on a high surrogate and what follows it.\<close>

definition is_high :: "nat \<Rightarrow> bool" where
  "is_high r \<longleftrightarrow> 55296 \<le> r \<and> r < 56320"

definition is_low :: "nat \<Rightarrow> bool" where
  "is_low r \<longleftrightarrow> 56320 \<le> r \<and> r < 57344"

text \<open>The rune after \<open>\u\<close>, with the second half of a surrogate pair if it is there.\<close>

definition unicode_escape :: "string \<Rightarrow> (nat \<times> string) option" where
  "unicode_escape s = (case hex4 s of
       None \<Rightarrow> None
     | Some (r, t) \<Rightarrow>
         if is_high r then
           (case t of
              b # u # t' \<Rightarrow>
                if b = CHR 0x5C \<and> u = CHR ''u'' then
                  (case hex4 t' of
                     Some (r', t'') \<Rightarrow>
                       if is_low r' then Some (65536 + (r - 55296) * 1024 + (r' - 56320), t'') else Some (RuneError, t)
                   | None \<Rightarrow> Some (RuneError, t))
                else Some (RuneError, t)
            | _ \<Rightarrow> Some (RuneError, t))
         else Some (r, t))"

definition simple_escape :: "char \<Rightarrow> char option" where
  "simple_escape c = (if c = CHR ''\"'' \<or> c = CHR 0x5C \<or> c = CHR ''/'' then Some c
     else if c = CHR ''b'' then Some CHR 0x08 else if c = CHR ''f'' then Some CHR 0x0C
     else if c = CHR ''n'' then Some CHR 0x0A else if c = CHR ''r'' then Some CHR 0x0D
     else if c = CHR ''t'' then Some CHR 0x09 else None)"

text \<open>One item of a string literal: the bytes it stands for and the rest of the text.\<close>

definition string_item :: "string \<Rightarrow> (string \<times> string) option" where
  "string_item s = (case s of
       [] \<Rightarrow> None
     | c # t \<Rightarrow>
         if c = CHR 0x5C then
           (case t of
              [] \<Rightarrow> None
            | e # u \<Rightarrow>
                if e = CHR ''u'' then map_option (\<lambda>(r, v). (EncodeRune r, v)) (unicode_escape u)
                else map_option (\<lambda>b. ([b], u)) (simple_escape e))
         else if byte c < 32 then None
         else (case lead s of Some (r, w) \<Rightarrow> Some (take w s, drop w s) | None \<Rightarrow> Some (EncodeRune RuneError, t)))"

lemma hex4_shorter: "hex4 s = Some (r, t) \<Longrightarrow> length t < length s"
  by (induction s rule: hex4.induct) (auto split: option.splits)

lemma unicode_escape_shorter: "unicode_escape s = Some (r, t) \<Longrightarrow> length t < length s"
  by (auto simp: unicode_escape_def split: option.splits if_splits list.splits dest!: hex4_shorter)

lemma string_item_shorter: "string_item s = Some (b, t) \<Longrightarrow> length t < length s"
  by (auto simp: string_item_def split: list.splits if_splits option.splits
      dest!: unicode_escape_shorter dest: lead_width)

text \<open>A string literal after its opening quote: its value and the rest of the text.\<close>

function jstring :: "string \<Rightarrow> (string \<times> string) option" where
  "jstring s = (case s of
       [] \<Rightarrow> None
     | c # t \<Rightarrow> if c = CHR ''\"'' then Some ([], t)
         else (case string_item s of
             None \<Rightarrow> None
           | Some (b, u) \<Rightarrow> map_option (\<lambda>(v, r). (b @ v, r)) (jstring u)))"
  by pat_completeness auto
termination
  by (relation "measure length") (auto dest: string_item_shorter)

declare jstring.simps [simp del]

text \<open>
  A number literal and the rest of the text: a sign, digits without a leading zero, a
  fraction and an exponent.
\<close>

definition digits1 :: "string \<Rightarrow> (string \<times> string) option" where
  "digits1 s = (if takeWhile is_digit s = [] then None else Some (takeWhile is_digit s, dropWhile is_digit s))"

definition number_int :: "string \<Rightarrow> (string \<times> string) option" where
  "number_int s = (case s of [] \<Rightarrow> None
     | c # t \<Rightarrow> if c = CHR ''0'' then Some ([c], t) else digits1 s)"

definition number_frac :: "string \<Rightarrow> (string \<times> string) option" where
  "number_frac s = (case s of [] \<Rightarrow> Some ([], s)
     | c # t \<Rightarrow> if c = CHR ''.'' then map_option (\<lambda>(d, u). (c # d, u)) (digits1 t) else Some ([], s))"

definition number_exp :: "string \<Rightarrow> (string \<times> string) option" where
  "number_exp s = (case s of [] \<Rightarrow> Some ([], s)
     | c # t \<Rightarrow> if c = CHR ''e'' \<or> c = CHR ''E'' then
         (case t of
            [] \<Rightarrow> None
          | x # u \<Rightarrow> if x = CHR ''+'' \<or> x = CHR ''-'' then map_option (\<lambda>(d, v). (c # x # d, v)) (digits1 u)
              else map_option (\<lambda>(d, v). (c # d, v)) (digits1 t))
       else Some ([], s))"

definition number_abs :: "string \<Rightarrow> (string \<times> string) option" where
  "number_abs s = (case number_int s of None \<Rightarrow> None
     | Some (i, t) \<Rightarrow> (case number_frac t of None \<Rightarrow> None
         | Some (f, u) \<Rightarrow> map_option (\<lambda>(e, v). (i @ f @ e, v)) (number_exp u)))"

definition jnumber :: "string \<Rightarrow> (string \<times> string) option" where
  "jnumber s = (case s of [] \<Rightarrow> None
     | c # t \<Rightarrow> if c = CHR ''-'' then map_option (\<lambda>(n, u). (c # n, u)) (number_abs t) else number_abs s)"

text \<open>A literal name.\<close>

definition jname :: "string \<Rightarrow> json \<Rightarrow> string \<Rightarrow> (json \<times> string) option" where
  "jname n v s = (if take (length n) s = n then Some (v, drop (length n) s) else None)"

text \<open>
  A value, the elements of an array and the members of an object, after leading white space.
  The recursion is bounded by a number; \<open>json_fuel\<close> below shows that twice the length of the
  text is always enough.
\<close>

fun jvalue :: "nat \<Rightarrow> string \<Rightarrow> (json \<times> string) option"
  and jelems :: "nat \<Rightarrow> string \<Rightarrow> (json list \<times> string) option"
  and jmembers :: "nat \<Rightarrow> string \<Rightarrow> ((string \<times> json) list \<times> string) option" where
  "jvalue 0 s = None"
| "jvalue (Suc n) s = (case skip_ws s of
       [] \<Rightarrow> None
     | c # t \<Rightarrow>
         if c = CHR ''\"'' then map_option (\<lambda>(v, r). (JString v, r)) (jstring t)
         else if c = CHR ''{'' then
           (case skip_ws t of
              [] \<Rightarrow> None
            | d # u \<Rightarrow> if d = CHR ''}'' then Some (JObject [], u)
                else map_option (\<lambda>(ms, r). (JObject ms, r)) (jmembers n t))
         else if c = CHR ''['' then
           (case skip_ws t of
              [] \<Rightarrow> None
            | d # u \<Rightarrow> if d = CHR '']'' then Some (JArray [], u)
                else map_option (\<lambda>(vs, r). (JArray vs, r)) (jelems n t))
         else if c = CHR ''t'' then jname ''true'' (JBool True) (c # t)
         else if c = CHR ''f'' then jname ''false'' (JBool False) (c # t)
         else if c = CHR ''n'' then jname ''null'' JNull (c # t)
         else map_option (\<lambda>(v, r). (JNumber v, r)) (jnumber (c # t)))"
| "jelems 0 s = None"
| "jelems (Suc n) s = (case jvalue n s of
       None \<Rightarrow> None
     | Some (v, t) \<Rightarrow> (case skip_ws t of
         [] \<Rightarrow> None
       | c # u \<Rightarrow> if c = CHR '']'' then Some ([v], u)
           else if c = CHR '','' then map_option (\<lambda>(vs, r). (v # vs, r)) (jelems n u)
           else None))"
| "jmembers 0 s = None"
| "jmembers (Suc n) s = (case skip_ws s of
       [] \<Rightarrow> None
     | q # s1 \<Rightarrow> if q \<noteq> CHR ''\"'' then None
         else (case jstring s1 of
            None \<Rightarrow> None
          | Some (k, s2) \<Rightarrow> (case skip_ws s2 of
              [] \<Rightarrow> None
            | c # s3 \<Rightarrow> if c \<noteq> CHR '':'' then None
                else (case jvalue n s3 of
                   None \<Rightarrow> None
                 | Some (v, s4) \<Rightarrow> (case skip_ws s4 of
                     [] \<Rightarrow> None
                   | d # s5 \<Rightarrow> if d = CHR ''}'' then Some ([(k, v)], s5)
                       else if d = CHR '','' then map_option (\<lambda>(ms, r). ((k, v) # ms, r)) (jmembers n s5)
                       else None)))))"

definition json_parse :: "string \<Rightarrow> json option" where
  "json_parse s = (case jvalue (2 * length s + 1) s of
       None \<Rightarrow> None | Some (v, r) \<Rightarrow> if skip_ws r = [] then Some v else None)"

section \<open>Storing a value into a field\<close>

text \<open>
  Each conversion gets the value the field has and yields its new value and whether an error
  is reported. \<open>null\<close> leaves the field alone, except that it makes a slice nil.
\<close>

definition store_int :: "int \<Rightarrow> int \<Rightarrow> json \<Rightarrow> int \<Rightarrow> int \<times> bool" where
  "store_int lo hi j old = (case j of
       JNull \<Rightarrow> (old, False)
     | JNumber s \<Rightarrow> (case Atoi s of
         Some i \<Rightarrow> if lo \<le> i \<and> i \<le> hi then (i, False) else (old, True)
       | None \<Rightarrow> (old, True))
     | _ \<Rightarrow> (old, True))"

abbreviation store_int64 :: "json \<Rightarrow> int \<Rightarrow> int \<times> bool" where
  "store_int64 \<equiv> store_int (- (2 ^ 63)) (2 ^ 63 - 1)"

abbreviation store_uint64 :: "json \<Rightarrow> int \<Rightarrow> int \<times> bool" where
  "store_uint64 \<equiv> store_int 0 (2 ^ 64 - 1)"

definition store_string :: "json \<Rightarrow> string \<Rightarrow> string \<times> bool" where
  "store_string j old = (case j of JNull \<Rightarrow> (old, False) | JString s \<Rightarrow> (s, False) | _ \<Rightarrow> (old, True))"

text \<open>
  A byte slice is read from base64 text, or element by element from an array of numbers; the
  nil slice is \<open>None\<close>.
\<close>

fun store_elems :: "json list \<Rightarrow> bytes \<Rightarrow> bytes \<times> bool" where
  "store_elems [] old = ([], False)"
| "store_elems (j # js) old =
     (let (b, e) = store_int 0 255 j (case old of [] \<Rightarrow> 0 | c # _ \<Rightarrow> int (byte c));
          (bs, es) = store_elems js (drop 1 old)
      in (char_of (nat b) # bs, e \<or> es))"

definition store_bytes :: "json \<Rightarrow> bytes option \<Rightarrow> bytes option \<times> bool" where
  "store_bytes j old = (case j of
       JNull \<Rightarrow> (None, False)
     | JString s \<Rightarrow> (case b64_decode s of Some bs \<Rightarrow> (Some bs, False) | None \<Rightarrow> (old, True))
     | JArray js \<Rightarrow> (let (bs, e) = store_elems js (case old of None \<Rightarrow> [] | Some b \<Rightarrow> b) in (Some bs, e))
     | _ \<Rightarrow> (old, True))"

text \<open>
  A member belongs to the field of the same name, or else to the first field whose name is
  equal up to case, where two letters beyond ASCII fold to \<open>s\<close> and \<open>k\<close>.
\<close>

fun fold_case :: "string \<Rightarrow> string" where
  "fold_case [] = []"
| "fold_case (c # s) =
     (if 65 \<le> byte c \<and> byte c \<le> 90 then char_of (byte c + 32) # fold_case s
      else if byte c = 197 \<and> s \<noteq> [] \<and> byte (hd s) = 191 then CHR ''s'' # fold_case (drop 1 s)
      else if byte c = 226 \<and> take 2 (map byte s) = [132, 170] then CHR ''k'' # fold_case (drop 2 s)
      else c # fold_case s)"

definition match_field :: "string list \<Rightarrow> string \<Rightarrow> string option" where
  "match_field names k = (if k \<in> set names then Some k else find (\<lambda>n. fold_case n = fold_case k) names)"

text \<open>A value stored into a struct: every member in turn by \<open>put\<close>. The flag is the error.\<close>

definition store_object :: "string list \<Rightarrow> (string \<Rightarrow> json \<Rightarrow> 'a \<Rightarrow> 'a \<times> bool) \<Rightarrow> json \<Rightarrow> 'a \<Rightarrow> 'a \<times> bool" where
  "store_object names put j x = (case j of
       JNull \<Rightarrow> (x, False)
     | JObject ms \<Rightarrow> foldl (\<lambda>(x, e) (k, v). case match_field names k of
           None \<Rightarrow> (x, e) | Some n \<Rightarrow> (let (y, e') = put n v x in (y, e \<or> e'))) (x, False) ms
     | _ \<Rightarrow> (x, True))"

text \<open>
  \<open>json.Unmarshal\<close> into a struct: nothing is stored when the text is not a JSON value. The
  flag is the error that is returned.
\<close>

definition unmarshal :: "string list \<Rightarrow> (string \<Rightarrow> json \<Rightarrow> 'a \<Rightarrow> 'a \<times> bool) \<Rightarrow> string \<Rightarrow> 'a \<Rightarrow> 'a \<times> bool" where
  "unmarshal names put s x = (case json_parse s of
       None \<Rightarrow> (x, True)
     | Some j \<Rightarrow> store_object names put j x)"

text \<open>
  \<open>Decode\<close> of a \<open>json.Decoder\<close>: the next value of the stream is stored; the result has the
  bytes that are left. \<open>None\<close> is the error at the end of the stream or of its syntax.
\<close>

definition decode :: "string list \<Rightarrow> (string \<Rightarrow> json \<Rightarrow> 'a \<Rightarrow> 'a \<times> bool) \<Rightarrow> string \<Rightarrow> 'a \<Rightarrow>
    (('a \<times> bool) \<times> string) option" where
  "decode names put s x = (case jvalue (2 * length s + 1) s of
       None \<Rightarrow> None | Some (j, rest) \<Rightarrow> Some (store_object names put j x, rest))"

section \<open>Reading consumes text and has enough fuel\<close>

lemma skip_ws_le: "length (skip_ws s) \<le> length s"
  by (simp add: skip_ws_def length_dropWhile_le)

lemma skip_ws_Cons: "skip_ws s = c # t \<Longrightarrow> length t < length s"
  using skip_ws_le [of s] by simp

lemma jstring_shorter: "jstring s = Some (v, t) \<Longrightarrow> length t < length s"
proof (induction s arbitrary: v t rule: jstring.induct)
  case (1 s)
  show ?case
  proof (cases s)
    case (Cons c u)
    show ?thesis
    proof (cases "c = CHR ''\"''")
      case False
      then obtain b w v' where "string_item s = Some (b, w)" "jstring w = Some (v', t)"
        using 1(2) unfolding Cons jstring.simps [of "c # u"] by (auto split: option.splits)
      then show ?thesis using 1(1) [OF Cons False, of "(b, w)" b w] string_item_shorter [of s b w] by fastforce
    qed (use 1(2) Cons in \<open>simp add: jstring.simps\<close>)
  qed (use 1(2) in \<open>simp add: jstring.simps\<close>)
qed

lemma digits1_shorter: "digits1 s = Some (d, t) \<Longrightarrow> length t < length s"
proof -
  assume "digits1 s = Some (d, t)"
  then have "takeWhile is_digit s \<noteq> []" "t = dropWhile is_digit s" by (auto simp: digits1_def split: if_splits)
  then show ?thesis using takeWhile_dropWhile_id [of is_digit s] 
    by (metis add_less_cancel_left add_0 append_Nil length_append length_greater_0_conv less_add_same_cancel2)
qed

lemma number_abs_shorter: "number_abs s = Some (d, t) \<Longrightarrow> length t < length s"
proof -
  assume "number_abs s = Some (d, t)"
  then obtain i u f v e where n: "number_int s = Some (i, u)" "number_frac u = Some (f, v)" "number_exp v = Some (e, t)"
    by (auto simp: number_abs_def split: option.splits)
  have "length u < length s"
    using n(1) by (auto simp: number_int_def split: list.splits if_splits dest: digits1_shorter)
  moreover have "length v \<le> length u"
    using n(2) by (auto simp: number_frac_def split: list.splits if_splits dest!: digits1_shorter)
  moreover have "length t \<le> length v"
    using n(3) by (auto simp: number_exp_def split: list.splits if_splits dest!: digits1_shorter)
  ultimately show ?thesis by linarith
qed

lemma jnumber_shorter: "jnumber s = Some (d, t) \<Longrightarrow> length t < length s"
  by (auto simp: jnumber_def split: list.splits if_splits dest!: number_abs_shorter)

lemma jname_shorter: "n \<noteq> [] \<Longrightarrow> jname n v s = Some (w, t) \<Longrightarrow> length t < length s"
  by (cases s) (auto simp: jname_def split: if_splits)

lemma jvalue_shorter_step:
  assumes m: "\<And>s ms t. jmembers n s = Some (ms, t) \<Longrightarrow> length t < length s"
    and e: "\<And>s vs t. jelems n s = Some (vs, t) \<Longrightarrow> length t < length s"
    and v: "jvalue (Suc n) s = Some (v, t)"
  shows "length t < length s"
proof -
  obtain c u where cu: "skip_ws s = c # u" using v by (cases "skip_ws s") auto
  have "length t < length (c # u)"
    using v cu by (auto split: list.splits if_splits dest!: skip_ws_Cons m e jstring_shorter jnumber_shorter jname_shorter [rotated])
  then show ?thesis using skip_ws_le [of s] cu by simp
qed

lemma jelems_shorter_step:
  assumes v: "\<And>s v t. jvalue n s = Some (v, t) \<Longrightarrow> length t < length s"
    and e: "\<And>s vs t. jelems n s = Some (vs, t) \<Longrightarrow> length t < length s"
    and r: "jelems (Suc n) s = Some (vs, t)"
  shows "length t < length s"
proof -
  obtain x u where x: "jvalue n s = Some (x, u)" using r by (cases "jvalue n s") auto
  obtain c w where cw: "skip_ws u = c # w" using r x by (cases "skip_ws u") auto
  have "length t \<le> length w" using r x cw by (auto split: if_splits dest!: e)
  then show ?thesis using v [OF x] skip_ws_Cons [OF cw] by linarith
qed

lemma jmembers_parts:
  assumes "jmembers (Suc n) s = Some (ms, t)"
  obtains s1 k s2 s3 v s4 d s5 where "skip_ws s = CHR ''\"'' # s1" "jstring s1 = Some (k, s2)" "skip_ws s2 = CHR '':'' # s3"
    "jvalue n s3 = Some (v, s4)" "skip_ws s4 = d # s5"
    "t = s5 \<or> (\<exists>ms'. jmembers n s5 = Some (ms', t))"
  using assms by (auto split: list.splits if_splits option.splits)

lemma json_shorter:
  "(\<forall>s v t. jvalue n s = Some (v, t) \<longrightarrow> length t < length s) \<and>
   (\<forall>s vs t. jelems n s = Some (vs, t) \<longrightarrow> length t < length s) \<and>
   (\<forall>s ms t. jmembers n s = Some (ms, t) \<longrightarrow> length t < length s)"
proof (induction n)
  case (Suc n)
  have v: "\<And>s v t. jvalue n s = Some (v, t) \<Longrightarrow> length t < length s"
    and e: "\<And>s vs t. jelems n s = Some (vs, t) \<Longrightarrow> length t < length s"
    and m: "\<And>s ms t. jmembers n s = Some (ms, t) \<Longrightarrow> length t < length s" using Suc by blast+
  have "length t < length s" if r: "jmembers (Suc n) s = Some (ms, t)" for s ms t
  proof (rule jmembers_parts [OF r])
    fix s1 k s2 s3 x s4 d s5
    assume p: "skip_ws s = CHR ''\"'' # s1" "jstring s1 = Some (k, s2)" "skip_ws s2 = CHR '':'' # s3"
      "jvalue n s3 = Some (x, s4)" "skip_ws s4 = d # s5" "t = s5 \<or> (\<exists>ms'. jmembers n s5 = Some (ms', t))"
    have "length t \<le> length s5" using p(6) m [of s5] by force
    then show ?thesis
      using skip_ws_Cons [OF p(1)] jstring_shorter [OF p(2)] skip_ws_Cons [OF p(3)] v [OF p(4)] skip_ws_Cons [OF p(5)]
      by linarith
  qed
  moreover have "length t < length s" if "jvalue (Suc n) s = Some (x, t)" for s x t
    by (rule jvalue_shorter_step [OF m e that])
  moreover have "length t < length s" if "jelems (Suc n) s = Some (xs, t)" for s xs t
    by (rule jelems_shorter_step [OF v e that])
  ultimately show ?case by blast
qed simp

lemma jvalue_shorter: "jvalue n s = Some (v, t) \<Longrightarrow> length t < length s"
  using json_shorter [of n] by blast

lemma jvalue_fuel_step:
  assumes "\<And>u. length u < length s \<Longrightarrow> jmembers n u = jmembers m u"
    and "\<And>u. length u < length s \<Longrightarrow> jelems n u = jelems m u"
  shows "jvalue (Suc n) s = jvalue (Suc m) s"
proof (cases "skip_ws s")
  case (Cons c u)
  then show ?thesis using assms(1) [OF skip_ws_Cons [OF Cons]] assms(2) [OF skip_ws_Cons [OF Cons]]
    by (simp split: list.split)
qed simp

lemma jelems_fuel_step:
  assumes "jvalue n s = jvalue m s" and "\<And>u. length u < length s \<Longrightarrow> jelems n u = jelems m u"
  shows "jelems (Suc n) s = jelems (Suc m) s"
proof (cases "jvalue m s")
  case (Some vt)
  obtain v t where vt: "vt = (v, t)" by (cases vt)
  have "jelems n u = jelems m u" if "skip_ws t = c # u" for c u
    using assms(2) skip_ws_Cons [OF that] jvalue_shorter [of m s v t] Some vt by simp
  then show ?thesis using assms(1) Some vt by (simp split: list.split)
qed (use assms(1) in simp)

lemma jmembers_fuel_step:
  assumes "\<And>u. length u < length s \<Longrightarrow> jvalue n u = jvalue m u"
    and "\<And>u. length u < length s \<Longrightarrow> jmembers n u = jmembers m u"
  shows "jmembers (Suc n) s = jmembers (Suc m) s"
proof -
  have v: "jvalue n s3 = jvalue m s3" and ms: "\<And>x s4 d s5. jvalue m s3 = Some (x, s4) \<Longrightarrow> skip_ws s4 = d # s5 \<Longrightarrow> jmembers n s5 = jmembers m s5"
    if "skip_ws s = q # s1" "jstring s1 = Some (k, s2)" "skip_ws s2 = c # s3" for q s1 k s2 c s3
  proof -
    have len: "length s3 < length s"
      using skip_ws_Cons [OF that(1)] jstring_shorter [OF that(2)] skip_ws_Cons [OF that(3)] by linarith
    then show "jvalue n s3 = jvalue m s3" by (rule assms(1))
    fix x s4 d s5
    assume "jvalue m s3 = Some (x, s4)" "skip_ws s4 = d # s5"
    then have "length s5 < length s" using len skip_ws_Cons [of s4 d s5] jvalue_shorter [of m s3 x s4] by linarith
    then show "jmembers n s5 = jmembers m s5" by (rule assms(2))
  qed
  show ?thesis by (simp split: list.split option.split prod.split add: v) (auto simp: ms v)
qed

lemma json_fuel_all:
  "(2 * length s + 1 \<le> n \<longrightarrow> 2 * length s + 1 \<le> m \<longrightarrow> jvalue n s = jvalue m s) \<and>
   (2 * length s + 2 \<le> n \<longrightarrow> 2 * length s + 2 \<le> m \<longrightarrow> jelems n s = jelems m s) \<and>
   (2 * length s + 2 \<le> n \<longrightarrow> 2 * length s + 2 \<le> m \<longrightarrow> jmembers n s = jmembers m s)"
proof (induction "length s" arbitrary: s n m rule: less_induct)
  case less
  have ih: "jvalue i u = jvalue j u" "jelems i u = jelems j u" "jmembers i u = jmembers j u"
    if "length u < length s" "2 * length s \<le> i" "2 * length s \<le> j" for u i j
  proof -
    have "2 * length u + 2 \<le> i" "2 * length u + 2 \<le> j" using that by linarith+
    then show "jvalue i u = jvalue j u" "jelems i u = jelems j u" "jmembers i u = jmembers j u"
      using less [OF that(1), of i j] by simp_all
  qed
  have v: "jvalue i s = jvalue j s" if ge: "2 * length s + 1 \<le> i" "2 * length s + 1 \<le> j" for i j
  proof -
    obtain i' j' where ij: "i = Suc i'" "j = Suc j'" using ge by (cases i; cases j) auto
    show ?thesis unfolding ij 
      by (rule jvalue_fuel_step; erule ih) (use ge ij in simp_all)
  qed
  have "jelems i s = jelems j s" "jmembers i s = jmembers j s" if ge: "2 * length s + 2 \<le> i" "2 * length s + 2 \<le> j" for i j
  proof -
    obtain i' j' where ij: "i = Suc i'" "j = Suc j'" using ge by (cases i; cases j) auto
    show "jelems i s = jelems j s" unfolding ij 
      by (rule jelems_fuel_step, rule v; (erule ih)?) (use ge ij in simp_all)
    show "jmembers i s = jmembers j s" unfolding ij 
      by (rule jmembers_fuel_step; erule ih) (use ge ij in simp_all)
  qed
  then show ?case using v by blast
qed

lemma json_fuel: "2 * length s + 1 \<le> n \<Longrightarrow> jvalue n s = jvalue (2 * length s + 1) s"
  using json_fuel_all [of s n "2 * length s + 1"] by simp

end
