(* ===== verification/Json_Roundtrip.thy ===== *)
theory Json_Roundtrip
  imports Json
begin

text \<open>
  What \<open>json.Marshal\<close> writes is read back by \<open>json.Unmarshal\<close>: strings up to the
  replacement of invalid bytes, integers, byte slices, and objects of these. An object that is
  cut inside a string is refused.
\<close>

section \<open>Strings\<close>

lemma char_of_byte_eq: "byte c = n \<Longrightarrow> char_of n = c"
  using char_of_byte by auto

lemma base64_digit: "z < 64 \<Longrightarrow> (k * 64 + z) div 64 = k \<and> (k * 64 + z) mod 64 = (z :: nat)"
  by simp

lemma EncodeRune_two:
  assumes a: "194 \<le> byte a" "byte a \<le> 223" and c: "cont c"
  shows "EncodeRune ((byte a - 192) * 64 + (byte c - 128)) = [a, c]"
proof -
  define x y where "x = byte a - 192" and "y = byte c - 128"
  have xy: "2 \<le> x" "x < 32" "y < 64" "byte a = 192 + x" "byte c = 128 + y"
    using a c by (auto simp: x_def y_def cont_def)
  define r where "r = x * 64 + y"
  have "r div 64 = x" "r mod 64 = y" "128 \<le> r" "r < 2048" using xy by (auto simp: r_def)
  then have "EncodeRune r = [a, c]" using xy by (auto simp: EncodeRune_def Let_def intro: char_of_byte_eq)
  then show ?thesis by (simp add: r_def x_def y_def)
qed

lemma EncodeRune_three:
  assumes a: "224 \<le> byte a" "byte a \<le> 239" and c: "second_ok a c" "cont d"
  shows "EncodeRune ((byte a - 224) * 4096 + (byte c - 128) * 64 + (byte d - 128)) = [a, c, d]"
proof -
  define x y z where "x = byte a - 224" and "y = byte c - 128" and "z = byte d - 128"
  have xyz: "x < 16" "y < 64" "z < 64" "byte a = 224 + x" "byte c = 128 + y" "byte d = 128 + z"
    "x = 0 \<longrightarrow> 32 \<le> y" "x = 13 \<longrightarrow> y < 32"
    using a c by (auto simp: x_def y_def z_def second_ok_def cont_def split: if_splits)
  define r where "r = x * 4096 + y * 64 + z"
  have r': "r = (x * 64 + y) * 64 + z" by (simp add: r_def)
  have "r div 4096 = x" using xyz(2,3) by (simp add: r_def)
  moreover have "r div 64 = x * 64 + y" "r mod 64 = z"
    using base64_digit [OF xyz(3), of "x * 64 + y"] unfolding r' by blast+
  moreover have "2048 \<le> r" "r < 65536" using xyz by (auto simp: r_def)
  moreover have "\<not> (55296 \<le> r \<and> r \<le> 57343)"
    using xyz(1-3,8) by (cases "x < 13"; cases "x = 13") (auto simp: r_def)
  ultimately have "EncodeRune r = [a, c, d]"
    using char_of_byte_eq [OF xyz(4)] char_of_byte_eq [OF xyz(5)] char_of_byte_eq [OF xyz(6)] xyz(2)
    by (auto simp: EncodeRune_def Let_def)
  then show ?thesis by (simp add: r_def x_def y_def z_def)
qed

lemma EncodeRune_four:
  assumes a: "240 \<le> byte a" "byte a \<le> 244" and c: "second_ok a c" "cont d" "cont e"
  shows "EncodeRune ((byte a - 240) * 262144 + (byte c - 128) * 4096 + (byte d - 128) * 64 + (byte e - 128)) =
    [a, c, d, e]"
proof -
  define x y z w where "x = byte a - 240" and "y = byte c - 128" and "z = byte d - 128" and "w = byte e - 128"
  have xyz: "x < 5" "y < 64" "z < 64" "w < 64" "byte a = 240 + x" "byte c = 128 + y" "byte d = 128 + z"
    "byte e = 128 + w" "x = 0 \<longrightarrow> 16 \<le> y" "x = 4 \<longrightarrow> y < 16"
    using a c by (auto simp: x_def y_def z_def w_def second_ok_def cont_def split: if_splits)
  define r where "r = x * 262144 + y * 4096 + z * 64 + w"
  have r': "r = ((x * 64 + y) * 64 + z) * 64 + w" by (simp add: r_def)
  have "r div 262144 = x" "r div 4096 = x * 64 + y" using xyz(2-4) by (simp_all add: r_def)
  moreover have "r div 64 mod 64 = z" "r mod 64 = w"
    using base64_digit [OF xyz(4), of "(x * 64 + y) * 64 + z"] base64_digit [OF xyz(3), of "x * 64 + y"]
    unfolding r' by simp_all
  moreover have "65536 \<le> r" "r \<le> 1114111"
    using xyz(1-4,9,10) unfolding r_def by (cases "x = 0"; simp; linarith)+
  ultimately have "EncodeRune r = [a, c, d, e]"
    using char_of_byte_eq [OF xyz(5)] char_of_byte_eq [OF xyz(6)]
      char_of_byte_eq [OF xyz(7)] char_of_byte_eq [OF xyz(8)] xyz(2,3)
    by (simp add: EncodeRune_def Let_def)
  then show ?thesis by (simp add: r_def x_def y_def z_def w_def)
qed

lemma EncodeRune_lead:
  assumes "lead b = Some (r, length b)"
  shows "EncodeRune r = b"
proof (cases b)
  case b1: (Cons a s)
  consider "byte a < 128" | "194 \<le> byte a" "byte a \<le> 223" | "224 \<le> byte a" "byte a \<le> 239" | "240 \<le> byte a" "byte a \<le> 244"
    using assms b1 by (auto split: if_splits)
  then show ?thesis
  proof cases
    case 1
    then show ?thesis using assms b1 by (auto simp: EncodeRune_def Let_def char_of_byte_eq)
  next
    case 2
    then obtain c where "s = [c]" "cont c" "r = (byte a - 192) * 64 + (byte c - 128)"
      using assms b1 by (auto split: list.splits if_splits)
    with EncodeRune_two [OF 2] b1 show ?thesis by blast
  next
    case 3
    then obtain c d where "s = [c, d]" "second_ok a c" "cont d"
        "r = (byte a - 224) * 4096 + (byte c - 128) * 64 + (byte d - 128)"
      using assms b1 by (auto split: list.splits if_splits)
    with EncodeRune_three [OF 3] b1 show ?thesis by blast
  next
    case 4
    then obtain c d e where "s = [c, d, e]" "second_ok a c" "cont d" "cont e"
        "r = (byte a - 240) * 262144 + (byte c - 128) * 4096 + (byte d - 128) * 64 + (byte e - 128)"
      using assms b1 by (auto split: list.splits if_splits)
    with EncodeRune_four [OF 4] b1 show ?thesis by blast
  qed
qed (use assms in simp)

lemma string_item_plain:
  assumes "32 \<le> byte c" and "byte c < 128" and "c \<noteq> CHR 0x5C"
  shows "string_item (c # t) = Some ([c], t)"
  using assms by (simp add: string_item_def)

lemma hex_char_val: "d < 16 \<Longrightarrow> hex_val (hex_char d) = Some d"
  by (auto simp: hex_val_def hex_char_def digit_char_def byte_def Let_def)

lemma is_ascii_rune:
  assumes "valid_rune (r, b)" and "r < 128"
  shows "b = [char_of r]"
  using EncodeRune_lead [of b r] assms by (simp add: valid_rune_def EncodeRune_def Let_def)

lemma valid_rune_lead_byte:
  assumes "valid_rune (r, b)" and "128 \<le> r"
  shows "\<exists>c b'. b = c # b' \<and> 128 \<le> byte c \<and> length b \<noteq> 1"
  using assms by (cases b) (auto simp: valid_rune_def split: if_splits list.splits)

lemma unicode_escape_rune:
  assumes "hex4 s = Some (r, t)" and "r < 55296 \<or> 57343 < r"
  shows "string_item (CHR 0x5C # CHR ''u'' # s) = Some (EncodeRune r, t)"
proof -
  have "\<not> is_high r" using assms(2) by (auto simp: is_high_def)
  then show ?thesis using assms(1) by (simp add: string_item_def unicode_escape_def)
qed

definition json_rune :: "nat \<times> string \<Rightarrow> string" where
  "json_rune rb = (if valid_rune rb then snd rb else [CHR 0xEF, CHR 0xBF, CHR 0xBD])"

lemma char_of_escapes:
  "char_of (34 :: nat) = CHR 0x22" "char_of (92 :: nat) = CHR 0x5C" "char_of (10 :: nat) = CHR 0x0A"
  "char_of (13 :: nat) = CHR 0x0D" "char_of (9 :: nat) = CHR 0x09"
  by code_simp+

lemma quote_rune_ascii:
  assumes "r < 128"
  shows "string_item (quote_rune (r, [char_of r]) @ t) = Some ([char_of r], t) \<and> 
    (\<exists>c u. quote_rune (r, [char_of r]) = c # u \<and> c \<noteq> CHR ''\"'')"
proof -
  consider "r = 34 \<or> r = 92 \<or> r = 10 \<or> r = 13 \<or> r = 9"
    | "r \<notin> {34, 92, 10, 13, 9}" "r < 32 \<or> r = 38 \<or> r = 60 \<or> r = 62"
    | "r \<notin> {34, 92, 10, 13, 9}" "\<not> (r < 32 \<or> r = 38 \<or> r = 60 \<or> r = 62)" by blast
  then show ?thesis
  proof cases
    case 1
    then show ?thesis by (elim disjE) (simp_all add: quote_rune_def string_item_def simple_escape_def char_of_escapes)
  next
    case 2
    let ?h = "[hex_char (r div 16), hex_char (r mod 16)]"
    have q: "quote_rune (r, [char_of r]) = CHR 0x5C # CHR ''u'' # CHR ''0'' # CHR ''0'' # ?h"
      using 2 by (simp add: quote_rune_def)
    have "r div 16 < 16" using assms by (auto intro: less_mult_imp_div_less)
    then have "hex4 (CHR ''0'' # CHR ''0'' # ?h @ t) = Some (r, t)"
      using hex_char_val [of 0] by (simp add: hex_char_val) (simp add: hex_val_def byte_def Let_def)
    from unicode_escape_rune [OF this] show ?thesis using assms q by (simp add: EncodeRune_def Let_def)
  next
    case 3
    have "quote_rune (r, [char_of r]) = [char_of r]"
      using 3 assms by (simp add: quote_rune_def RuneError_def)
    moreover have "byte (char_of r) = r" using assms by (simp add: byte_def)
    moreover have "byte CHR 0x5C = 92" "byte CHR ''\"'' = 34" by (simp_all add: byte_def)
    then have "char_of r \<noteq> CHR 0x5C" "char_of r \<noteq> CHR ''\"''" using 3(1) \<open>byte (char_of r) = r\<close> by force+
    ultimately have "string_item (char_of r # t) = Some ([char_of r], t)" "char_of r \<noteq> CHR ''\"''"
      using 3 assms string_item_plain [of "char_of r" t] by simp_all
    moreover note \<open>quote_rune (r, [char_of r]) = [char_of r]\<close>
    ultimately show ?thesis by simp
  qed
qed

lemma quote_rune_item:
  assumes "valid_rune rb \<or> fst rb = RuneError \<and> length (snd rb) = 1"
  shows "string_item (quote_rune rb @ t) = Some (json_rune rb, t) \<and>
    (\<exists>c u. quote_rune rb = c # u \<and> c \<noteq> CHR ''\"'')"
proof (cases "valid_rune rb")
  case False
  then have "quote_rune rb = CHR 0x5C # CHR ''u'' # ''fffd''"
    using assms by (cases rb) (simp add: quote_rune_def RuneError_def)
  moreover have "hex4 (''fffd'' @ t) = Some (65533, t)" by (simp add: hex_val_def byte_def Let_def)
  moreover have "EncodeRune 65533 = [CHR 0xEF, CHR 0xBF, CHR 0xBD]"
    by (auto simp: EncodeRune_def byte_def intro!: char_of_byte_eq)
  ultimately show ?thesis using unicode_escape_rune [of "''fffd'' @ t" 65533 t] False by (simp add: json_rune_def)
next
  case True
  obtain r b where rb: "rb = (r, b)" by (cases rb)
  show ?thesis
  proof (cases "r < 128")
    case True
    then show ?thesis using is_ascii_rune [of r b] quote_rune_ascii [OF True, of t] \<open>valid_rune rb\<close>
      by (simp add: rb json_rune_def)
  next
    case False
    have lead: "lead b = Some (r, length b)" using \<open>valid_rune rb\<close> by (simp add: rb valid_rune_def)
    obtain c b' where c: "b = c # b'" "128 \<le> byte c" "length b \<noteq> 1"
      using valid_rune_lead_byte [of r b] \<open>valid_rune rb\<close> False rb by auto
    consider (sep) "r = 8232 \<or> r = 8233" | (plain) "quote_rune rb = b"
      using False c by (cases "r = 8232 \<or> r = 8233") (simp_all add: rb quote_rune_def)
    then show ?thesis
    proof cases
      case sep
      define h where "h = (if r = 8232 then ''2028'' else ''2029'')"
      have q: "quote_rune rb = CHR 0x5C # CHR ''u'' # h"
        using sep by (elim disjE) (simp_all add: rb quote_rune_def RuneError_def h_def)
      have "hex4 (h @ t) = Some (r, t)"
        using sep by (elim disjE) (simp_all add: h_def hex_val_def byte_def Let_def)
      moreover have "r < 55296 \<or> 57343 < r" using sep by linarith
      ultimately have "string_item (CHR 0x5C # CHR ''u'' # h @ t) = Some (b, t)"
        using unicode_escape_rune [of "h @ t" r t] EncodeRune_lead [OF lead] by simp
      then show ?thesis using q \<open>valid_rune rb\<close> by (simp add: json_rune_def rb)
    next
      case plain
      have "c \<noteq> CHR 0x5C" "\<not> byte c < 32" "c \<noteq> CHR ''\"''" using c(2) by (auto simp: byte_def)
      then show ?thesis using plain c(1) lead_take [OF lead, of t] \<open>valid_rune rb\<close>
        by (simp add: rb json_rune_def string_item_def)
    qed
  qed
qed

lemma jstring_item:
  assumes "string_item (c # u) = Some (b, t)" and "c \<noteq> CHR ''\"''"
  shows "jstring (c # u) = map_option (\<lambda>(v, r). (b @ v, r)) (jstring t)"
  using assms by (simp add: jstring.simps [of "c # u"])

lemma jstring_end: "jstring (CHR ''\"'' # rest) = Some ([], rest)"
  by (simp add: jstring.simps)

text \<open>A string written and read again is the text with every invalid byte replaced.\<close>

lemma jstring_runes:
  assumes "\<And>rb. rb \<in> set rs \<Longrightarrow> valid_rune rb \<or> fst rb = RuneError \<and> length (snd rb) = 1"
  shows "jstring (concat (map quote_rune rs) @ CHR ''\"'' # rest) = Some (concat (map json_rune rs), rest)"
  using assms
proof (induction rs)
  case (Cons rb rs)
  let ?t = "concat (map quote_rune rs) @ CHR ''\"'' # rest"
  obtain c u where cu: "quote_rune rb = c # u" "c \<noteq> CHR ''\"''"
    and item: "string_item (quote_rune rb @ ?t) = Some (json_rune rb, ?t)"
    using quote_rune_item [of rb ?t] Cons.prems [of rb] by auto
  have "jstring (quote_rune rb @ ?t) = map_option (\<lambda>(v, r). (json_rune rb @ v, r)) (jstring ?t)"
    using jstring_item [of c "u @ ?t" "json_rune rb" ?t] cu item by simp
  then show ?case using Cons by simp
qed (simp add: jstring_end)

lemma jstring_quote: "jstring (tl (quote_string s) @ rest) = Some (json_text s, rest)"
  using jstring_runes [of "runes s" rest] runes_valid_or_error [of _ s]
  by (simp add: quote_string_def json_text_def json_rune_def [abs_def])

definition plain_char :: "char \<Rightarrow> bool" where
  "plain_char c \<longleftrightarrow> 32 \<le> byte c \<and> byte c < 128 \<and> c \<noteq> CHR ''\"'' \<and> c \<noteq> CHR 0x5C"

lemma jstring_plain: "list_all plain_char k \<Longrightarrow> jstring (k @ CHR ''\"'' # rest) = Some (k, rest)"
proof (induction k)
  case (Cons c k)
  then show ?case
    using jstring_item [OF string_item_plain [of c "k @ CHR ''\"'' # rest"]] by (simp add: plain_char_def)
qed (simp add: jstring_end)

lemma jstring_unclosed: "list_all plain_char k \<Longrightarrow> jstring k = None"
proof (induction k)
  case (Cons c k)
  then show ?case using jstring_item [OF string_item_plain [of c k]] by (simp add: plain_char_def)
qed (simp add: jstring.simps)

lemma b64_plain: "list_all plain_char (b64_encode bs)"
  using b64_encode_ok [of bs] b64_char_ok_plain by (auto simp: list_all_iff plain_char_def)

section \<open>Numbers\<close>

lemma utoa_hd: "hd (utoa n) = CHR ''0'' \<longleftrightarrow> n = 0"
proof (induction n rule: utoa.induct)
  case (1 n)
  show ?case
  proof (cases "n < 10")
    case True
    have "CHR ''0'' = digit_char 0" using char_of_byte_eq [of "CHR ''0''" 48] by (simp add: digit_char_def byte_def)
    then have "digit_char n = CHR ''0'' \<longleftrightarrow> n = 0" using digit_val_digit_char [OF True] digit_val_digit_char [of 0] by auto
    then show ?thesis using True by (simp add: utoa.simps [of n])
  next
    case False
    then have "n div 10 \<noteq> 0" by auto
    then show ?thesis using False 1 utoa_not_Nil by (simp add: utoa.simps [of n])
  qed
qed

text \<open>Inside an object a value is followed by a comma or the closing brace.\<close>

definition sep_next :: "string \<Rightarrow> bool" where
  "sep_next s \<longleftrightarrow> (\<exists>t. s = CHR '','' # t \<or> s = CHR ''}'' # t)"

lemma takeWhile_utoa:
  assumes "sep_next rest"
  shows "takeWhile is_digit (utoa n @ rest) = utoa n" and "dropWhile is_digit (utoa n @ rest) = rest"
proof -
  have "\<forall>x \<in> set (utoa n). is_digit x" using utoa_digits [of n] by (simp add: list_all_iff)
  moreover have "takeWhile is_digit rest = []" "dropWhile is_digit rest = rest"
    using assms by (auto simp: sep_next_def is_digit_def)
  ultimately show "takeWhile is_digit (utoa n @ rest) = utoa n" "dropWhile is_digit (utoa n @ rest) = rest" by simp_all
qed

lemma number_int_utoa:
  assumes "sep_next rest"
  shows "number_int (utoa n @ rest) = Some (utoa n, rest)"
proof (cases "n = 0")
  case True
  have "digit_char 0 = CHR ''0''" using char_of_byte_eq [of "CHR ''0''" 48] by (simp add: digit_char_def byte_def)
  then show ?thesis using True by (simp add: number_int_def utoa.simps [of 0])
next
  case False
  obtain c cs where c: "utoa n = c # cs" using utoa_not_Nil [of n] by (cases "utoa n") auto
  then have "c \<noteq> CHR ''0''" using utoa_hd [of n] False by simp
  then have "number_int (utoa n @ rest) = digits1 (utoa n @ rest)" using c by (simp add: number_int_def)
  then show ?thesis using takeWhile_utoa [OF assms] utoa_not_Nil by (simp add: digits1_def)
qed

lemma number_abs_utoa: "sep_next rest \<Longrightarrow> number_abs (utoa n @ rest) = Some (utoa n, rest)"
  using number_int_utoa [of rest n]
  by (auto simp: number_abs_def number_frac_def number_exp_def sep_next_def)

lemma jnumber_Itoa: "sep_next rest \<Longrightarrow> jnumber (Itoa i @ rest) = Some (Itoa i, rest)"
proof -
  assume rest: "sep_next rest"
  obtain c cs where c: "utoa (nat i) = c # cs" using utoa_not_Nil [of "nat i"] by (cases "utoa (nat i)") auto
  have "c \<noteq> CHR ''-''" using utoa_head_digit [OF c] not_is_digit_signs by auto
  then show ?thesis using number_abs_utoa [OF rest, of "nat i"] number_abs_utoa [OF rest, of "nat (- i)"] c
    by (auto simp: Itoa_def jnumber_def)
qed

section \<open>Objects\<close>

text \<open>A text that is read as a value, whatever the object has after it.\<close>

definition writes :: "string \<Rightarrow> json \<Rightarrow> bool" where
  "writes v j \<longleftrightarrow> (\<forall>n rest. sep_next rest \<longrightarrow> jvalue (Suc n) (v @ rest) = Some (j, rest))"

lemma Itoa_first: "\<exists>c cs. Itoa i = c # cs \<and> (is_digit c \<or> c = CHR ''-'')"
proof (cases "i < 0")
  case False
  obtain c cs where "utoa (nat i) = c # cs" using utoa_not_Nil [of "nat i"] by (cases "utoa (nat i)") auto
  then show ?thesis using utoa_head_digit False by (auto simp: Itoa_def)
qed (simp add: Itoa_def)

lemma writes_Itoa: "writes (Itoa i) (JNumber (Itoa i))"
  unfolding writes_def
proof (intro allI impI)
  fix n rest
  assume rest: "sep_next rest"
  obtain c cs where c: "Itoa i = c # cs" "is_digit c \<or> c = CHR ''-''" using Itoa_first by blast
  have "\<not> is_ws c" "c \<notin> {CHR ''\"'', CHR ''{'', CHR ''['', CHR ''t'', CHR ''f'', CHR ''n''}"
    using c(2) by (auto simp: is_digit_def is_ws_def)
  then show "jvalue (Suc n) (Itoa i @ rest) = Some (JNumber (Itoa i), rest)"
    using jnumber_Itoa [OF rest, of i] by (simp add: c skip_ws_def)
qed

lemma writes_null: "writes ''null'' JNull"
  by (auto simp: writes_def skip_ws_def is_ws_def jname_def)

lemma jvalue_quote: "jvalue (Suc n) (CHR ''\"'' # t) = map_option (\<lambda>(v, r). (JString v, r)) (jstring t)"
  by (simp add: skip_ws_def is_ws_def)

lemma writes_string: "writes (quote_string s) (JString (json_text s))"
proof -
  have "jvalue (Suc n) (quote_string s @ rest) = Some (JString (json_text s), rest)" for n rest
  proof -
    have q: "quote_string s @ rest = CHR ''\"'' # (tl (quote_string s) @ rest)" by (simp add: quote_string_def)
    show ?thesis unfolding q jvalue_quote jstring_quote by simp
  qed
  then show ?thesis by (simp only: writes_def) blast
qed

lemma writes_bytes: "writes (quote_bytes bs) (JString (b64_encode bs))"
  unfolding writes_def quote_bytes_def
  by (simp add: jvalue_quote jstring_plain [OF b64_plain] del: jvalue.simps)

text \<open>The members of an object are read back one by one.\<close>

lemma jmembers_step:
  assumes "list_all plain_char k" and "writes v j"
  shows "jmembers (Suc (Suc n)) (CHR ''\"'' # k @ ''\":'' @ v @ CHR '','' # t) =
      map_option (\<lambda>(ms, r). ((k, j) # ms, r)) (jmembers (Suc n) t)"
    and "jmembers (Suc (Suc n)) (CHR ''\"'' # k @ ''\":'' @ v @ CHR ''}'' # t) = Some ([(k, j)], t)"
proof -
  have q: "jstring (k @ ''\":'' @ u) = Some (k, CHR '':'' # u)" for u
    using jstring_plain [OF assms(1), of "CHR '':'' # u"] by simp
  have v: "jvalue (Suc n) (v @ CHR '','' # t) = Some (j, CHR '','' # t)"
    "jvalue (Suc n) (v @ CHR ''}'' # t) = Some (j, CHR ''}'' # t)"
    using assms(2) by (auto simp: writes_def sep_next_def simp del: jvalue.simps)
  have ws: "skip_ws (c # u) = c # u" if "\<not> is_ws c" for c u using that by (simp add: skip_ws_def)
  have nw: "\<not> is_ws CHR ''\"''" "\<not> is_ws CHR '':''" "\<not> is_ws CHR '',''" "\<not> is_ws CHR ''}''"
    by (simp_all add: is_ws_def)
  show "jmembers (Suc (Suc n)) (CHR ''\"'' # k @ ''\":'' @ v @ CHR '','' # t) =
      map_option (\<lambda>(ms, r). ((k, j) # ms, r)) (jmembers (Suc n) t)"
    by (subst jmembers.simps(2)) (simp add: ws nw q v del: jvalue.simps jmembers.simps append_Cons append_Nil)
  show "jmembers (Suc (Suc n)) (CHR ''\"'' # k @ ''\":'' @ v @ CHR ''}'' # t) = Some ([(k, j)], t)"
    by (subst jmembers.simps(2)) (simp add: ws nw q v del: jvalue.simps jmembers.simps append_Cons append_Nil)
qed

definition writes_member :: "string \<times> string \<Rightarrow> string \<times> json \<Rightarrow> bool" where
  "writes_member kv kj \<longleftrightarrow> fst kv = fst kj \<and> list_all plain_char (fst kv) \<and> writes (snd kv) (snd kj)"

lemma writes_members_Cons:
  assumes "list_all2 writes_member ((k, v) # kvs) ms"
  obtains j js where "ms = (k, j) # js" and "list_all plain_char k" and "writes v j" and "list_all2 writes_member kvs js"
proof -
  from assms obtain kj js where ms: "ms = kj # js" "writes_member (k, v) kj" "list_all2 writes_member kvs js"
    by (auto simp: list_all2_Cons1)
  show ?thesis by (rule that [of "snd kj" js]) (use ms in \<open>auto simp: writes_member_def\<close>)
qed

lemma jmembers_members:
  assumes "list_all2 writes_member kvs ms" and "kvs \<noteq> []" and "length kvs < n"
  shows "jmembers n (members kvs @ CHR ''}'' # rest) = Some (ms, rest)"
  using assms
proof (induction kvs arbitrary: ms n rule: members.induct)
  case (2 k v)
  obtain j js where j: "ms = (k, j) # js" "list_all plain_char k" "writes v j" "list_all2 writes_member [] js"
    by (rule writes_members_Cons [OF 2(1)])
  define n' where "n' = n - 2"
  have n: "n = Suc (Suc n')" using 2(3) by (simp add: n'_def)
  show ?case using jmembers_step(2) [OF j(2,3), of n' rest] j(1,4) unfolding n by (simp del: jmembers.simps)
next
  case (3 k v kv kvs)
  obtain j js where j: "ms = (k, j) # js" "list_all plain_char k" "writes v j"
      and js: "list_all2 writes_member (kv # kvs) js"
    by (rule writes_members_Cons [OF 3(2)])
  define n' where "n' = n - 2"
  have n: "n = Suc (Suc n')" "length (kv # kvs) < Suc n'" using 3(4) by (simp_all add: n'_def)
  have "jmembers (Suc n') (members (kv # kvs) @ CHR ''}'' # rest) = Some (js, rest)"
    by (rule 3(1) [OF js _ n(2)]) simp
  moreover have "members ((k, v) # kv # kvs) @ CHR ''}'' # rest =
      CHR ''\"'' # k @ ''\":'' @ v @ CHR '','' # (members (kv # kvs) @ CHR ''}'' # rest)" by simp
  ultimately show ?case unfolding n(1) j(1) by (simp only: jmembers_step(1) [OF j(2,3)]) simp
qed simp

lemma members_length: "length kvs \<le> length (members kvs)"
  by (induction kvs rule: members.induct) auto

lemma members_first: "kvs \<noteq> [] \<Longrightarrow> \<exists>t. members kvs = CHR ''\"'' # t"
  by (cases kvs rule: members.cases) auto

text \<open>A marshalled object is read from the front of a stream.\<close>

lemma jvalue_object:
  assumes "list_all2 writes_member kvs ms" and "kvs \<noteq> []"
  shows "jvalue (2 * length (marshal_object kvs @ rest) + 1) (marshal_object kvs @ rest) = Some (JObject ms, rest)"
proof -
  let ?n = "2 * length (marshal_object kvs @ rest)"
  have "jmembers ?n (members kvs @ CHR ''}'' # rest) = Some (ms, rest)"
    using jmembers_members [OF assms, of ?n rest] members_length [of kvs]
    by (simp add: marshal_object_def del: jmembers.simps)
  moreover obtain t where t: "members kvs = CHR ''\"'' # t" using members_first [OF assms(2)] by blast
  moreover have "marshal_object kvs @ rest = CHR ''{'' # members kvs @ CHR ''}'' # rest" by (simp add: marshal_object_def)
  ultimately show ?thesis by (simp add: skip_ws_def is_ws_def del: jmembers.simps)
qed

theorem json_parse_object:
  assumes "list_all2 writes_member kvs ms" and "kvs \<noteq> []"
  shows "json_parse (marshal_object kvs) = Some (JObject ms)"
  using jvalue_object [OF assms, of "[]"] by (simp add: json_parse_def skip_ws_def del: jvalue.simps)

text \<open>An object that is cut inside a string is not a JSON text.\<close>

lemma jmembers_cut:
  assumes "list_all2 writes_member kvs ms" and "list_all plain_char k" and "list_all plain_char p"
  shows "jmembers n (concat (map (\<lambda>kv. members [kv] @ '','') kvs) @ CHR ''\"'' # k @ ''\":\"'' @ p) = None"
  using assms(1)
proof (induction kvs arbitrary: ms n)
  case Nil
  have q: "jstring (k @ ''\":\"'' @ p) = Some (k, CHR '':'' # CHR ''\"'' # p)"
    using jstring_plain [OF assms(2), of "CHR '':'' # CHR ''\"'' # p"] by simp
  have "jvalue m (CHR ''\"'' # p) = None" for m
    by (cases m) (simp_all add: jvalue_quote jstring_unclosed [OF assms(3)] del: jvalue.simps(2))
  then show ?case using q by (cases n) (simp_all add: skip_ws_def is_ws_def)
next
  case (Cons kv kvs)
  obtain k' v where kv: "kv = (k', v)" by (cases kv)
  obtain j js where j: "ms = (k', j) # js" "list_all plain_char k'" "writes v j" "list_all2 writes_member kvs js"
    using Cons.prems unfolding kv by (rule writes_members_Cons)
  let ?t = "concat (map (\<lambda>kv. members [kv] @ '','') kvs) @ CHR ''\"'' # k @ ''\":\"'' @ p"
  have t: "concat (map (\<lambda>kv. members [kv] @ '','') (kv # kvs)) @ CHR ''\"'' # k @ ''\":\"'' @ p =
      CHR ''\"'' # k' @ ''\":'' @ v @ CHR '','' # ?t" by (simp add: kv)
  show ?case
  proof (cases n)
    case (Suc n')
    show ?thesis
    proof (cases n')
      case 0
      have "jstring (k' @ ''\":'' @ u) = Some (k', CHR '':'' # u)" for u
        using jstring_plain [OF j(2), of "CHR '':'' # u"] by simp
      then show ?thesis unfolding t Suc 0 by (simp add: skip_ws_def is_ws_def)
    next
      case (Suc m)
      then show ?thesis unfolding t \<open>n = Suc n'\<close> Suc jmembers_step(1) [OF j(2,3)] Cons.IH [OF j(4)] by simp
    qed
  qed simp
qed

section \<open>Structs\<close>

lemma store_int_Itoa: "lo \<le> i \<Longrightarrow> i \<le> hi \<Longrightarrow> store_int lo hi (JNumber (Itoa i)) old = (i, False)"
  by (simp add: store_int_def Atoi_Itoa)

lemma store_string_quote: "valid_utf8 s \<Longrightarrow> store_string (JString (json_text s)) old = (s, False)"
  by (simp add: store_string_def json_text_valid)

lemma store_bytes_encode: "store_bytes (JString (b64_encode bs)) old = (Some bs, False)"
  by (simp add: store_bytes_def b64_roundtrip)

lemma match_field_name: "k \<in> set names \<Longrightarrow> match_field names k = Some k"
  by (simp add: match_field_def)

text \<open>The members of a marshalled struct are stored one after the other.\<close>

fun put_all :: "(string \<Rightarrow> json \<Rightarrow> 'a \<Rightarrow> 'a \<times> bool) \<Rightarrow> (string \<times> json) list \<Rightarrow> 'a \<Rightarrow> 'a \<times> bool" where
  "put_all put [] x = (x, False)"
| "put_all put ((k, v) # ms) x =
     (let (y, e) = put k v x; (z, e') = put_all put ms y in (z, e \<or> e'))"

lemma foldl_put_all:
  assumes "set (map fst ms) \<subseteq> set names"
  shows "foldl (\<lambda>(x, e) (k, v). case match_field names k of
           None \<Rightarrow> (x, e) | Some n \<Rightarrow> (let (y, e') = put n v x in (y, e \<or> e'))) (x, b) ms =
    (fst (put_all put ms x), b \<or> snd (put_all put ms x))"
  using assms
proof (induction ms arbitrary: x b)
  case (Cons kv ms)
  obtain k v where kv: "kv = (k, v)" by (cases kv)
  then have "match_field names k = Some k" using Cons.prems by (simp add: match_field_name)
  then show ?case using Cons.IH Cons.prems kv by (auto simp: case_prod_beta Let_def)
qed simp

theorem unmarshal_object:
  assumes "list_all2 writes_member kvs ms" and "kvs \<noteq> []" and "set (map fst ms) \<subseteq> set names"
  shows "unmarshal names put (marshal_object kvs) x = put_all put ms x"
  using json_parse_object [OF assms(1,2)] foldl_put_all [OF assms(3), of put x False]
  by (simp add: unmarshal_def store_object_def)

theorem decode_object:
  assumes "list_all2 writes_member kvs ms" and "kvs \<noteq> []" and "set (map fst ms) \<subseteq> set names"
  shows "decode names put (marshal_object kvs @ rest) x = Some (put_all put ms x, rest)"
  using jvalue_object [OF assms(1,2), of rest] foldl_put_all [OF assms(3), of put x False]
  by (simp add: decode_def store_object_def del: jvalue.simps length_append)

text \<open>White space before a value is skipped.\<close>

lemma decode_ws: "is_ws c \<Longrightarrow> decode names put (c # s) x = decode names put s x"
proof -
  assume c: "is_ws c"
  have "jvalue (Suc n) (c # s) = jvalue (Suc n) s" for n using c by (simp add: skip_ws_def)
  then have "jvalue (2 * length (c # s) + 1) (c # s) = jvalue (2 * length (c # s) + 1) s"
    by (simp del: jvalue.simps)
  also have "\<dots> = jvalue (2 * length s + 1) s" by (rule json_fuel) simp
  finally show ?thesis by (simp add: decode_def del: jvalue.simps)
qed

lemma decode_Nil: "decode names put [] x = None"
  by (simp add: decode_def skip_ws_def)

lemma decode_shorter: "decode names put s x = Some (y, rest) \<Longrightarrow> length rest < length s"
  by (auto simp: decode_def simp del: jvalue.simps split: option.splits dest: jvalue_shorter)

lemma unmarshal_cut: "json_parse s = None \<Longrightarrow> unmarshal names put s x = (x, True)"
  by (simp add: unmarshal_def)

end
