(* ===== verification/Lspnet.thy ===== *)
theory Lspnet
  imports Json_Roundtrip "HOL-Library.Word"
begin

text \<open>
  The network layer of the second project (\<open>lspnet/staff.go\<close>, \<open>lspnet/net.go\<close>,
  \<open>lspnet/conn.go\<close>): the registry of connections, the percentages at which packets are
  dropped, shortened or lengthened, and the read and write operations that apply them.

  A connection is the number of its socket, an address its text. The numbers \<open>rand.Intn(100)\<close>
  returns and the results of the operating system are arguments.
\<close>

section \<open>State\<close>

type_synonym uint32 = "32 word"

record lspnet =
  connectionMap :: "(nat, bool) gomap"
  clientReadDropPercent :: uint32
  clientWriteDropPercent :: uint32
  serverReadDropPercent :: uint32
  serverWriteDropPercent :: uint32
  msgShorteningPercent :: uint32
  msgLengtheningPercent :: uint32
  enableDebugLogs :: uint32

definition lspnet_init :: lspnet where
  "lspnet_init = \<lparr>connectionMap = [], clientReadDropPercent = 0, clientWriteDropPercent = 0,
     serverReadDropPercent = 0, serverWriteDropPercent = 0, msgShorteningPercent = 0,
     msgLengtheningPercent = 0, enableDebugLogs = 0\<rparr>"

section \<open>staff.go\<close>

definition SetMsgShorteningPercent :: "int \<Rightarrow> lspnet \<Rightarrow> lspnet" where
  "SetMsgShorteningPercent p n = (if 0 \<le> (0 :: int) \<and> p \<le> 100 then n\<lparr>msgShorteningPercent := word_of_int p\<rparr> else n)"

definition SetMsgLengtheningPercent :: "int \<Rightarrow> lspnet \<Rightarrow> lspnet" where
  "SetMsgLengtheningPercent p n = (if 0 \<le> (0 :: int) \<and> p \<le> 100 then n\<lparr>msgLengtheningPercent := word_of_int p\<rparr> else n)"

definition SetClientReadDropPercent :: "int \<Rightarrow> lspnet \<Rightarrow> lspnet" where
  "SetClientReadDropPercent p n = (if 0 \<le> p \<and> p \<le> 100 then n\<lparr>clientReadDropPercent := word_of_int p\<rparr> else n)"

definition SetClientWriteDropPercent :: "int \<Rightarrow> lspnet \<Rightarrow> lspnet" where
  "SetClientWriteDropPercent p n = (if 0 \<le> p \<and> p \<le> 100 then n\<lparr>clientWriteDropPercent := word_of_int p\<rparr> else n)"

definition SetServerReadDropPercent :: "int \<Rightarrow> lspnet \<Rightarrow> lspnet" where
  "SetServerReadDropPercent p n = (if 0 \<le> p \<and> p \<le> 100 then n\<lparr>serverReadDropPercent := word_of_int p\<rparr> else n)"

definition SetServerWriteDropPercent :: "int \<Rightarrow> lspnet \<Rightarrow> lspnet" where
  "SetServerWriteDropPercent p n = (if 0 \<le> p \<and> p \<le> 100 then n\<lparr>serverWriteDropPercent := word_of_int p\<rparr> else n)"

definition SetReadDropPercent :: "int \<Rightarrow> lspnet \<Rightarrow> lspnet" where
  "SetReadDropPercent p n = SetServerReadDropPercent p (SetClientReadDropPercent p n)"

definition SetWriteDropPercent :: "int \<Rightarrow> lspnet \<Rightarrow> lspnet" where
  "SetWriteDropPercent p n = SetServerWriteDropPercent p (SetClientWriteDropPercent p n)"

definition ResetDropPercent :: "lspnet \<Rightarrow> lspnet" where
  "ResetDropPercent n = SetWriteDropPercent 0 (SetReadDropPercent 0 n)"

definition readDropPercent :: "nat \<Rightarrow> lspnet \<Rightarrow> int" where
  "readDropPercent c n = (case gm_get (connectionMap n) c of
       Some isServer \<Rightarrow> if isServer then uint (serverReadDropPercent n) else uint (clientReadDropPercent n)
     | None \<Rightarrow> 0)"

definition writeDropPercent :: "nat \<Rightarrow> lspnet \<Rightarrow> int" where
  "writeDropPercent c n = (case gm_get (connectionMap n) c of
       Some isServer \<Rightarrow> if isServer then uint (serverWriteDropPercent n) else uint (clientWriteDropPercent n)
     | None \<Rightarrow> 0)"

section \<open>net.go\<close>

text \<open>
  The system calls yield a new socket or fail; a failed call changes nothing.
\<close>

definition ListenUDP :: "nat option \<Rightarrow> lspnet \<Rightarrow> (lspnet \<times> nat) option" where
  "ListenUDP nconn n = (case nconn of None \<Rightarrow> None
     | Some c \<Rightarrow> Some (n\<lparr>connectionMap := gm_set c True (connectionMap n)\<rparr>, c))"

definition DialUDP :: "nat option \<Rightarrow> lspnet \<Rightarrow> (lspnet \<times> nat) option" where
  "DialUDP nconn n = (case nconn of None \<Rightarrow> None
     | Some c \<Rightarrow> Some (n\<lparr>connectionMap := gm_set c False (connectionMap n)\<rparr>, c))"

section \<open>conn.go\<close>

definition EnableDebugLogs :: "bool \<Rightarrow> lspnet \<Rightarrow> lspnet" where
  "EnableDebugLogs enable n = (if enable then n\<lparr>enableDebugLogs := 1\<rparr> else n\<lparr>enableDebugLogs := 0\<rparr>)"

definition isLoggingEnabled :: "lspnet \<Rightarrow> bool" where
  "isLoggingEnabled n \<longleftrightarrow> enableDebugLogs n = 1"

definition UDPConn_Close :: "nat \<Rightarrow> lspnet \<Rightarrow> lspnet" where
  "UDPConn_Close c n = (if gm_get (connectionMap n) c \<noteq> None
     then n\<lparr>connectionMap := gm_del c (connectionMap n)\<rparr> else n)"

text \<open>\<open>sometimes\<close>: the argument \<open>draw\<close> is what \<open>rand.Intn(100)\<close> returns.\<close>

definition sometimes :: "nat \<Rightarrow> int \<Rightarrow> bool" where
  "sometimes draw percentage \<longleftrightarrow> int draw < percentage"

text \<open>
  The read loop: every iteration takes a result of the socket and a random number. A packet
  longer than the buffer of 2000 bytes is cut. The result is the error, or the bytes that
  fit into the slice of the caller, their number and the sender; \<open>None\<close> means that the call
  still waits.
\<close>

datatype os_read = OsPacket bytes "string option" | OsError

fun ReadFromUDP :: "nat \<Rightarrow> lspnet \<Rightarrow> nat \<Rightarrow> (os_read \<times> nat) list \<Rightarrow> (unit + bytes \<times> nat \<times> string option) option" where
  "ReadFromUDP c n len [] = None"
| "ReadFromUDP c n len ((r, draw) # rs) =
     (if sometimes draw (readDropPercent c n) then ReadFromUDP c n len rs
      else Some (case r of
          OsError \<Rightarrow> Inl ()
        | OsPacket p a \<Rightarrow> Inr (take len (take 2000 p), length (take 2000 p), a)))"

text \<open>\<open>Read\<close> is the same loop without the address.\<close>

definition UDPConn_Read :: "nat \<Rightarrow> lspnet \<Rightarrow> nat \<Rightarrow> (os_read \<times> nat) list \<Rightarrow> (unit + bytes \<times> nat) option" where
  "UDPConn_Read c n len rs = map_option (map_sum id (\<lambda>(b, k, a). (b, k))) (ReadFromUDP c n len rs)"

text \<open>The view \<open>write\<close> has of a packet. A nil slice is \<open>None\<close>.\<close>

record TemporaryMessage =
  TType :: int
  TConnID :: int
  TSeqNum :: int
  TSize :: int
  TPayload :: "bytes option"

definition tmp_zero :: TemporaryMessage where
  "tmp_zero = \<lparr>TType = 0, TConnID = 0, TSeqNum = 0, TSize = 0, TPayload = None\<rparr>"

definition field_names :: "string list" where
  "field_names = [''Type'', ''ConnID'', ''SeqNum'', ''Size'', ''Payload'']"

definition put_tmp :: "string \<Rightarrow> json \<Rightarrow> TemporaryMessage \<Rightarrow> TemporaryMessage \<times> bool" where
  "put_tmp f j m =
     (if f = ''Type'' then (let (i, e) = store_int64 j (TType m) in (m\<lparr>TType := i\<rparr>, e))
      else if f = ''ConnID'' then (let (i, e) = store_int64 j (TConnID m) in (m\<lparr>TConnID := i\<rparr>, e))
      else if f = ''SeqNum'' then (let (i, e) = store_int64 j (TSeqNum m) in (m\<lparr>TSeqNum := i\<rparr>, e))
      else if f = ''Size'' then (let (i, e) = store_int64 j (TSize m) in (m\<lparr>TSize := i\<rparr>, e))
      else if f = ''Payload'' then (let (b, e) = store_bytes j (TPayload m) in (m\<lparr>TPayload := b\<rparr>, e))
      else (m, False))"

definition unmarshal_tmp :: "bytes \<Rightarrow> TemporaryMessage \<times> bool" where
  "unmarshal_tmp b = unmarshal field_names put_tmp b tmp_zero"

definition marshal_tmp :: "TemporaryMessage \<Rightarrow> bytes" where
  "marshal_tmp m = marshal_object [(''Type'', Itoa (TType m)), (''ConnID'', Itoa (TConnID m)),
     (''SeqNum'', Itoa (TSeqNum m)), (''Size'', Itoa (TSize m)),
     (''Payload'', case TPayload m of None \<Rightarrow> ''null'' | Some bs \<Rightarrow> quote_bytes bs)]"

text \<open>\<open>json.Unmarshal\<close> into an \<open>int\<close>, Go's division and 64-bit multiplication.\<close>

definition unmarshal_int :: "bytes \<Rightarrow> int \<times> bool" where
  "unmarshal_int b = (case json_parse b of None \<Rightarrow> (0, True) | Some j \<Rightarrow> store_int64 j 0)"

definition go_quot :: "int \<Rightarrow> int \<Rightarrow> int" where
  "go_quot i k = sgn i * (\<bar>i\<bar> div k)"

definition wrap64 :: "int \<Rightarrow> int" where
  "wrap64 i = (i + 2 ^ 63) mod 2 ^ 64 - 2 ^ 63"

definition payload_bytes :: "TemporaryMessage \<Rightarrow> bytes" where
  "payload_bytes m = (case TPayload m of None \<Rightarrow> [] | Some b \<Rightarrow> b)"

definition shorten_msg :: "TemporaryMessage \<Rightarrow> TemporaryMessage" where
  "shorten_msg m = (let (payload, err) = unmarshal_int (payload_bytes m) in
     if err then m\<lparr>TPayload := Some (Itoa (go_quot payload 1000))\<rparr>
     else m\<lparr>TPayload := map_option (\<lambda>b. take (length b div 2) b) (TPayload m)\<rparr>)"

definition lengthen_msg :: "TemporaryMessage \<Rightarrow> TemporaryMessage" where
  "lengthen_msg m = (let (payload, err) = unmarshal_int (payload_bytes m) in
     if err then m\<lparr>TPayload := Some (Itoa (wrap64 (payload * 1000)))\<rparr>
     else m\<lparr>TPayload := Some (payload_bytes m @ [CHR 0x02, CHR 0x03, CHR 0x04])\<rparr>)"

text \<open>The bytes \<open>write\<close> hands to the socket when it does not drop the packet.\<close>

definition write_packet :: "nat \<Rightarrow> nat \<Rightarrow> lspnet \<Rightarrow> bytes \<Rightarrow> bytes" where
  "write_packet d1 d2 n b = (let msg = fst (unmarshal_tmp b) in
     if TType msg = 1 then
       (let shorten = sometimes d1 (uint (msgShorteningPercent n));
            lengthen = sometimes d2 (uint (msgLengtheningPercent n)) in
        if shorten then marshal_tmp (shorten_msg msg)
        else if lengthen then marshal_tmp (lengthen_msg msg)
        else b)
     else b)"

text \<open>
  \<open>write\<close> with the random numbers it draws and whether the socket accepts the packet: the
  packet sent with its destination, the returned number and whether an error is returned. On
  a connected socket an error is swallowed.
\<close>

definition udp_write :: "nat \<times> nat \<times> nat \<Rightarrow> bool \<Rightarrow> nat \<Rightarrow> lspnet \<Rightarrow> bytes \<Rightarrow> string option \<Rightarrow>
    (bytes \<times> string option) option \<times> nat \<times> bool" where
  "udp_write draws ok c n b addr = (case draws of (d0, d1, d2) \<Rightarrow>
     if sometimes d0 (writeDropPercent c n) then (None, length b, False)
     else (let p = write_packet d1 d2 n b in
       if ok then (Some (p, addr), length p, False)
       else (None, 0, addr \<noteq> None)))"

definition UDPConn_Write :: "nat \<times> nat \<times> nat \<Rightarrow> bool \<Rightarrow> nat \<Rightarrow> lspnet \<Rightarrow> bytes \<Rightarrow>
    (bytes \<times> string option) option \<times> nat \<times> bool" where
  "UDPConn_Write draws ok c n b = udp_write draws ok c n b None"

definition WriteToUDP :: "nat \<times> nat \<times> nat \<Rightarrow> bool \<Rightarrow> nat \<Rightarrow> lspnet \<Rightarrow> bytes \<Rightarrow> string option \<Rightarrow>
    (bytes \<times> string option) option \<times> nat \<times> bool" where
  "WriteToUDP draws ok c n b addr = (case addr of None \<Rightarrow> (None, 0, True)
     | Some a \<Rightarrow> udp_write draws ok c n b (Some a))"

section \<open>Round trip of a packet\<close>

definition int64 :: "int \<Rightarrow> bool" where
  "int64 i \<longleftrightarrow> - (2 ^ 63) \<le> i \<and> i \<le> 2 ^ 63 - 1"

definition tmp_ok :: "TemporaryMessage \<Rightarrow> bool" where
  "tmp_ok m \<longleftrightarrow> int64 (TType m) \<and> int64 (TConnID m) \<and> int64 (TSeqNum m) \<and> int64 (TSize m)"

definition tmp_members :: "TemporaryMessage \<Rightarrow> (string \<times> json) list" where
  "tmp_members m = [(''Type'', JNumber (Itoa (TType m))), (''ConnID'', JNumber (Itoa (TConnID m))),
     (''SeqNum'', JNumber (Itoa (TSeqNum m))), (''Size'', JNumber (Itoa (TSize m))),
     (''Payload'', case TPayload m of None \<Rightarrow> JNull | Some bs \<Rightarrow> JString (b64_encode bs))]"

lemma plain_names: "list_all (list_all plain_char) field_names"
  by (simp add: field_names_def plain_char_def byte_def)

lemma writes_int_member: "list_all plain_char k \<Longrightarrow> writes_member (k, Itoa i) (k, JNumber (Itoa i))"
  by (simp add: writes_member_def writes_Itoa)

lemma writes_payload_member:
  "writes_member (''Payload'', case p of None \<Rightarrow> ''null'' | Some bs \<Rightarrow> quote_bytes bs)
     (''Payload'', case p of None \<Rightarrow> JNull | Some bs \<Rightarrow> JString (b64_encode bs))"
  using plain_names by (cases p) (simp_all add: writes_member_def writes_null writes_bytes field_names_def)

lemma put_all_tmp:
  assumes "tmp_ok m"
  shows "put_all put_tmp (tmp_members m) tmp_zero = (m, False)"
proof -
  have "store_bytes (case TPayload m of None \<Rightarrow> JNull | Some bs \<Rightarrow> JString (b64_encode bs)) None = (TPayload m, False)"
    by (cases "TPayload m") (simp_all add: store_bytes_encode, simp add: store_bytes_def)
  then show ?thesis using assms
    by (simp add: tmp_members_def put_tmp_def tmp_zero_def tmp_ok_def int64_def store_int_Itoa)
qed

theorem unmarshal_marshal_tmp:
  assumes "tmp_ok m"
  shows "unmarshal_tmp (marshal_tmp m) = (m, False)"
proof -
  have "unmarshal_tmp (marshal_tmp m) = put_all put_tmp (tmp_members m) tmp_zero"
    unfolding unmarshal_tmp_def marshal_tmp_def
    by (rule unmarshal_object)
      (use plain_names in \<open>simp_all add: tmp_members_def writes_int_member writes_payload_member field_names_def\<close>)
  then show ?thesis using put_all_tmp [OF assms] by simp
qed

section \<open>What write may do to a packet\<close>

lemma shorten_msg_payload: "\<exists>q. shorten_msg m = m\<lparr>TPayload := q\<rparr>" and lengthen_msg_payload: "\<exists>q. lengthen_msg m = m\<lparr>TPayload := q\<rparr>"
  by (auto simp: shorten_msg_def lengthen_msg_def case_prod_beta)

lemma shorten_msg_header [simp]:
  "TType (shorten_msg m) = TType m" "TConnID (shorten_msg m) = TConnID m"
  "TSeqNum (shorten_msg m) = TSeqNum m" "TSize (shorten_msg m) = TSize m"
  by (simp_all add: shorten_msg_def case_prod_beta Let_def)

lemma lengthen_msg_header [simp]:
  "TType (lengthen_msg m) = TType m" "TConnID (lengthen_msg m) = TConnID m"
  "TSeqNum (lengthen_msg m) = TSeqNum m" "TSize (lengthen_msg m) = TSize m"
  by (simp_all add: lengthen_msg_def case_prod_beta Let_def)

lemma write_packet_cases:
  assumes "tmp_ok m"
  shows "write_packet d1 d2 n (marshal_tmp m) =
    (if TType m \<noteq> 1 then marshal_tmp m
     else if sometimes d1 (uint (msgShorteningPercent n)) then marshal_tmp (shorten_msg m)
     else if sometimes d2 (uint (msgLengtheningPercent n)) then marshal_tmp (lengthen_msg m)
     else marshal_tmp m)"
  using unmarshal_marshal_tmp [OF assms] by (simp add: write_packet_def Let_def)

lemma sometimes_zero: "\<not> sometimes d 0"
  by (simp add: sometimes_def)

lemma write_packet_header:
  assumes "tmp_ok m"
  shows "\<exists>q. unmarshal_tmp (write_packet d1 d2 n (marshal_tmp m)) = (m\<lparr>TPayload := q\<rparr>, False) \<and>
    (q = TPayload m \<or> TType m = 1 \<and> (msgShorteningPercent n \<noteq> 0 \<or> msgLengtheningPercent n \<noteq> 0))"
proof -
  let ?p = "write_packet d1 d2 n (marshal_tmp m)"
  have changed: "unmarshal_tmp (marshal_tmp m') = (m\<lparr>TPayload := TPayload m'\<rparr>, False)"
    if "m' = shorten_msg m \<or> m' = lengthen_msg m" for m'
  proof -
    have "tmp_ok m'" "m' = m\<lparr>TPayload := TPayload m'\<rparr>" using that assms by (auto simp: tmp_ok_def)
    then show ?thesis using unmarshal_marshal_tmp [of m'] by simp
  qed
  consider (same) "?p = marshal_tmp m"
    | (short) "?p = marshal_tmp (shorten_msg m)" "TType m = 1" "sometimes d1 (uint (msgShorteningPercent n))"
    | (long) "?p = marshal_tmp (lengthen_msg m)" "TType m = 1" "sometimes d2 (uint (msgLengtheningPercent n))"
    unfolding write_packet_cases [OF assms] by presburger
  then show ?thesis
  proof cases
    case same
    then show ?thesis using unmarshal_marshal_tmp [OF assms] by (intro exI [of _ "TPayload m"]) simp
  next
    case short
    then have "msgShorteningPercent n \<noteq> 0" using sometimes_zero by auto
    then show ?thesis using short changed [of "shorten_msg m"] by auto
  next
    case long
    then have "msgLengtheningPercent n \<noteq> 0" using sometimes_zero by auto
    then show ?thesis using long changed [of "lengthen_msg m"] by auto
  qed
qed

text \<open>
  The network layer never touches a header. Whatever the percentages and the random
  numbers, what \<open>write\<close> hands to the socket for a marshalled message either is nothing or
  decodes to a message with the same type, connection, sequence number and size; the payload
  is the same too unless the packet is a data message and a shortening or lengthening
  percentage is set.
\<close>

theorem write_keeps_header:
  assumes "tmp_ok m"
  shows "case udp_write draws ok c n (marshal_tmp m) addr of
      (None, _, _) \<Rightarrow> True
    | (Some (p, a), k, e) \<Rightarrow> a = addr \<and> k = length p \<and> \<not> e \<and>
        (\<exists>q. unmarshal_tmp p = (m\<lparr>TPayload := q\<rparr>, False) \<and>
          (q = TPayload m \<or> TType m = 1 \<and> (msgShorteningPercent n \<noteq> 0 \<or> msgLengtheningPercent n \<noteq> 0)))"
proof -
  obtain d0 d1 d2 where d: "draws = (d0, d1, d2)" by (cases draws)
  show ?thesis using write_packet_header [OF assms, of d1 d2 n] by (auto simp: udp_write_def d Let_def)
qed

definition tmp_example :: TemporaryMessage where
  "tmp_example = \<lparr>TType = 1, TConnID = 7, TSeqNum = 2, TSize = 2, TPayload = Some ''42''\<rparr>"

theorem write_keeps_header_witness:
  "\<exists>q. unmarshal_tmp (write_packet 3 50 (SetMsgShorteningPercent 5 lspnet_init) (marshal_tmp tmp_example)) =
     (tmp_example\<lparr>TPayload := q\<rparr>, False)"
proof -
  let ?n = "SetMsgShorteningPercent 5 lspnet_init"
  have ok: "tmp_ok tmp_example" by (simp add: tmp_ok_def int64_def tmp_example_def)
  have sent: "udp_write (0, 3, 50) True 1 ?n (marshal_tmp tmp_example) None =
      (Some (write_packet 3 50 ?n (marshal_tmp tmp_example), None),
       length (write_packet 3 50 ?n (marshal_tmp tmp_example)), False)"
    by (simp add: udp_write_def Let_def writeDropPercent_def SetMsgShorteningPercent_def lspnet_init_def sometimes_def)
  show ?thesis using write_keeps_header [OF ok, where draws = "(0, 3, 50)" and ok = True and c = 1 and n = ?n and addr = None]
    unfolding sent by auto
qed

section \<open>The percentages\<close>

text \<open>
  The contract of the four drop percentages: a value between 0 and 100 is stored, any other
  is ignored.
\<close>

locale percent_setter =
  fixes setp :: "int \<Rightarrow> lspnet \<Rightarrow> lspnet" and getp :: "lspnet \<Rightarrow> uint32"
  assumes stored: "0 \<le> p \<Longrightarrow> p \<le> 100 \<Longrightarrow> getp (setp p n) = word_of_int p"
    and ignored: "p < 0 \<or> 100 < p \<Longrightarrow> setp p n = n"
begin

lemma small: "0 \<le> p \<Longrightarrow> p \<le> 100 \<Longrightarrow> uint (getp (setp p n)) = p"
  by (simp add: stored uint_word_of_int)

lemma bounded: "uint (getp n) \<le> 100 \<Longrightarrow> uint (getp (setp p n)) \<le> 100"
  using small [of p n] ignored [of p n] by (cases "0 \<le> p \<and> p \<le> 100") auto

lemma never: "\<not> sometimes d (uint (getp (setp 0 n)))"
  by (simp add: small sometimes_def)

lemma always: "d < 100 \<Longrightarrow> sometimes d (uint (getp (setp 100 n)))"
  by (simp add: small sometimes_def)

end

interpretation client_read: percent_setter SetClientReadDropPercent clientReadDropPercent
  by unfold_locales (auto simp: SetClientReadDropPercent_def)

interpretation client_write: percent_setter SetClientWriteDropPercent clientWriteDropPercent
  by unfold_locales (auto simp: SetClientWriteDropPercent_def)

interpretation server_read: percent_setter SetServerReadDropPercent serverReadDropPercent
  by unfold_locales (auto simp: SetServerReadDropPercent_def)

interpretation server_write: percent_setter SetServerWriteDropPercent serverWriteDropPercent
  by unfold_locales (auto simp: SetServerWriteDropPercent_def)

text \<open>After a reset nothing is dropped on any connection.\<close>

lemma ResetDropPercent_none:
  "readDropPercent c (ResetDropPercent n) = 0" "writeDropPercent c (ResetDropPercent n) = 0"
  by (auto simp: readDropPercent_def writeDropPercent_def ResetDropPercent_def SetReadDropPercent_def SetWriteDropPercent_def
      SetClientReadDropPercent_def SetServerReadDropPercent_def SetClientWriteDropPercent_def SetServerWriteDropPercent_def
      split: option.splits)

text \<open>A closed connection is not subject to drops, so a read on it reports the error at once.\<close>

lemma read_after_Close: "ReadFromUDP c (UDPConn_Close c n) len ((r, d) # rs) =
    Some (case r of OsError \<Rightarrow> Inl () | OsPacket p a \<Rightarrow> Inr (take len (take 2000 p), length (take 2000 p), a))"
  by (auto simp: UDPConn_Close_def readDropPercent_def sometimes_def split: option.splits)

text \<open>A payload that is not an integer unmarshals to 0 with an error.\<close>

lemma unmarshal_int_error: "snd (unmarshal_int b) \<Longrightarrow> fst (unmarshal_int b) = 0"
  by (auto simp: unmarshal_int_def store_int_def split: option.splits json.splits if_splits)

text \<open>
  A negative shortening percentage is accepted and corrupts every data message. The guard
  of the setter compares 0 with 0, the number wraps to a large \<open>uint32\<close>, and every data message
  is altered whatever number is drawn: a payload that is not a JSON integer becomes the text
  \<open>0\<close>, and one that is loses its second half.
\<close>

theorem negative_shortening_corrupts:
  assumes "- (2 ^ 31) \<le> p" and "p < 0" and "d1 < 100" and "tmp_ok m" and "TType m = 1"
  shows "write_packet d1 d2 (SetMsgShorteningPercent p n) (marshal_tmp m) =
    marshal_tmp (m\<lparr>TPayload := if snd (unmarshal_int (payload_bytes m)) then Some ''0''
      else map_option (\<lambda>b. take (length b div 2) b) (TPayload m)\<rparr>)"
proof -
  have "uint (word_of_int p :: uint32) = p + 2 ^ 32"
    using assms(1,2) mod_pos_pos_trivial [of "p + 2 ^ 32" "2 ^ 32"] by (simp add: uint_word_of_int)
  then have "sometimes d1 (uint (msgShorteningPercent (SetMsgShorteningPercent p n)))"
    using assms(1-3) by (simp add: SetMsgShorteningPercent_def sometimes_def)
  then have "write_packet d1 d2 (SetMsgShorteningPercent p n) (marshal_tmp m) = marshal_tmp (shorten_msg m)"
    using write_packet_cases [OF assms(4)] assms(5) by simp
  moreover have "Itoa (go_quot 0 1000) = ''0''" by code_simp
  ultimately show ?thesis
    using unmarshal_int_error [of "payload_bytes m"] by (auto simp: shorten_msg_def case_prod_beta)
qed

theorem negative_shortening_corrupts_witness:
  "write_packet 99 0 (SetMsgShorteningPercent (- 1) lspnet_init) (marshal_tmp (tmp_example\<lparr>TPayload := Some ''hello''\<rparr>)) =
     marshal_tmp (tmp_example\<lparr>TPayload := Some ''0''\<rparr>)"
proof -
  have "snd (unmarshal_int ''hello'')" by (simp add: unmarshal_int_def json_parse_def skip_ws_def is_ws_def
    jnumber_def number_abs_def number_int_def digits1_def is_digit_def eval_nat_numeral)
  then show ?thesis
    using negative_shortening_corrupts [of "- 1" 99 "tmp_example\<lparr>TPayload := Some ''hello''\<rparr>" 0 lspnet_init]
    by (simp add: tmp_ok_def int64_def tmp_example_def payload_bytes_def)
qed

end
