(* ===== verification/Lsp_Runner.thy ===== *)
theory Lsp_Runner
  imports Lsp_Client Lsp_Server Lspnet
begin

text \<open>
  The echo programs of the second project (\<open>srunner/srunner.go\<close>, \<open>crunner/crunner.go\<close>): their
  flags, what they set up, and their loops over the LSP server and client.
\<close>

section \<open>Flags\<close>

record flags =
  port :: int
  host :: string
  readDrop :: int
  writeDrop :: int
  epochLimit :: int
  epochMillis :: int
  windowSize :: int
  showLogs :: bool

text \<open>\<open>host\<close> is a flag of the client only.\<close>

definition default_flags :: flags where
  "default_flags = \<lparr>port = 9999, host = ''localhost'', readDrop = 0, writeDrop = 0,
     epochLimit = EpochLimit NewParams, epochMillis = EpochMillis NewParams, windowSize = WindowSize NewParams,
     showLogs = False\<rparr>"

definition flag_params :: "flags \<Rightarrow> Params" where
  "flag_params fl = \<lparr>EpochLimit = epochLimit fl, EpochMillis = epochMillis fl, WindowSize = windowSize fl\<rparr>"

text \<open>\<open>net.JoinHostPort\<close>: a host with a colon or percent sign is put in brackets.\<close>

definition JoinHostPort :: "string \<Rightarrow> string \<Rightarrow> string" where
  "JoinHostPort h p = (if CHR '':'' \<in> set h \<or> CHR 0x25 \<in> set h then ''['' @ h @ '']:'' @ p else h @ '':'' @ p)"

text \<open>
  \<open>net.SplitHostPort\<close>: the part after the last colon is the port; a host in brackets may
  contain colons. An error is the text of the
  \<open>AddrError\<close>, without the address.
\<close>

definition up_to :: "char \<Rightarrow> string \<Rightarrow> string" where
  "up_to c s = takeWhile (\<lambda>x. x \<noteq> c) s"

definition after_last :: "char \<Rightarrow> string \<Rightarrow> string" where
  "after_last c s = rev (up_to c (rev s))"

definition SplitHostPort :: "string \<Rightarrow> string + (string \<times> string)" where
  "SplitHostPort s =
    (let p = after_last (CHR '':'') s; i = length s - length p - 1 in
     if CHR '':'' \<notin> set s then Inl ''missing port in address''
     else if hd s = CHR ''['' then
       (let e = length (up_to (CHR '']'') s) in
        if CHR '']'' \<notin> set s then Inl (''missing '' @ [CHR 0x27] @ '']'' @ [CHR 0x27] @ '' in address'')
        else if e + 1 = length s then Inl ''missing port in address''
        else if e + 1 \<noteq> i then
          (if s ! (e + 1) = CHR '':'' then Inl ''too many colons in address'' else Inl ''missing port in address'')
        else if CHR ''['' \<in> set (drop 1 s) then Inl (''unexpected '' @ [CHR 0x27] @ ''['' @ [CHR 0x27] @ '' in address'')
        else if CHR '']'' \<in> set (drop (e + 1) s) then Inl (''unexpected '' @ [CHR 0x27] @ '']'' @ [CHR 0x27] @ '' in address'')
        else Inr (take (e - 1) (drop 1 s), p))
     else if CHR '':'' \<in> set (take i s) then Inl ''too many colons in address''
     else if CHR ''['' \<in> set s then Inl (''unexpected '' @ [CHR 0x27] @ ''['' @ [CHR 0x27] @ '' in address'')
     else if CHR '']'' \<in> set s then Inl (''unexpected '' @ [CHR 0x27] @ '']'' @ [CHR 0x27] @ '' in address'')
     else Inr (take i s, p))"

lemma up_to_append: "c \<notin> set xs \<Longrightarrow> up_to c (xs @ c # ys) = xs"
  by (auto simp: up_to_def takeWhile_append)

lemma after_last_append: "c \<notin> set ys \<Longrightarrow> after_last c (xs @ c # ys) = ys"
  by (simp add: after_last_def up_to_append)

text \<open>A host without brackets and a port without brackets and colons come back, also an IPv6 address.\<close>

theorem SplitHostPort_JoinHostPort:
  assumes "CHR ''['' \<notin> set h" "CHR '']'' \<notin> set h" and "CHR '':'' \<notin> set p" "CHR ''['' \<notin> set p" "CHR '']'' \<notin> set p"
  shows "SplitHostPort (JoinHostPort h p) = Inr (h, p)"
proof (cases "CHR '':'' \<in> set h \<or> CHR 0x25 \<in> set h")
  case True
  let ?s = "(''['' @ h @ '']'') @ CHR '':'' # p"
  have s: "JoinHostPort h p = ?s" using True by (simp add: JoinHostPort_def)
  have l: "after_last (CHR '':'') ?s = p" by (rule after_last_append [OF assms(3)])
  have "up_to (CHR '']'') ((''['' @ h) @ CHR '']'' # CHR '':'' # p) = ''['' @ h" by (rule up_to_append) (use assms(2) in simp)
  then have u: "up_to (CHR '']'') ?s = ''['' @ h" by simp
  show ?thesis unfolding s SplitHostPort_def l u using assms by simp
next
  case False
  let ?s = "h @ CHR '':'' # p"
  have s: "JoinHostPort h p = ?s" using False by (simp add: JoinHostPort_def)
  have l: "after_last (CHR '':'') ?s = p" by (rule after_last_append [OF assms(3)])
  have "hd ?s \<noteq> CHR ''[''" using assms(1) by (cases h) auto
  then show ?thesis unfolding s SplitHostPort_def l using assms False by simp
qed

section \<open>The programs up to their loops\<close>

definition srunner_setup :: "flags \<Rightarrow> lspnet \<Rightarrow> lspnet" where
  "srunner_setup fl n = SetServerWriteDropPercent (writeDrop fl) (SetServerReadDropPercent (readDrop fl)
     (if showLogs fl then EnableDebugLogs True n else n))"

definition crunner_setup :: "flags \<Rightarrow> lspnet \<Rightarrow> lspnet" where
  "crunner_setup fl n = SetClientWriteDropPercent (writeDrop fl) (SetClientReadDropPercent (readDrop fl)
     (if showLogs fl then EnableDebugLogs True n else n))"

text \<open>The lines printed, and the server or client that is started, given the results of the system.\<close>

definition srunner_main :: "flags \<Rightarrow> string option \<Rightarrow> string option \<Rightarrow> string list \<times> server option" where
  "srunner_main fl resolve_err listen_err =
    (let l = ''Starting server on port '' @ Itoa (port fl) @ ''...'' in
     case NewServer resolve_err listen_err of
       Inl e \<Rightarrow> ([l, ''Failed to start Server on port '' @ Itoa (port fl) @ '': '' @ e], None)
     | Inr s \<Rightarrow> ([l, ''Server waiting for clients...''], Some s))"

definition crunner_main :: "flags \<Rightarrow> string option \<Rightarrow> string option \<Rightarrow> string \<times> new_client" where
  "crunner_main fl resolve_err dial_err =
    (''Connecting to server at '' @ [CHR 0x27] @ JoinHostPort (host fl) (Itoa (port fl)) @ [CHR 0x27] @ ''...'',
     NewClient resolve_err dial_err (flag_params fl))"

section \<open>The loops\<close>

text \<open>
  An iteration of \<open>runServer\<close>: the line it prints, if any, and the server after it. \<open>None\<close>
  while \<open>Read\<close> waits. \<open>Write\<close> returns no error.
\<close>

definition runServer :: "pick \<Rightarrow> server \<Rightarrow> (string option \<times> server) option" where
  "runServer p s = (case server_Read p s of
       None \<Rightarrow> None
     | Some ((i, Inl e), s') \<Rightarrow> Some (Some (''Client '' @ Itoa i @ '' has died: '' @ e), s')
     | Some ((i, Inr payload), s') \<Rightarrow> map_option (Pair None) (server_Write i payload s'))"

text \<open>
  The two halves of an iteration of \<open>runClient\<close>: a token of the input is written (the end of
  the input ends the program), and the answer is read and printed, or an error ends it.
\<close>

definition runClient_send :: "string option \<Rightarrow> client \<Rightarrow> (string + client) option" where
  "runClient_send token c = (case token of
       None \<Rightarrow> Some (Inl ''Exiting...'')
     | Some t \<Rightarrow> map_option Inr (client_Write t c))"

definition runClient_print :: "pick \<Rightarrow> client \<Rightarrow> (string list \<times> bool \<times> client) option" where
  "runClient_print p c = (case client_Read p c of
       None \<Rightarrow> None
     | Some (Inl e, c') \<Rightarrow> Some ([''Client '' @ Itoa (conn_id c) @ '' failed to read from server: '' @ e, ''Exiting...''], False, c')
     | Some (Inr d, c') \<Rightarrow> Some ([''Server: '' @ d], True, c'))"

section \<open>Echo\<close>

text \<open>
  Iterations of \<open>runServer\<close> on waiting payloads: every one goes out to the connection it came
  from, unchanged and in order, and nothing else changes, as long as \<open>outgoing\<close> has room.
\<close>

lemma runServer_echoes:
  "length (outgoing s) + length (s_rmsg s) \<le> 10000 \<Longrightarrow>
   repeat_opt (length (s_rmsg s)) (\<lambda>s. map_option snd (runServer PickData s)) s =
     Some (s\<lparr>s_rmsg := [], outgoing := outgoing s @ map (\<lambda>(i, d). NewData i (- 1) (int (length d)) d) (s_rmsg s)\<rparr>)"
proof (induction "s_rmsg s" arbitrary: s)
  case Nil
  then show ?case by (cases s) simp
next
  case (Cons x xs)
  obtain i d where x: "x = (i, d)" by (cases x)
  define t where "t = s\<lparr>s_rmsg := xs, outgoing := outgoing s @ [NewData i (- 1) (int (length d)) d]\<rparr>"
  have rm: "s_rmsg s = (i, d) # xs" using Cons.hyps(2) x by simp
  then have step: "runServer PickData s = Some (None, t)"
    using Cons.prems by (simp add: runServer_def server_Read_def server_Write_def t_def)
  have "xs = s_rmsg t" by (simp add: t_def)
  moreover have "length (outgoing t) + length (s_rmsg t) \<le> 10000" using Cons.prems rm by (simp add: t_def)
  ultimately show ?case using Cons.hyps(1) [of t] unfolding rm by (simp add: step) (simp add: t_def)
qed

text \<open>The drop percentages a runner sets stay within 0 and 100 whatever the flags are.\<close>

lemma setup_bounded:
  assumes "uint (serverReadDropPercent n) \<le> 100" and "uint (serverWriteDropPercent n) \<le> 100"
  shows "uint (serverReadDropPercent (srunner_setup fl n)) \<le> 100 \<and> uint (serverWriteDropPercent (srunner_setup fl n)) \<le> 100"
  using assms server_read.bounded [of "if showLogs fl then EnableDebugLogs True n else n" "readDrop fl"]
    server_write.bounded [of "SetServerReadDropPercent (readDrop fl) (if showLogs fl then EnableDebugLogs True n else n)" "writeDrop fl"]
  by (simp add: srunner_setup_def SetServerReadDropPercent_def SetServerWriteDropPercent_def EnableDebugLogs_def split: if_splits)

end
