(* ===== verification/Lsp_Echo.thy ===== *)
theory Lsp_Echo
  imports Lsp_System Lsp_Runner
begin

text \<open>
  The echo service of project 2, end to end: \<open>runServer\<close> of \<open>srunner.go\<close> as the application of
  the server, any number of clients, and the network in between. What a client reads is what
  it has written.
\<close>

section \<open>The service\<close>

text \<open>
  \<open>runServer\<close> has read a payload and not written it yet, or waits in \<open>Read\<close>. All other events are
  those of the system but calls of methods of the server.
\<close>

record echo =
  net :: sys
  holding :: "(int \<times> bytes) option"

datatype echo_event = ESys sys_event | ERead pick | EWrite

fun app_call :: "sys_event \<Rightarrow> bool" where
  "app_call (AtServer (SRead _)) \<longleftrightarrow> True"
| "app_call (AtServer (SWrite _ _)) \<longleftrightarrow> True"
| "app_call (AtServer (SCloseConn _)) \<longleftrightarrow> True"
| "app_call (AtServer SCloseBegin) \<longleftrightarrow> True"
| "app_call (AtServer SClosePoll) \<longleftrightarrow> True"
| "app_call _ \<longleftrightarrow> False"

fun echo_exec :: "Params \<Rightarrow> echo_event \<Rightarrow> echo \<Rightarrow> (echo \<times> unit) option" where
  "echo_exec sp (ESys e) s = (if app_call e then None
     else case sys_exec sp e (net s) of None \<Rightarrow> None | Some (t, _) \<Rightarrow> Some (s\<lparr>net := t\<rparr>, ()))"
| "echo_exec sp (ERead p) s = (if holding s \<noteq> None then None
     else case server_Read p (srv (net s)) of
         None \<Rightarrow> None
       | Some ((i, r), _) \<Rightarrow> (case sys_exec sp (AtServer (SRead p)) (net s) of
             None \<Rightarrow> None
           | Some (t, _) \<Rightarrow> Some (\<lparr>net = t, holding = (case r of Inl _ \<Rightarrow> None | Inr d \<Rightarrow> Some (i, d))\<rparr>, ())))"
| "echo_exec sp EWrite s = (case holding s of
       None \<Rightarrow> None
     | Some (i, d) \<Rightarrow> (case sys_exec sp (AtServer (SWrite i d)) (net s) of
           None \<Rightarrow> None | Some (t, _) \<Rightarrow> Some (\<lparr>net = t, holding = None\<rparr>, ())))"

definition echo_step :: "Params \<Rightarrow> echo \<Rightarrow> echo_event \<Rightarrow> echo \<Rightarrow> bool" where
  "echo_step sp s e t \<longleftrightarrow> echo_exec sp e s = Some (t, ())"

definition echo_init :: "echo \<Rightarrow> bool" where
  "echo_init s \<longleftrightarrow> sys_init (net s) \<and> holding s = None"

text \<open>Reading and writing one after the other is an iteration of \<open>runServer\<close>.\<close>

lemma echo_is_runServer:
  assumes "holding s = None" and "run_opt (echo_exec sp) [ERead PickData, EWrite] s = Some t"
  shows "runServer PickData (srv (net s)) = Some (None, srv (net t)) \<and> holding t = None"
  using assms
  by (auto simp: runServer_def server_Read_def server_may_def server_Write_def split: option.splits list.splits if_splits)

section \<open>What is read is written back\<close>

definition echo_inv :: "Params \<Rightarrow> echo \<Rightarrow> bool" where
  "echo_inv sp s \<longleftrightarrow> reach sys_init (sys_step sp) (net s) \<and>
     srv_read (net s) = srv_written (net s) @ (case holding s of None \<Rightarrow> [] | Some x \<Rightarrow> [x])"

lemma sys_exec_quiet:
  assumes "sys_exec sp e s = Some (t, u)" and "\<not> app_call e"
  shows "srv_read t = srv_read s \<and> srv_written t = srv_written s"
proof (cases e)
  case (AtServer e')
  with assms show ?thesis
    by (cases e') (auto simp: read_from_def written_to_def split: option.splits if_splits)
qed (use assms in \<open>auto split: option.splits if_splits new_client.splits\<close>)

lemma echo_inv_step:
  assumes inv: "echo_inv sp s" and st: "echo_step sp s e t"
  shows "echo_inv sp t"
proof -
  have r: "reach sys_init (sys_step sp) (net s)" using inv by (simp add: echo_inv_def)
  have st': "reach sys_init (sys_step sp) u" if "sys_exec sp e' (net s) = Some (u, ())" for e' u
    using reach_step [OF r, of e' u] that by (simp add: sys_step_def)
  show ?thesis
  proof (cases e)
    case (ESys e')
    with st obtain u where u: "\<not> app_call e'" "sys_exec sp e' (net s) = Some (u, ())" "t = s\<lparr>net := u\<rparr>"
      by (auto simp: echo_step_def split: if_splits option.splits)
    then show ?thesis using st' sys_exec_quiet [OF u(2,1)] inv by (simp add: echo_inv_def)
  next
    case (ERead p)
    have h: "holding s = None" using st ERead by (cases "holding s") (simp_all add: echo_step_def)
    with st ERead obtain i x v u where u: "server_Read p (srv (net s)) = Some ((i, x), v)"
        "sys_exec sp (AtServer (SRead p)) (net s) = Some (u, ())"
      and t: "t = \<lparr>net = u, holding = (case x of Inl _ \<Rightarrow> None | Inr d \<Rightarrow> Some (i, d))\<rparr>"
      by (auto simp: echo_step_def simp del: sys_exec.simps split: if_splits option.splits)
    have "srv_read u = srv_read (net s) @ (case x of Inl _ \<Rightarrow> [] | Inr d \<Rightarrow> [(i, d)]) \<and> srv_written u = srv_written (net s)"
      using u
      by (cases p) (auto simp: server_Read_def read_from_def written_to_def server_may_def split: list.splits)
    then show ?thesis using st' [OF u(2)] inv h t by (simp add: echo_inv_def split: sum.splits)
  next
    case EWrite
    with st obtain i d u where u: "holding s = Some (i, d)" "sys_exec sp (AtServer (SWrite i d)) (net s) = Some (u, ())"
      and t: "t = \<lparr>net = u, holding = None\<rparr>"
      by (auto simp: echo_step_def simp del: sys_exec.simps split: option.splits)
    have "srv_read u = srv_read (net s) \<and> srv_written u = srv_written (net s) @ [(i, d)]"
      using u(2) by (auto simp: read_from_def written_to_def split: if_splits option.splits)
    then show ?thesis using st' [OF u(2)] inv u(1) t by (simp add: echo_inv_def)
  qed
qed

interpretation echoing: inductive_invariant echo_init "echo_step sp" "echo_inv sp" for sp
proof
  show "echo_inv sp s" if "echo_init s" for s
    using that by (auto simp: echo_init_def echo_inv_def sys_init_def intro: reach_init)
qed (rule echo_inv_step)

text \<open>
  C7: the echo service. Whatever the network loses, repeats and reorders and however many
  clients there are, what a client with one connection has read at any time is a prefix of
  what it has written.
\<close>

theorem echo_end_to_end:
  assumes "reach echo_init (echo_step sp) s" and "clis (net s) a = Some c"
    and "gm_get (conns (srv (net s))) i = Some d" and "addr d = a"
    and "\<forall>j d'. gm_get (conns (srv (net s))) j = Some d' \<and> addr d' = a \<longrightarrow> j = i"
  shows "prefix (cli_read (net s) a) (cli_written (net s) a)"
proof -
  have inv: "reach sys_init (sys_step sp) (net s)"
    "srv_read (net s) = srv_written (net s) @ (case holding s of None \<Rightarrow> [] | Some x \<Rightarrow> [x])"
    using echoing.reach_inv [OF assms(1)] by (simp_all add: echo_inv_def)
  have "prefix (payloads i (srv_written (net s))) (payloads i (srv_read (net s)))" by (simp add: inv(2))
  then show ?thesis
    using system_delivers [OF inv(1) assms(2-5)] prefix_order.trans by blast
qed

text \<open>Two clients; one of them gets its payload back.\<close>

definition echo_start :: echo where
  "echo_start = \<lparr>net = sys_start, holding = None\<rparr>"

definition echo_run :: "echo_event list" where
  "echo_run = map ESys (take 13 sys_run) @ [ERead PickData, EWrite] @ map ESys (drop 15 sys_run)"

lemma echo_run_result:
  "case run_opt (echo_exec NewParams) echo_run echo_start of None \<Rightarrow> False
   | Some s \<Rightarrow> cli_read (net s) ''a'' = [''x''] \<and> clis (net s) ''a'' \<noteq> None \<and>
       map (\<lambda>(i, d). (i, addr d)) (conns (srv (net s))) = [(73, ''b''), (74, ''a'')]"
  by code_simp

lemma echo_run_reach:
  assumes "run_opt (echo_exec sp) es echo_start = Some s"
  shows "reach echo_init (echo_step sp) s"
proof -
  have "steps (echo_step sp) echo_start es s" using run_opt_steps [OF assms] by (simp add: echo_step_def [abs_def])
  moreover have "echo_init echo_start" by (simp add: echo_init_def echo_start_def sys_init_def sys_start_def NewServer_def)
  ultimately show ?thesis by (blast intro: reach_steps reach_init)
qed

theorem echo_end_to_end_witness:
  "\<exists>s. run_opt (echo_exec NewParams) echo_run echo_start = Some s \<and> cli_read (net s) ''a'' = [''x''] \<and>
     prefix (cli_read (net s) ''a'') (cli_written (net s) ''a'')"
proof -
  obtain s c where s: "run_opt (echo_exec NewParams) echo_run echo_start = Some s" "cli_read (net s) ''a'' = [''x'']"
      "clis (net s) ''a'' = Some c"
    and m: "map (\<lambda>(i, d). (i, addr d)) (conns (srv (net s))) = [(73, ''b''), (74, ''a'')]"
    using echo_run_result by (auto split: option.splits)
  obtain d where g: "gm_get (conns (srv (net s))) 74 = Some d" "addr d = ''a''"
    "\<forall>j e. gm_get (conns (srv (net s))) j = Some e \<and> addr e = ''a'' \<longrightarrow> j = 74"
    using two_conns [OF m] by auto
  from echo_end_to_end [OF echo_run_reach [OF s(1)] s(3) g] s show ?thesis by blast
qed

end
