(* ===== verification/Lsp_Wire.thy ===== *)
theory Lsp_Wire
  imports Lsp_Message Lspnet
begin

text \<open>
  Messages on the wire (\<open>lsp/io.go\<close>): \<open>WriteMessage\<close> marshals a message and hands it to the
  network layer, \<open>ReadMessage\<close> reads a packet of at most 2000 bytes and unmarshals it.
\<close>

section \<open>Messages and packets\<close>

definition type_code :: "MsgType \<Rightarrow> int" where
  "type_code t = (case t of MsgConnect \<Rightarrow> 0 | MsgData \<Rightarrow> 1 | MsgAck \<Rightarrow> 2 | MsgOther i \<Rightarrow> i)"

definition code_type :: "int \<Rightarrow> MsgType" where
  "code_type i = (if i = 0 then MsgConnect else if i = 1 then MsgData else if i = 2 then MsgAck else MsgOther i)"

text \<open>
  A message keeps an empty payload and a nil one alike; \<open>isnil\<close> says which of the two an empty
  payload is.
\<close>

definition to_tmp :: "bool \<Rightarrow> Message \<Rightarrow> TemporaryMessage" where
  "to_tmp isnil m = \<lparr>TType = type_code (Type m), TConnID = ConnID m, TSeqNum = SeqNum m, TSize = Size m,
     TPayload = (if Payload m = [] \<and> isnil then None else Some (Payload m))\<rparr>"

definition of_tmp :: "TemporaryMessage \<Rightarrow> Message" where
  "of_tmp t = \<lparr>Type = code_type (TType t), ConnID = TConnID t, SeqNum = TSeqNum t, Size = TSize t,
     Payload = payload_bytes t\<rparr>"

definition marshal_message :: "bool \<Rightarrow> Message \<Rightarrow> bytes" where
  "marshal_message isnil m = marshal_tmp (to_tmp isnil m)"

definition unmarshal_message :: "bytes \<Rightarrow> Message option" where
  "unmarshal_message b = (let (t, err) = unmarshal_tmp b in if err then None else Some (of_tmp t))"

section \<open>io.go\<close>

text \<open>
  \<open>ReadMessage\<close>: the message and its sender, or the error; \<open>None\<close> while the call waits.
\<close>

definition ReadMessage :: "nat \<Rightarrow> lspnet \<Rightarrow> (os_read \<times> nat) list \<Rightarrow> (unit + Message \<times> string option) option" where
  "ReadMessage c n rs = (case ReadFromUDP c n 2000 rs of
       None \<Rightarrow> None
     | Some (Inl _) \<Rightarrow> Some (Inl ())
     | Some (Inr (packet, k, addr)) \<Rightarrow> (case unmarshal_message (take k packet) of
         None \<Rightarrow> Some (Inl ())
       | Some m \<Rightarrow> Some (Inr (m, addr))))"

text \<open>\<open>WriteMessage\<close>: the packet that is sent, if any, and whether an error is returned.\<close>

definition WriteMessage :: "nat \<times> nat \<times> nat \<Rightarrow> bool \<Rightarrow> nat \<Rightarrow> lspnet \<Rightarrow> string option \<Rightarrow> bool \<Rightarrow> Message \<Rightarrow>
    (bytes \<times> string option) option \<times> bool" where
  "WriteMessage draws ok c n addr isnil m =
     (let packet = marshal_message isnil m;
          (sent, k, err) = (if addr \<noteq> None then WriteToUDP draws ok c n packet addr
                            else UDPConn_Write draws ok c n packet)
      in (sent, err))"

section \<open>Length of a packet\<close>

lemma utoa_length: "n < 10 ^ k \<Longrightarrow> 0 < k \<Longrightarrow> length (utoa n) \<le> k"
proof (induction n arbitrary: k rule: utoa.induct)
  case (1 n)
  show ?case
  proof (cases "n < 10")
    case True
    then show ?thesis using 1(3) by (simp add: utoa.simps [of n])
  next
    case False
    then obtain j where j: "k = Suc j" "0 < j" using 1(2,3) by (cases k; cases "k - 1") auto
    then have "n div 10 < 10 ^ j" using 1(2) by (simp add: less_mult_imp_div_less mult.commute)
    then show ?thesis using 1(1) [OF False] j False by (simp add: utoa.simps [of n])
  qed
qed

lemma Itoa_length: "int64 i \<Longrightarrow> length (Itoa i) \<le> 20"
proof -
  assume "int64 i"
  then have "nat i < 10 ^ 19" "nat (- i) < 10 ^ 19" by (auto simp: int64_def)
  then show ?thesis using utoa_length [of "nat i" 19] utoa_length [of "nat (- i)" 19] by (simp add: Itoa_def)
qed

text \<open>The text of a packet before the payload.\<close>

definition header_fields :: "TemporaryMessage \<Rightarrow> (string \<times> string) list" where
  "header_fields t = [(''Type'', Itoa (TType t)), (''ConnID'', Itoa (TConnID t)),
     (''SeqNum'', Itoa (TSeqNum t)), (''Size'', Itoa (TSize t))]"

definition header_text :: "TemporaryMessage \<Rightarrow> string" where
  "header_text t = concat (map (\<lambda>kv. members [kv] @ '','') (header_fields t))"

lemma marshal_tmp_text:
  "TPayload t = Some bs \<Longrightarrow> marshal_tmp t = CHR ''{'' # header_text t @ ''\"Payload\":\"'' @ b64_encode bs @ ''\"}''"
  by (simp add: marshal_tmp_def marshal_object_def header_text_def header_fields_def quote_bytes_def)

lemma header_text_length: "tmp_ok t \<Longrightarrow> length (header_text t) \<le> 116"
  using Itoa_length [of "TType t"] Itoa_length [of "TConnID t"] Itoa_length [of "TSeqNum t"] Itoa_length [of "TSize t"]
  by (simp add: header_text_def header_fields_def tmp_ok_def)

lemma marshal_tmp_length:
  assumes "tmp_ok t" and "length (payload_bytes t) \<le> 1401"
  shows "length (marshal_tmp t) \<le> 2000"
proof (cases "TPayload t")
  case None
  then have "marshal_tmp t = CHR ''{'' # header_text t @ ''\"Payload\":null}''"
    by (simp add: marshal_tmp_def marshal_object_def header_text_def header_fields_def)
  then show ?thesis using header_text_length [OF assms(1)] by simp
next
  case (Some bs)
  have "(length bs + 2) div 3 \<le> 1403 div 3" using assms(2) Some by (intro div_le_mono) (simp add: payload_bytes_def)
  then show ?thesis using header_text_length [OF assms(1)] marshal_tmp_text [OF Some] by (simp add: b64_encode_length)
qed

lemma take_within: "length A \<le> n \<Longrightarrow> n \<le> length A + length B \<Longrightarrow> take n (A @ B @ C) = A @ take (n - length A) B"
  by simp

lemma marshal_tmp_cut:
  assumes "tmp_ok t" and "TPayload t = Some bs" and "1500 \<le> length bs"
  shows "json_parse (take 2000 (marshal_tmp t)) = None"
proof -
  let ?h = "header_text t" and ?k = "2000 - (length (header_text t) + 12)"
  have len: "length ?h \<le> 116" by (rule header_text_length [OF assms(1)])
  have "2000 \<le> length (b64_encode bs)"
  proof -
    have "1502 div 3 \<le> (length bs + 2) div 3" using assms(3) by (intro div_le_mono) simp
    then show ?thesis by (simp add: b64_encode_length)
  qed
  then have "take 2000 ((CHR ''{'' # ?h @ ''\"Payload\":\"'') @ b64_encode bs @ ''\"}'') =
      (CHR ''{'' # ?h @ ''\"Payload\":\"'') @ take ?k (b64_encode bs)"
    using take_within [of "CHR ''{'' # ?h @ ''\"Payload\":\"''" 2000 "b64_encode bs" "''\"}''"] len by simp
  then have cut: "take 2000 (marshal_tmp t) = CHR ''{'' # ?h @ ''\"Payload\":\"'' @ take ?k (b64_encode bs)"
    by (simp only: marshal_tmp_text [OF assms(2)] append_Cons append_assoc append_Nil)
  have "list_all plain_char (take ?k (b64_encode bs))" using b64_plain [of bs] by (auto simp: list_all_iff dest: in_set_takeD)
  moreover have "list_all2 writes_member (header_fields t) (take 4 (tmp_members t))"
    using plain_names by (simp add: header_fields_def tmp_members_def writes_int_member field_names_def)
  moreover have "list_all plain_char ''Payload''" using plain_names by (simp add: field_names_def)
  ultimately have no: "jmembers k (?h @ CHR ''\"'' # ''Payload'' @ ''\":\"'' @ take ?k (b64_encode bs)) = None" for k
    unfolding header_text_def by (intro jmembers_cut)
  obtain c u where h: "?h = c # u" "\<not> is_ws c" "c \<noteq> CHR ''}''" 
    by (simp add: header_text_def header_fields_def is_ws_def)
  have "jvalue (Suc k) (take 2000 (marshal_tmp t)) = None" for k
    unfolding cut using no [of k] h by (simp add: skip_ws_def is_ws_def)
  then show ?thesis by (simp add: json_parse_def del: jvalue.simps)
qed

section \<open>What is written is read\<close>

definition message_ok :: "Message \<Rightarrow> bool" where
  "message_ok m \<longleftrightarrow> code_type (type_code (Type m)) = Type m \<and> int64 (type_code (Type m)) \<and>
     int64 (ConnID m) \<and> int64 (SeqNum m) \<and> int64 (Size m)"

lemma message_tmp:
  assumes "message_ok m"
  shows "tmp_ok (to_tmp isnil m)" and "of_tmp (to_tmp isnil m) = m" and "payload_bytes (to_tmp isnil m) = Payload m"
  using assms by (cases m; auto simp: message_ok_def tmp_ok_def to_tmp_def of_tmp_def payload_bytes_def)+

lemma unmarshal_marshal_message: "message_ok m \<Longrightarrow> unmarshal_message (marshal_message isnil m) = Some m"
  by (simp add: unmarshal_message_def marshal_message_def unmarshal_marshal_tmp message_tmp)

text \<open>A connection that neither shortens nor lengthens sends the marshalled message or nothing.\<close>

lemma WriteMessage_packet:
  assumes "message_ok m" and "msgShorteningPercent n = 0" and "msgLengtheningPercent n = 0"
    and "WriteMessage draws ok c n addr isnil m = (Some (p, a), e)"
  shows "p = marshal_message isnil m \<and> a = addr \<and> \<not> e"
proof -
  obtain d0 d1 d2 where d: "draws = (d0, d1, d2)" by (cases draws)
  have w: "write_packet d1 d2 n (marshal_message isnil m) = marshal_message isnil m"
    using write_packet_cases [OF message_tmp(1) [OF assms(1)], of d1 d2 n isnil] assms(2,3) sometimes_zero
    by (simp add: marshal_message_def)
  show ?thesis using assms(4)
    by (cases addr) (auto simp: WriteMessage_def WriteToUDP_def UDPConn_Write_def udp_write_def d w Let_def split: if_splits)
qed

lemma ReadMessage_packet:
  "\<not> sometimes d (readDropPercent c n) \<Longrightarrow> ReadMessage c n ((OsPacket p src, d) # rs) =
     Some (case unmarshal_message (take 2000 p) of None \<Rightarrow> Inl () | Some m \<Rightarrow> Inr (m, src))"
proof -
  have "take (length (take 2000 p)) (take 2000 (take 2000 p)) = take 2000 p" by (simp add: min_def)
  moreover assume "\<not> sometimes d (readDropPercent c n)"
  ultimately show ?thesis unfolding ReadMessage_def by (simp del: take_take length_take split: option.split)
qed

lemma lspnet_init_zero:
  "msgShorteningPercent lspnet_init = 0" "msgLengtheningPercent lspnet_init = 0"
  "writeDropPercent c lspnet_init = 0" "readDropPercent c lspnet_init = 0"
  by (simp_all add: lspnet_init_def writeDropPercent_def readDropPercent_def)

lemma wire_roundtrip:
  assumes "message_ok m" and "length (Payload m) \<le> 1401"
    and "msgShorteningPercent n = 0" and "msgLengtheningPercent n = 0"
    and "WriteMessage draws ok c n addr isnil m = (Some (p, a), e)"
    and "\<not> sometimes d (readDropPercent c' n')"
  shows "ReadMessage c' n' ((OsPacket p src, d) # rs) = Some (Inr (m, src)) \<and> a = addr \<and> \<not> e"
proof -
  have p: "p = marshal_message isnil m \<and> a = addr \<and> \<not> e"
    by (rule WriteMessage_packet [OF assms(1,3-5)])
  have "length (marshal_message isnil m) \<le> 2000"
    unfolding marshal_message_def by (rule marshal_tmp_length) (use assms(1,2) in \<open>simp_all add: message_tmp\<close>)
  then show ?thesis using p unmarshal_marshal_message [OF assms(1)] ReadMessage_packet [OF assms(6)] by simp
qed

text \<open>
  Messages survive the wire. When a message whose numbers are 64-bit integers and whose
  payload has at most 1401 bytes is written by \<open>WriteMessage\<close>, to an address or on a connected
  socket, and the network layer passes it on, then \<open>ReadMessage\<close> on the packet that was sent
  yields the same message with the address of the sender, whether an empty payload is nil or
  not.
\<close>

theorem lsp_wire_roundtrip:
  assumes "message_ok m" and "length (Payload m) \<le> 1401"
    and "msgShorteningPercent n = 0" and "msgLengtheningPercent n = 0"
    and "WriteMessage draws ok c n addr isnil m = (Some (p, a), e)"
    and "\<not> sometimes d (readDropPercent c' n')"
  shows "ReadMessage c' n' ((OsPacket p src, d) # rs) = Some (Inr (m, src)) \<and> a = addr \<and> \<not> e"
  using assms by (rule wire_roundtrip)

theorem lsp_wire_roundtrip_witness:
  "\<exists>p. WriteMessage (0, 0, 0) True 1 lspnet_init (Some ''peer'') False (NewData 3 1 2 ''hi'') = (Some (p, Some ''peer''), False) \<and>
     ReadMessage 2 lspnet_init [(OsPacket p (Some ''me''), 0)] = Some (Inr (NewData 3 1 2 ''hi'', Some ''me''))"
proof -
  let ?m = "NewData 3 1 2 ''hi''"
  have ok: "message_ok ?m" by (simp add: message_ok_def code_type_def type_code_def int64_def)
  define p where "p = write_packet 0 0 lspnet_init (marshal_message False ?m)"
  have "WriteMessage (0, 0, 0) True 1 lspnet_init (Some ''peer'') False ?m = (Some (p, Some ''peer''), False)"
    by (simp add: WriteMessage_def WriteToUDP_def udp_write_def lspnet_init_zero sometimes_zero p_def Let_def)
  then show ?thesis
    using lsp_wire_roundtrip [OF ok _ lspnet_init_zero(1,2), of "(0, 0, 0)" True 1 "Some ''peer''" False p "Some ''peer''" False 0 2 lspnet_init]
      sometimes_zero by (auto simp: lspnet_init_zero)
qed

lemma oversize_fails:
  assumes "message_ok m" and "1500 \<le> length (Payload m)"
    and "msgShorteningPercent n = 0" and "msgLengtheningPercent n = 0"
    and "WriteMessage draws ok c n addr isnil m = (Some (p, a), e)"
    and "\<not> sometimes d (readDropPercent c' n')"
  shows "ReadMessage c' n' ((OsPacket p src, d) # rs) = Some (Inl ()) \<and> \<not> e"
proof -
  have p: "p = marshal_message isnil m \<and> a = addr \<and> \<not> e"
    by (rule WriteMessage_packet [OF assms(1,3-5)])
  have "TPayload (to_tmp isnil m) = Some (Payload m)" using assms(2) by (auto simp: to_tmp_def)
  then have "json_parse (take 2000 p) = None"
    using marshal_tmp_cut [OF message_tmp(1) [OF assms(1)], of isnil "Payload m"] assms(2) p
    by (simp add: marshal_message_def)
  then have "unmarshal_message (take 2000 p) = None"
    by (simp add: unmarshal_message_def unmarshal_tmp_def unmarshal_cut)
  then show ?thesis using p ReadMessage_packet [OF assms(6)] by simp
qed

text \<open>
  C38: a payload of 1500 bytes or more cannot be sent. Its packet is longer than the 2000 bytes
  of the read buffer; \<open>WriteMessage\<close> reports success, and \<open>ReadMessage\<close> gets a cut packet and
  returns an error.
\<close>

theorem lsp_wire_oversize:
  assumes "message_ok m" and "1500 \<le> length (Payload m)"
    and "msgShorteningPercent n = 0" and "msgLengtheningPercent n = 0"
    and "WriteMessage draws ok c n addr isnil m = (Some (p, a), e)"
    and "\<not> sometimes d (readDropPercent c' n')"
  shows "ReadMessage c' n' ((OsPacket p src, d) # rs) = Some (Inl ()) \<and> \<not> e"
  using assms by (rule oversize_fails)

theorem lsp_wire_oversize_witness:
  "\<exists>p. WriteMessage (0, 0, 0) True 1 lspnet_init None False (NewData 3 1 1500 (replicate 1500 CHR ''x'')) = (Some (p, None), False) \<and>
     ReadMessage 2 lspnet_init [(OsPacket p None, 0)] = Some (Inl ())"
proof -
  let ?m = "NewData 3 1 1500 (replicate 1500 CHR ''x'')"
  have ok: "message_ok ?m" by (simp add: message_ok_def code_type_def type_code_def int64_def)
  define p where "p = write_packet 0 0 lspnet_init (marshal_message False ?m)"
  have "WriteMessage (0, 0, 0) True 1 lspnet_init None False ?m = (Some (p, None), False)"
    by (simp add: WriteMessage_def UDPConn_Write_def udp_write_def lspnet_init_zero sometimes_zero p_def Let_def)
  then show ?thesis
    using lsp_wire_oversize [OF ok _ lspnet_init_zero(1,2), of "(0, 0, 0)" True 1 None False p None False 0 2 lspnet_init]
      sometimes_zero by (auto simp: lspnet_init_zero)
qed

end
