(* ===== verification/Lsp_Packets.thy ===== *)
theory Lsp_Packets
  imports Lsp_System Lsp_Wire
begin

text \<open>
  The messages of the system and the packets of the network layer: every message that is ever
  sent over a connection fits into a packet and is read as what it was, as long as the
  applications write payloads of at most 1401 bytes. So a network that carries messages, which
  \<open>Lsp_Protocol\<close> and \<open>Lsp_System\<close> work with, is what \<open>io.go\<close> makes of the network of bytes.
\<close>

section \<open>Sequence numbers on the wire\<close>

definition seq_ok :: "Message \<Rightarrow> bool" where
  "seq_ok m \<longleftrightarrow> Type m \<noteq> MsgConnect \<longrightarrow> 0 \<le> SeqNum m"

lemma ep_move_seq:
  assumes mv: "ep_move s sent out s'" and d: "dir_inv L D s r W B" "dir_inv M E r s B W"
  shows "\<forall>m \<in> set sent. seq_ok m"
  using mv
proof cases
  case move_quiet
  have "seq_ok m" if h: "m \<in> snd ` set (tbuffer s)" for m
  proof -
    obtain k where "(k, m) \<in> set (tbuffer s)" using h by auto
    then have "buf_ok L k m" using d(1) by (auto simp: dir_inv_def sender_ok_def gm_get_mem)
    then show ?thesis by (auto simp: buf_ok_def data_ok_def carries_def seq_ok_def)
  qed
  moreover have "seq_ok m" if "control m" for m using that by (auto simp: control_def seq_ok_def)
  ultimately show ?thesis using move_quiet by blast
next
  case (move_data m)
  then have "data_ok M m" using d by (auto simp: dir_inv_def)
  then have "0 \<le> SeqNum m" using move_data by (auto simp: data_ok_def carries_def)
  then show ?thesis using move_data by (simp add: seq_ok_def)
next
  case (move_send c1)
  have "tsq s = 1 + int (length L)" using d(1) by (simp add: dir_inv_def sender_ok_def)
  then show ?thesis using move_send(2) by (auto elim!: send_nextE simp: seq_ok_def)
qed simp

definition wire_seq :: "link \<Rightarrow> bool" where
  "wire_seq k \<longleftrightarrow> (\<forall>m \<in> c2s k \<union> s2c k. seq_ok m)"

lemma wire_seq_step:
  assumes "link_step k e k'" and "link_inv k" and "wire_seq k"
  shows "wire_seq k'"
  using assms
proof (induction rule: link_step.induct)
  case (client_moves e k c' sent)
  from client_moves.prems(1) obtain L M where
    d: "dir_inv L (s_delivered k) (cli k) (conn k) (c2s k) (s2c k)"
      "dir_inv M (c_delivered k) (conn k) (cli k) (s2c k) (c2s k)"
    by (rule link_invE)
  have "\<forall>m \<in> set sent. seq_ok m"
  proof (cases "\<exists>h. e = CHandler h")
    case True
    then obtain h where "client_handler h (cli k) = Some (c', sent)" using client_moves.hyps(1) by auto
    then obtain out where "ep_move (cli k) sent out c'" using client_handler_move by blast
    then show ?thesis by (rule ep_move_seq [OF _ d])
  next
    case False
    then show ?thesis using client_exec_other [OF client_moves.hyps(1)] by simp
  qed
  then show ?case using client_moves.prems(2) by (auto simp: wire_seq_def)
next
  case (server_moves b e k r)
  from server_moves.prems(1) obtain L M where
    d: "dir_inv L (s_delivered k) (cli k) (conn k) (c2s k) (s2c k)"
      "dir_inv M (c_delivered k) (conn k) (cli k) (s2c k) (c2s k)"
    by (rule link_invE)
  have "\<forall>m \<in> set (cr_sent r). seq_ok m"
    using ep_move_seq [OF handleClient_move [OF server_moves.hyps] d(2,1)] .
  then show ?case using server_moves.prems(2) by (auto simp: wire_seq_def)
qed (simp_all add: wire_seq_def)

interpretation wire_seqs: inductive_invariant "link_init cp sp i a" link_step "\<lambda>k. link_inv k \<and> wire_seq k"
  for cp sp i a
proof
  show "link_inv k \<and> wire_seq k" if "link_init cp sp i a k" for k
    using that link_init_inv [OF that] by (auto simp: link_init_def wire_seq_def seq_ok_def NewClient_def Let_def)
  show "link_inv k' \<and> wire_seq k'" if "link_inv k \<and> wire_seq k" and "link_step k e k'" for k e k'
    using that link_step_inv wire_seq_step by blast
qed

section \<open>Messages that fit\<close>

text \<open>A message of a connection whose payloads, written at one end, are in the list \<open>L\<close>.\<close>

definition fits :: "bytes list \<Rightarrow> bool" where
  "fits L \<longleftrightarrow> (\<forall>p \<in> set L. length p \<le> 1401) \<and> int (length L) < 2 ^ 63"

lemma fits_prefix: "prefix L L' \<Longrightarrow> fits L' \<Longrightarrow> fits L"
  by (auto simp: fits_def prefix_def)

lemma data_fits:
  assumes "data_msg i m" and "data_ok L m" and "fits L" and "int64 i"
  shows "message_ok m \<and> length (Payload m) \<le> 1401"
proof -
  have m: "Type m = MsgData" "ConnID m = i" "Size m = int (length (Payload m))" "1 \<le> SeqNum m"
    "SeqNum m \<le> int (length L)" "Payload m \<in> set L"
    using assms(1,2) by (auto simp: data_msg_def data_ok_def carries_def)
  then have "length (Payload m) \<le> 1401" "int (length L) < 2 ^ 63" using assms(3) by (auto simp: fits_def)
  then show ?thesis using m assms(4) by (simp add: message_ok_def type_code_def code_type_def int64_def)
qed

lemma ack_fits:
  assumes "received r n" and "receiver_ok L D r" and "fits L" and "int64 i" and "1 \<le> n"
  shows "message_ok (NewAck i n)"
proof -
  have "n \<le> int (length L)"
    using assms(1,2) gm_key_get [of n "rbuffer r"] by (auto simp: received_def receiver_ok_def carries_def)
  then show ?thesis
    using assms(3-5) by (simp add: fits_def message_ok_def type_code_def code_type_def int64_def NewAck_def)
qed

lemma message_fits:
  assumes m: "m \<in> W" "m = NewConnect \<or> (\<exists>n. m = NewAck i n \<or> m = NewAck (-1) n) \<or> data_msg i m"
    and d: "dir_inv L D s r W B" "dir_inv M E r s B W" and f: "fits L" "fits M" and i: "int64 i" and q: "seq_ok m"
  shows "message_ok m \<and> length (Payload m) \<le> 1401"
proof -
  consider "m = NewConnect" | n j where "m = NewAck j n" "int64 j" | "data_msg i m"
    using m(2) i by (auto simp: int64_def)
  then show ?thesis
  proof cases
    case 1
    then show ?thesis by (simp add: message_ok_def type_code_def code_type_def int64_def NewConnect_def)
  next
    case (2 n j)
    then have "0 \<le> n" using q by (simp add: seq_ok_def)
    then consider "n = 0" | "1 \<le> n" by linarith
    then have "message_ok m"
    proof cases
      case 1
      then show ?thesis using 2 by (simp add: message_ok_def type_code_def code_type_def int64_def NewAck_def)
    next
      case 2
      have "received s n" using d(2) m(1) \<open>m = NewAck j n\<close> 2 by (auto simp: dir_inv_def acks_ok_def)
      moreover have "receiver_ok M E s" using d(2) by (simp add: dir_inv_def)
      ultimately show ?thesis using ack_fits [OF _ _ f(2) \<open>int64 j\<close> 2] \<open>m = NewAck j n\<close> by blast
    qed
    then show ?thesis using 2 by (simp add: NewAck_def)
  next
    case 3
    have "data_ok L m" using d(1) m(1) by (simp add: dir_inv_def)
    then show ?thesis using data_fits 3 f(1) i by blast
  qed
qed

lemma link_messages_fit:
  assumes r: "reach (link_init cp sp i a) link_step k" and f: "fits (c_written k)" "fits (s_written k)" and i: "int64 i"
    and m: "m \<in> c2s k \<union> s2c k"
  shows "message_ok m \<and> length (Payload m) \<le> 1401"
proof -
  have inv: "link_inv k" "wire_seq k" "typed i k"
    using wire_seqs.reach_inv [OF r] link_types.reach_inv [OF r] by blast+
  from inv(1) obtain L M where
    d: "dir_inv L (s_delivered k) (cli k) (conn k) (c2s k) (s2c k)"
      "dir_inv M (c_delivered k) (conn k) (cli k) (s2c k) (c2s k)"
    and w: "c_written k = L @ map Payload (tmsg (cli k))" "s_written k = M @ map Payload (tmsg (conn k))"
    by (rule link_invE)
  have fl: "fits L" "fits M" using fits_prefix [of L "c_written k"] fits_prefix [of M "s_written k"] f w by simp_all
  have q: "seq_ok m" using inv(2) m by (simp add: wire_seq_def)
  show ?thesis
  proof (cases "m \<in> c2s k")
    case True
    then have "up_msg i m" using inv(3) by (simp add: typed_def)
    then show ?thesis using message_fits [OF True _ d fl i q] by (simp add: up_msg_def)
  next
    case False
    then have s: "m \<in> s2c k" using m by simp
    then have "down_msg i m" using inv(3) by (simp add: typed_def)
    then show ?thesis using message_fits [OF s _ d(2,1) fl(2,1) i q] by (auto simp: down_msg_def)
  qed
qed

section \<open>The theorem\<close>

text \<open>
  C9: the packets of LSP survive the wire. In every reachable state of a server with its
  clients, let the applications have written payloads of at most 1401 bytes over a connection,
  fewer than \<open>2 ^ 63\<close> of them, with a connection number of 64 bits. When any message ever sent over it, in either
  direction, is written by \<open>WriteMessage\<close> and the network layer passes it on unchanged, then
  \<open>ReadMessage\<close> yields that message: nothing is too long, out of range or lost in the JSON text.
\<close>

theorem packets_survive_wire:
  assumes "reach sys_init (sys_step sp) s" and "clis s a = Some c"
    and "gm_get (conns (srv s)) i = Some d" and "addr d = a"
    and "\<forall>j d'. gm_get (conns (srv s)) j = Some d' \<and> addr d' = a \<longrightarrow> j = i"
    and "fits (cli_written s a)" and "fits (payloads i (srv_written s))" and "i < 2 ^ 63"
    and "(m, a) \<in> to_srv s \<union> to_cli s"
    and "msgShorteningPercent n = 0" and "msgLengtheningPercent n = 0"
    and "WriteMessage draws ok cn n dst isnil m = (Some (p, b), e)" and "\<not> sometimes r (readDropPercent cn' n')"
  shows "ReadMessage cn' n' ((OsPacket p src, r) # rs) = Some (Inr (m, src)) \<and> b = dst \<and> \<not> e"
proof -
  obtain cp w where v: "reach (link_init cp sp i a) link_step (view sp i a c w s)" and p: "passed i w s"
    using system_view [OF assms(1-5)] by blast
  have "prefix w (payloads i (srv_written s))" using p by (simp add: passed_def)
  then have f: "fits (c_written (view sp i a c w s))" "fits (s_written (view sp i a c w s))"
    using assms(6,7) fits_prefix by (simp_all add: view_def)
  have "73 \<le> i"
    using srv_okD(1) [OF sys_invD(1) [OF system.reach_inv [OF assms(1)]]] gm_get_Some_key [OF assms(3)]
    by (auto simp: registry_ok_def)
  then have i: "int64 i" using assms(8) by (simp add: int64_def)
  have "m \<in> c2s (view sp i a c w s) \<union> s2c (view sp i a c w s)" using assms(9) by (auto simp: view_def)
  then have "message_ok m \<and> length (Payload m) \<le> 1401" by (rule link_messages_fit [OF v f i])
  then show ?thesis using wire_roundtrip [OF _ _ assms(10-13)] by blast
qed

theorem packets_survive_wire_witness:
  "\<exists>s p. run_opt (sys_exec NewParams) sys_run sys_start = Some s \<and> (NewData 74 1 1 ''x'', ''a'') \<in> to_srv s \<and>
     WriteMessage (0, 0, 0) True 1 lspnet_init None False (NewData 74 1 1 ''x'') = (Some (p, None), False) \<and>
     ReadMessage 2 lspnet_init [(OsPacket p (Some ''a''), 0)] = Some (Inr (NewData 74 1 1 ''x'', Some ''a''))"
proof -
  obtain s c where s: "run_opt (sys_exec NewParams) sys_run sys_start = Some s" "clis s ''a'' = Some c"
      "(NewData 74 1 1 ''x'', ''a'') \<in> to_srv s" "cli_written s ''a'' = [''x'']" "srv_written s = [(74, ''x'')]"
    and m: "map (\<lambda>(i, d). (i, addr d)) (conns (srv s)) = [(73, ''b''), (74, ''a'')]"
    using sys_run_result sys_run_sent by (auto split: option.splits)
  obtain d where g: "gm_get (conns (srv s)) 74 = Some d" "addr d = ''a''"
    "\<forall>j e. gm_get (conns (srv s)) j = Some e \<and> addr e = ''a'' \<longrightarrow> j = 74"
    using two_conns [OF m] by auto
  have f: "fits (cli_written s ''a'')" "fits (payloads 74 (srv_written s))" by (simp_all add: fits_def s)
  define p where "p = write_packet 0 0 lspnet_init (marshal_message False (NewData 74 1 1 ''x''))"
  have w: "WriteMessage (0, 0, 0) True 1 lspnet_init None False (NewData 74 1 1 ''x'') = (Some (p, None), False)"
    by (simp add: WriteMessage_def UDPConn_Write_def udp_write_def lspnet_init_zero sometimes_zero p_def Let_def)
  have "\<not> sometimes 0 (readDropPercent 2 lspnet_init)" by (simp add: lspnet_init_zero sometimes_zero)
  from packets_survive_wire [OF sys_run_reach [OF s(1)] s(2) g f _ _ lspnet_init_zero(1,2) w this] s(1,3) w
  show ?thesis by auto
qed

section \<open>A packet that cannot be read\<close>

text \<open>What the receiver of a client makes of the answer of \<open>ReadMessage\<close>.\<close>

definition message_read :: "unit + Message \<times> string option \<Rightarrow> Message option" where
  "message_read r = (case r of Inl _ \<Rightarrow> None | Inr (m, _) \<Rightarrow> Some m)"

text \<open>The payloads a client has taken from its application and the server has not acknowledged.\<close>

definition pending_payloads :: "client \<Rightarrow> bytes multiset" where
  "pending_payloads c = image_mset Payload (gm_vals (tbuffer c)) + mset (map Payload (tmsg c))"

text \<open>
  Without its receiver a client hears nothing: what it has to send stays unacknowledged, and what
  it has to deliver gets no more.
\<close>

definition deaf :: "bytes multiset \<Rightarrow> bytes list \<Rightarrow> client \<Rightarrow> bool" where
  "deaf P R c \<longleftrightarrow> \<not> receiving c \<and> incoming c = [] \<and> window_ok c \<and> P \<subseteq># pending_payloads c \<and> suffix (rmsg c) R"

lemma pending_payloads_send:
  assumes "window_ok c" and "send_next c = (c', sent)"
  shows "pending_payloads c' = pending_payloads c"
  using assms(2)
proof (cases rule: send_nextE)
  case (one m ms)
  have "tsq c \<notin> gm_keys (tbuffer c)" using assms(1) by (auto simp: window_ok_def)
  then have "gm_get (tbuffer c) (tsq c) = None" using gm_get_None_key [of "tbuffer c" "tsq c"] by simp
  then show ?thesis using one by (simp add: pending_payloads_def gm_vals_new)
qed simp

lemma deaf_handler:
  assumes d: "deaf P R c" and h: "client_handler e c = Some (c', sent)" and w: "window_ok c'"
  shows "deaf P R c'"
proof -
  consider (closing) "c' = c\<lparr>ep_status := handlerClosed, running := False\<rparr>" | (timer) "client_on_timer c = (c', sent)"
    | (send) "send_next c = (c', sent)"
    using h d by (cases e) (auto simp: client_handler_def deaf_def split: if_splits)
  then show ?thesis
  proof cases
    case closing
    with d show ?thesis by (simp add: deaf_def pending_payloads_def window_ok_def)
  next
    case timer
    then have "receiving c' = receiving c" "incoming c' = incoming c" "tbuffer c' = tbuffer c" "tmsg c' = tmsg c"
        "rmsg c' = rmsg c"
      by (auto simp: client_on_timer_def Let_def split: if_splits)
    with d w show ?thesis by (simp add: deaf_def pending_payloads_def)
  next
    case send
    then have "receiving c' = receiving c" "incoming c' = incoming c" "rmsg c' = rmsg c"
      by (auto elim!: send_nextE)
    with d w pending_payloads_send [OF _ send] show ?thesis by (simp add: deaf_def)
  qed
qed

lemma deaf_step:
  assumes d: "deaf P R c" and st: "client_step c e c'"
  shows "deaf P R c'"
proof -
  have w: "window_ok c'" using client_window.step_inv [OF _ st] d by (simp add: deaf_def)
  obtain sent where ex: "client_exec e c = Some (c', sent)" using st by (auto simp: client_step_def)
  show ?thesis
  proof (cases e)
    case (CHandler h)
    then show ?thesis using deaf_handler [OF d _ w] ex by simp
  next
    case (CReceive r)
    then show ?thesis using ex d by (simp add: client_receiver_def deaf_def)
  next
    case (CRead p)
    then have "receiving c' = receiving c" "incoming c' = incoming c" "tbuffer c' = tbuffer c" "tmsg c' = tmsg c"
        "suffix (rmsg c') (rmsg c)"
      using ex by (auto simp: client_Read_def suffix_def split: pick.splits list.splits)
    with d w show ?thesis using suffix_order.trans by (auto simp: deaf_def pending_payloads_def)
  next
    case (CWrite p)
    then have "c' = c\<lparr>tmsg := tmsg c @ [NewData (conn_id c) (-1) (int (length p)) p]\<rparr>"
      using ex by (auto simp: client_Write_def split: if_splits)
    with d w show ?thesis
      by (auto simp: deaf_def pending_payloads_def intro: subset_mset.order_trans)
  next
    case CCloseBegin
    then have "receiving c' = receiving c" "incoming c' = incoming c" "tbuffer c' = tbuffer c" "tmsg c' = tmsg c"
        "rmsg c' = rmsg c"
      using ex by (auto simp: client_Close_begin_def split: if_splits)
    with d w show ?thesis by (simp add: deaf_def pending_payloads_def)
  next
    case CClosePoll
    then have "receiving c' = receiving c" "incoming c' = incoming c" "tbuffer c' = tbuffer c" "tmsg c' = tmsg c"
        "rmsg c' = rmsg c"
      using ex by (auto simp: client_Close_poll_def Let_def split: if_splits)
    with d w show ?thesis by (simp add: deaf_def pending_payloads_def)
  qed
qed

interpretation deaf_client: inductive_invariant "deaf P R" client_step "deaf P R" for P R
  by unfold_locales (auto intro: deaf_step)

text \<open>
  C19: one oversized packet makes a connected client give up its messages. A data message with a
  payload of 1500 bytes or more is written by \<open>WriteMessage\<close> without an error; when its packet
  arrives, \<open>ReadMessage\<close> fails and the receiver of the client returns. A client that has payloads
  to send or not yet acknowledged, and no message left to handle, keeps all of them unacknowledged
  in every later state, whatever happens; nothing more is delivered to its application and its
  handler never closes in order, and still a \<open>Close\<close> called at once returns at its first poll.
\<close>

theorem client_bad_packet_ends_connection:
  assumes "reach client_init client_step c" and "receiving c" and "0 < conn_id c"
    and "incoming c = []" and "pending_payloads c \<noteq> {#}"
    and "message_ok m" and "1500 \<le> length (Payload m)"
    and "msgShorteningPercent n = 0" and "msgLengtheningPercent n = 0"
    and "WriteMessage draws ok cn n dst isnil m = (Some (p, a), e)" and "\<not> sometimes d (readDropPercent cn' n')"
  shows "\<not> e \<and> (\<exists>r c1. ReadMessage cn' n' ((OsPacket p src, d) # rs) = Some r \<and>
    client_receiver (message_read r) c = Some c1 \<and>
    snd (client_Close_poll (client_Close_begin c1)) \<and>
    (\<forall>es c2. steps client_step c1 es c2 \<longrightarrow> \<not> receiving c2 \<and> pending_payloads c \<subseteq># pending_payloads c2 \<and>
      suffix (rmsg c2) (rmsg c) \<and> \<not> close_ready c2))"
proof -
  define c1 where "c1 = c\<lparr>ep_status := connectionClosed, receiving := False\<rparr>"
  have "window_ok c1" using client_window.reach_inv [OF assms(1)] by (simp add: c1_def window_ok_def)
  then have deaf: "deaf (pending_payloads c) (rmsg c) c1"
    using assms(4) by (simp add: deaf_def pending_payloads_def c1_def)
  have "\<not> receiving c2 \<and> pending_payloads c \<subseteq># pending_payloads c2 \<and> suffix (rmsg c2) (rmsg c) \<and> \<not> close_ready c2"
    if "steps client_step c1 es c2" for es c2
  proof -
    have d: "deaf (pending_payloads c) (rmsg c) c2" by (rule deaf_client.steps_inv [OF that deaf])
    then have "pending_payloads c2 \<noteq> {#}" using assms(5) by (auto simp: deaf_def)
    then have "\<not> close_ready c2" by (auto simp: close_ready_def pending_payloads_def)
    with d show ?thesis by (simp add: deaf_def)
  qed
  moreover have "client_receiver (message_read (Inl ())) c = Some c1"
    using assms(2,3) by (simp add: client_receiver_def message_read_def c1_def)
  moreover have "snd (client_Close_poll (client_Close_begin c1))"
    by (simp add: client_Close_poll_def client_Close_begin_def c1_def)
  ultimately show ?thesis using oversize_fails [OF assms(6-11)] by blast
qed

theorem client_bad_packet_ends_connection_witness:
  "\<exists>c p r c1. busy_client = Some c \<and>
     WriteMessage (0, 0, 0) True 1 lspnet_init None False (NewData 73 1 1500 (replicate 1500 CHR ''x'')) = (Some (p, None), False) \<and>
     ReadMessage 2 lspnet_init [(OsPacket p None, 0)] = Some r \<and> client_receiver (message_read r) c = Some c1 \<and>
     snd (client_Close_poll (client_Close_begin c1)) \<and> {#''hi'', ''yo''#} \<subseteq># pending_payloads c1"
proof -
  let ?m = "NewData 73 1 1500 (replicate 1500 CHR ''x'')"
  obtain c where c: "busy_client = Some c" "receiving c" "0 < conn_id c" "incoming c = []"
      "tbuffer c = [(1, NewData 73 1 2 ''hi'')]" "tmsg c = [NewData 73 (-1) 2 ''yo'']"
    using busy_client_state by (auto split: option.splits)
  note reach = busy_client_reach [OF c(1)]
  have pend: "pending_payloads c = {#''hi'', ''yo''#}"
    using c(5,6) by (simp add: pending_payloads_def gm_vals_def)
  have ok: "message_ok ?m" by (simp add: message_ok_def code_type_def type_code_def int64_def)
  define p where "p = write_packet 0 0 lspnet_init (marshal_message False ?m)"
  have w: "WriteMessage (0, 0, 0) True 1 lspnet_init None False ?m = (Some (p, None), False)"
    by (simp add: WriteMessage_def UDPConn_Write_def udp_write_def lspnet_init_zero sometimes_zero p_def Let_def)
  have nd: "\<not> sometimes 0 (readDropPercent 2 lspnet_init)" by (simp add: lspnet_init_zero sometimes_zero)
  have ne: "pending_payloads c \<noteq> {#}" and len: "1500 \<le> length (Payload ?m)" by (simp_all add: pend)
  obtain r c1 where r: "ReadMessage 2 lspnet_init [(OsPacket p None, 0)] = Some r"
      "client_receiver (message_read r) c = Some c1" "snd (client_Close_poll (client_Close_begin c1))"
    and later: "\<forall>es c2. steps client_step c1 es c2 \<longrightarrow> \<not> receiving c2 \<and> pending_payloads c \<subseteq># pending_payloads c2 \<and>
      suffix (rmsg c2) (rmsg c) \<and> \<not> close_ready c2"
    using client_bad_packet_ends_connection [OF reach c(2,3,4) ne ok len lspnet_init_zero(1,2) w nd, of None "[]"]
    by (elim conjE exE)
  have "{#''hi'', ''yo''#} \<subseteq># pending_payloads c1" using later [rule_format, OF steps_Nil] pend by simp
  with c(1) w r show ?thesis by blast
qed

end
