(* ===== verification/Lsp_Backpressure.thy ===== *)
theory Lsp_Backpressure
  imports Lsp_Server "HOL-Library.Sublist"
begin

text \<open>
  What the bounded channels of the LSP server do to it under load. \<open>handle\<close> is the only
  goroutine that moves packets from the socket to the connections and payloads from
  \<open>Write\<close> to them, and it sends on \<open>client.tmsg\<close> and \<open>client.incoming\<close>, both of capacity
  1024, without a way out. One connection whose window is full and whose \<open>tmsg\<close> is full
  stops it, and the acknowledgement that would open the window can then not be routed.
\<close>

section \<open>A blocked handle goroutine\<close>

text \<open>
  The goroutine of the connection takes nothing from \<open>tmsg\<close>: it has ended, or its window
  is full and no packet for it is left.
\<close>

definition conn_jammed :: "clientInfo \<Rightarrow> bool" where
  "conn_jammed c \<longleftrightarrow> 1024 \<le> length (tmsg c) \<and> incoming c = [] \<and>
     (running c \<longrightarrow> windows c \<le> tsq c - minUnAcked c)"

definition write_stuck :: "Message \<Rightarrow> server \<Rightarrow> bool" where
  "write_stuck m s \<longleftrightarrow> handle_send s = Some (ToTmsg m) \<and>
     (\<exists>c. gm_get (conns s) (ConnID m) = Some c \<and> conn_jammed c)"

lemma minUnAcked_more [simp]:
  "minUnAcked (c\<lparr>ep_status := st\<rparr>) = minUnAcked c" "minUnAcked (c\<lparr>epochCount := n\<rparr>) = minUnAcked c"
  "minUnAcked (c\<lparr>running := b\<rparr>) = minUnAcked c"
  by (simp_all add: minUnAcked_def)

lemma conn_jammed_open: "conn_jammed c \<Longrightarrow> \<not> close_ready c"
  by (auto simp: conn_jammed_def close_ready_def)

lemma conn_jammed_handle:
  assumes "conn_jammed c" and "handleClient b e c = Some r"
  shows "conn_jammed (cr_conn r)"
proof (cases e)
  case EvIncoming
  with assms show ?thesis by (auto simp: handleClient_def conn_jammed_def close_ready_def split: if_splits)
next
  case EvTimer
  with assms conn_jammed_open [OF assms(1)] have "r = conn_on_timer c"
    by (simp add: handleClient_def split: if_splits)
  with assms(1) show ?thesis by (simp add: conn_on_timer_def conn_jammed_def Let_def)
next
  case EvDefault
  with assms conn_jammed_open [OF assms(1)] have r: "r = conn_on_default b c" "running c"
    by (simp_all add: handleClient_def split: if_splits)
  then have "send_next c = (c, [])" using assms(1) by (simp add: send_next_def conn_jammed_def)
  with r(1) assms(1) show ?thesis by (simp add: conn_on_default_def conn_jammed_def)
qed

lemma write_stuck_handle:
  assumes "write_stuck m s"
  shows "server_handle params h s = None"
  using assms by (cases h) (auto simp: write_stuck_def server_handle_def conn_room_def conn_jammed_def)

text \<open>What has piled up since the goroutine was blocked in state \<open>s0\<close>.\<close>

definition blocked_since :: "server \<Rightarrow> Message \<Rightarrow> server \<Rightarrow> bool" where
  "blocked_since s0 m s \<longleftrightarrow> write_stuck m s \<and> clients s = clients s0 \<and> lastConnID s = lastConnID s0 \<and>
     prefix (s_incoming s0) (s_incoming s) \<and> prefix (outgoing s0) (outgoing s)"

lemma blocked_since_conn:
  assumes b: "blocked_since s0 m s" and ex: "server_conn j e s = Some (t, sent)"
  shows "blocked_since s0 m t"
proof -
  from b obtain c where c: "gm_get (conns s) (ConnID m) = Some c" "conn_jammed c"
    by (auto simp: blocked_since_def write_stuck_def)
  from ex obtain d r where d: "gm_get (conns s) j = Some d" "handleClient (bcls_closed s) e d = Some r"
    and t: "t = s\<lparr>conns := gm_set j (cr_conn r) (conns s), s_rmsg := s_rmsg s @ map (Pair j) (cr_rmsg r),
        cls := cls s @ (if cr_cls r then [j] else []), s_err := s_err s @ map (Pair j) (cr_err r)\<rparr>"
    by (auto simp: server_conn_def split: option.splits)
  have "\<exists>c. gm_get (conns t) (ConnID m) = Some c \<and> conn_jammed c"
    using c d conn_jammed_handle t by (cases "j = ConnID m") auto
  with b t show ?thesis by (simp add: blocked_since_def write_stuck_def)
qed

lemma blocked_since_exec:
  assumes b: "blocked_since s0 m s" and ex: "server_exec params e s = Some (t, sent)"
  shows "blocked_since s0 m t"
proof (cases "(\<exists>h. e = SHandle h) \<or> (\<exists>j h. e = SConn j h)")
  case True
  then show ?thesis
    using b ex write_stuck_handle [of m s params] blocked_since_conn [OF b, of _ _ t sent]
    by (auto simp: blocked_since_def)
next
  case False
  have "prefix (s_incoming s) (s_incoming t) \<and> prefix (outgoing s) (outgoing t)"
    using ex False
    by (cases e) (auto simp: server_Read_def server_Write_def server_CloseConn_def server_Close_begin_def
        server_Close_poll_def server_receiver_def Let_def split: option.splits if_splits pick.splits list.splits)
  moreover have "conns t = conns s \<and> clients t = clients s \<and> lastConnID t = lastConnID s \<and> handle_send t = handle_send s"
    using server_exec_other [OF ex] False by simp
  ultimately show ?thesis
    using b by (auto simp: blocked_since_def write_stuck_def intro: prefix_order.trans)
qed

interpretation backlog: inductive_invariant "blocked_since s0 m" "server_step params" "blocked_since s0 m"
  for s0 m params
  by unfold_locales (auto simp: server_step_def intro: blocked_since_exec)

section \<open>The deadlock\<close>

text \<open>
  C17: one slow client stops the whole server. When \<open>handle\<close> waits to pass a written payload
  to a connection whose queue \<open>tmsg\<close> is full, whose window is full and which has no packet
  left to read, then in every later state \<open>handle\<close> still waits for that send and can make no
  step: no connection is accepted or unregistered again, and what arrives from the network or
  from \<open>Write\<close>, for whatever connection, only piles up.
\<close>

theorem server_write_deadlock:
  assumes "handle_send s = Some (ToTmsg m)" and "gm_get (conns s) (ConnID m) = Some c"
    and "1024 \<le> length (tmsg c)" and "windows c \<le> tsq c - minUnAcked c" and "incoming c = []"
    and "steps (server_step params) s es t"
  shows "handle_send t = Some (ToTmsg m) \<and> (\<forall>h. server_handle params h t = None) \<and>
    clients t = clients s \<and> lastConnID t = lastConnID s \<and>
    prefix (s_incoming s) (s_incoming t) \<and> prefix (outgoing s) (outgoing t)"
proof -
  have "blocked_since s m s"
    using assms(1-5) by (simp add: blocked_since_def write_stuck_def conn_jammed_def)
  then have "blocked_since s m t" by (rule backlog.steps_inv [OF assms(6)])
  then show ?thesis
    using write_stuck_handle [of m t params] by (simp add: blocked_since_def write_stuck_def)
qed

text \<open>
  The state is reached by writing: the first payload leaves and is never acknowledged, the
  next 1024 fill the queue, one more blocks \<open>handle\<close>.
\<close>

definition written :: Message where
  "written = NewData 73 (-1) 1 ''x''"

definition slow_conn :: "nat \<Rightarrow> clientInfo" where
  "slow_conn n = (new_clientInfo NewParams 73 ''10.0.0.1:7'')\<lparr>tsq := 2,
     tbuffer := [(1, written\<lparr>SeqNum := 1\<rparr>)], tmsg := replicate n written\<rparr>"

definition slow_server :: "nat \<Rightarrow> server" where
  "slow_server n = server_with_client\<lparr>conns := [(73, slow_conn n)]\<rparr>"

definition blocked_server :: server where
  "blocked_server = (slow_server 1024)\<lparr>handle_send := Some (ToTmsg written)\<rparr>"

lemma server_with_client_eq:
  "server_with_client = \<lparr>clients = [73], conns = [(73, new_clientInfo NewParams 73 ''10.0.0.1:7'')],
     lastConnID = 74, s_incoming = [], outgoing = [], s_rmsg = [], s_status = newStatus, s_err = [], cls = [],
     bcls_closed = False, handling = True, handle_send = None, s_receiving = True, s_udp_open = True\<rparr>"
  by (simp add: server_with_client_def NewServer_def handle_connect_def)

lemma slow_server_write:
  "run_opt (server_exec NewParams) [SWrite 73 ''x'', SHandle HOutgoing] (slow_server n) =
     Some (if n < 1024 then slow_server (Suc n) else (slow_server n)\<lparr>handle_send := Some (ToTmsg written)\<rparr>)"
  by (simp add: slow_server_def server_with_client_eq server_Write_def server_handle_def handle_outgoing_def
      route_def written_def conn_room_def upd_conn_def slow_conn_def replicate_append_same)

lemma slow_server_start:
  "run_opt (server_exec NewParams) [SWrite 73 ''x'', SHandle HOutgoing, SConn 73 EvDefault] server_with_client =
     Some (slow_server 0)"
  by (simp add: slow_server_def server_with_client_eq server_Write_def server_handle_def handle_outgoing_def
      route_def written_def conn_room_def upd_conn_def slow_conn_def server_conn_def handleClient_def
      new_clientInfo_def newStatus_def NewParams_def close_ready_def conn_on_default_def send_next_def
      minUnAcked_def Let_def)

lemma slow_server_reach: "n \<le> 1024 \<Longrightarrow> reach server_init (server_step NewParams) (slow_server n)"
proof (induction n)
  case 0
  show ?case by (rule server_run_reach [OF slow_server_start server_with_client_reach])
next
  case (Suc n)
  then have "reach server_init (server_step NewParams) (slow_server n)" "n < 1024" by simp_all
  then show ?case using server_run_reach [OF slow_server_write [of n]] by simp
qed

lemma blocked_server_reach: "reach server_init (server_step NewParams) blocked_server"
  using server_run_reach [OF slow_server_write slow_server_reach [of 1024]] by (simp add: blocked_server_def)

theorem server_write_deadlock_witness:
  "reach server_init (server_step NewParams) blocked_server \<and>
   (\<exists>t. steps (server_step NewParams) blocked_server [SConn 73 EvTimer, SWrite 73 ''y''] t \<and>
      server_handle NewParams HIncoming t = None \<and> server_handle NewParams HSend t = None \<and> clients t = [73])"
proof -
  have s: "handle_send blocked_server = Some (ToTmsg written)" "clients blocked_server = [73]" "outgoing blocked_server = []"
    "gm_get (conns blocked_server) 73 = Some (slow_conn 1024)" "ConnID written = 73"
    by (simp_all add: blocked_server_def slow_server_def server_with_client_eq written_def)
  have c: "1024 \<le> length (tmsg (slow_conn 1024))" "incoming (slow_conn 1024) = []"
    "windows (slow_conn 1024) \<le> tsq (slow_conn 1024) - minUnAcked (slow_conn 1024)"
    by (simp_all add: slow_conn_def new_clientInfo_def NewParams_def minUnAcked_def)
  have "handleClient b EvTimer (slow_conn 1024) = Some (conn_on_timer (slow_conn 1024))" for b
    by (simp add: slow_conn_def new_clientInfo_def newStatus_def handleClient_def close_ready_def)
  then obtain t where t: "steps (server_step NewParams) blocked_server [SConn 73 EvTimer, SWrite 73 ''y''] t"
    using s(3,4) by (auto simp: steps_simps server_step_def server_conn_def server_Write_def)
  have "gm_get (conns blocked_server) (ConnID written) = Some (slow_conn 1024)" using s(4,5) by simp
  from server_write_deadlock [OF s(1) this c(1,3,2) t] show ?thesis
    using blocked_server_reach t s(2) by auto
qed

end
