(* ===== verification/Mapreduce_Files.thy ===== *)
theory Mapreduce_Files
  imports Json_Roundtrip
begin

text \<open>
  The intermediate files of \<open>mapreduce/mapreduce.go\<close>: a \<open>json.Encoder\<close> writes a struct
  \<open>KeyValue\<close> after the other, each on a line of its own, and a \<open>json.Decoder\<close> reads them
  until its first error. The theorem says that a file that was written is read back whole,
  with every invalid byte of a key or value replaced.
\<close>

section \<open>Pairs\<close>

record KeyValue =
  Key :: string
  Value :: string

definition kv_zero :: KeyValue where
  "kv_zero = \<lparr>Key = [], Value = []\<rparr>"

text \<open>\<open>enc.Encode(&kv)\<close>: the object and a newline.\<close>

definition Encode :: "KeyValue \<Rightarrow> string" where
  "Encode kv = marshal_object [(''Key'', quote_string (Key kv)), (''Value'', quote_string (Value kv))] @ [CHR 0x0A]"

definition put_kv :: "string \<Rightarrow> json \<Rightarrow> KeyValue \<Rightarrow> KeyValue \<times> bool" where
  "put_kv n j kv =
     (if n = ''Key'' then (let (s, e) = store_string j (Key kv) in (kv\<lparr>Key := s\<rparr>, e))
      else (let (s, e) = store_string j (Value kv) in (kv\<lparr>Value := s\<rparr>, e)))"

text \<open>
  \<open>for { var kv KeyValue; err = dec.Decode(&kv); if err != nil { break }; \<dots> }\<close>: the pairs the
  body of the loop sees. Any error ends the loop, also one in the middle of the file.
\<close>

function Decode_all :: "string \<Rightarrow> KeyValue list" where
  "Decode_all s = (case decode [''Key'', ''Value''] put_kv s kv_zero of
       None \<Rightarrow> []
     | Some ((kv, e), rest) \<Rightarrow> if e then [] else kv # Decode_all rest)"
  by pat_completeness auto
termination
  by (relation "measure length") (auto dest: decode_shorter)

declare Decode_all.simps [simp del]

section \<open>What is written is read\<close>

text \<open>A pair after its way through a file: invalid UTF-8 is replaced.\<close>

definition json_kv :: "KeyValue \<Rightarrow> KeyValue" where
  "json_kv kv = \<lparr>Key = json_text (Key kv), Value = json_text (Value kv)\<rparr>"

lemma decode_Encode:
  "decode [''Key'', ''Value''] put_kv (Encode kv @ rest) kv_zero = Some ((json_kv kv, False), CHR 0x0A # rest)"
proof -
  let ?kvs = "[(''Key'', quote_string (Key kv)), (''Value'', quote_string (Value kv))]"
  let ?ms = "[(''Key'', JString (json_text (Key kv))), (''Value'', JString (json_text (Value kv)))]"
  have "list_all plain_char ''Key''" "list_all plain_char ''Value''" by (simp_all add: plain_char_def byte_def)
  then have "list_all2 writes_member ?kvs ?ms" by (simp add: writes_member_def writes_string)
  from decode_object [OF this, of "[''Key'', ''Value'']" put_kv "CHR 0x0A # rest" kv_zero] show ?thesis
    by (simp add: Encode_def put_kv_def store_string_def json_kv_def kv_zero_def)
qed

lemma Decode_all_ws: "is_ws c \<Longrightarrow> Decode_all (c # s) = Decode_all s"
  by (simp add: Decode_all.simps [of "c # s"] Decode_all.simps [of s] decode_ws)

theorem Decode_all_Encode [simp]: "Decode_all (concat (map Encode l)) = map json_kv l"
proof (induction l)
  case Nil
  then show ?case by (simp add: Decode_all.simps decode_Nil)
next
  case (Cons kv l)
  have "Decode_all (Encode kv @ concat (map Encode l)) = json_kv kv # Decode_all (CHR 0x0A # concat (map Encode l))"
    by (simp add: Decode_all.simps [of "Encode kv @ _"] decode_Encode)
  moreover have "is_ws CHR 0x0A" by (simp add: is_ws_def)
  ultimately show ?case by (simp add: Decode_all_ws Cons.IH)
qed

lemma json_kv_valid: "valid_utf8 (Key kv) \<Longrightarrow> valid_utf8 (Value kv) \<Longrightarrow> json_kv kv = kv"
  by (simp add: json_kv_def json_text_valid)

end
