(* ===== verification/Mapreduce.thy ===== *)
theory Mapreduce
  imports Mapreduce_Files "HOL-Library.Word" "HOL-Library.List_Lexorder" "HOL-Library.Char_ord"
begin

unbundle bit_operations_syntax

text \<open>
  The sequential MapReduce library (\<open>mapreduce/mapreduce.go\<close>): the file names, \<open>Split\<close>,
  \<open>DoMap\<close>, \<open>DoReduce\<close>, \<open>Merge\<close>, \<open>CleanupFiles\<close> and \<open>RunSingle\<close> on an explicit file
  system.
\<close>

section \<open>Data\<close>

text \<open>
  The files by name, each with its bytes. \<open>log.Fatal\<close> and a run-time panic end the process.
\<close>

type_synonym fs = "string \<rightharpoonup> string"

datatype failure = Fatal string string | Panic string

record MapReduce =
  nMap :: nat
  nReduce :: nat
  mr_file :: string
  MasterAddress :: string
  alive :: bool
  Workers :: "(string, string) gomap"
  mapJobs :: "nat list"
  mapDone :: nat
  reduceStart_closed :: bool
  reduceJobs :: "nat list"
  reduceDone :: nat

definition InitMapReduce :: "nat \<Rightarrow> nat \<Rightarrow> string \<Rightarrow> string \<Rightarrow> MapReduce" where
  "InitMapReduce nmap nreduce f master =
    \<lparr>nMap = nmap, nReduce = nreduce, mr_file = f, MasterAddress = master, alive = True,
     Workers = [], mapJobs = [0..<nmap], mapDone = 0, reduceStart_closed = False,
     reduceJobs = [0..<nreduce], reduceDone = 0\<rparr>"

section \<open>File names\<close>

definition MapName :: "string \<Rightarrow> nat \<Rightarrow> string" where
  "MapName fileName MapJob = ''mrtmp.'' @ fileName @ ''-'' @ Itoa (int MapJob)"

definition ReduceName :: "string \<Rightarrow> nat \<Rightarrow> nat \<Rightarrow> string" where
  "ReduceName fileName MapJob ReduceJob = MapName fileName MapJob @ ''-'' @ Itoa (int ReduceJob)"

definition MergeName :: "string \<Rightarrow> nat \<Rightarrow> string" where
  "MergeName fileName ReduceJob = ''mrtmp.'' @ fileName @ ''-res-'' @ Itoa (int ReduceJob)"

definition out_name :: "string \<Rightarrow> string" where
  "out_name fileName = ''mrtmp.'' @ fileName"

section \<open>Split\<close>

abbreviation newline :: char where
  "newline \<equiv> CHR 0x0A"

text \<open>
  The lines a \<open>bufio.Scanner\<close> yields: the text between newlines, without a final carriage
  return, and the rest after the last newline when it is not empty. The scanner gives up at
  a line that does not fit its buffer of 65536 bytes; \<open>Split\<close> does not look at its error.
\<close>

definition dropCR :: "string \<Rightarrow> string" where
  "dropCR l = (if l \<noteq> [] \<and> last l = CHR 0x0D then butlast l else l)"

definition MaxScanTokenSize :: nat where
  "MaxScanTokenSize = 65536"

function scan_lines :: "string \<Rightarrow> string list" where
  "scan_lines s = (if s = [] then []
     else let l = takeWhile (\<lambda>c. c \<noteq> newline) s; rest = dropWhile (\<lambda>c. c \<noteq> newline) s in
       if MaxScanTokenSize \<le> length l then []
       else dropCR l # scan_lines (drop 1 rest))"
  by pat_completeness auto
termination
proof (relation "measure length")
  fix s :: string and l rest
  assume s: "s \<noteq> []" and r: "rest = dropWhile (\<lambda>c. c \<noteq> newline) s"
  then show "(drop 1 rest, s) \<in> measure length"
    using length_dropWhile_le [of "\<lambda>c. c \<noteq> newline" s] by (cases s) auto
qed simp

declare scan_lines.simps [simp del]

text \<open>
  The loop of \<open>Split\<close>: \<open>out\<close> is the name of the current output file, \<open>buf\<close> what has been
  written to it, \<open>m\<close> the number of files created and \<open>i\<close> the number of bytes written to
  all of them.
\<close>

fun split_loop :: "string \<Rightarrow> nat \<Rightarrow> string list \<Rightarrow> fs \<Rightarrow> string \<Rightarrow> string \<Rightarrow> nat \<Rightarrow> nat \<Rightarrow> fs" where
  "split_loop f nchunk [] fs out buf m i = fs(out \<mapsto> buf)"
| "split_loop f nchunk (text # ls) fs out buf m i =
    (let line = text @ [newline] in
     if i > nchunk * m
     then split_loop f nchunk ls (fs(out \<mapsto> buf)) (MapName f m) line (m + 1) (i + length line)
     else split_loop f nchunk ls fs out (buf @ line) m (i + length line))"

definition Split :: "MapReduce \<Rightarrow> string \<Rightarrow> fs \<Rightarrow> failure + fs" where
  "Split mr fileName fs = (case fs fileName of
       None \<Rightarrow> Inl (Fatal ''Split: '' fileName)
     | Some b \<Rightarrow>
         if nMap mr = 0 then Inl (Panic ''integer divide by zero'')
         else Inr (split_loop fileName (length b div nMap mr + 1) (scan_lines b) fs
                    (MapName fileName 0) [] 1 0))"

section \<open>DoMap\<close>

text \<open>\<open>ihash\<close>: the 32-bit FNV-1a hash.\<close>

definition ihash :: "string \<Rightarrow> 32 word" where
  "ihash s = foldl (\<lambda>h c. (h XOR of_char c) * 16777619) 2166136261 s"

definition in_partition :: "nat \<Rightarrow> nat \<Rightarrow> KeyValue \<Rightarrow> bool" where
  "in_partition nreduce r kv \<longleftrightarrow> ihash (Key kv) mod of_nat nreduce = of_nat r"

definition DoMap :: "nat \<Rightarrow> string \<Rightarrow> nat \<Rightarrow> (string \<Rightarrow> KeyValue list) \<Rightarrow> fs \<Rightarrow> failure + fs" where
  "DoMap JobNumber fileName nreduce Map fs = (case fs (MapName fileName JobNumber) of
       None \<Rightarrow> Inl (Fatal ''DoMap: '' (MapName fileName JobNumber))
     | Some b \<Rightarrow>
         let res = Map b in
         if res \<noteq> [] \<and> 0 < nreduce \<and> (of_nat nreduce :: 32 word) = 0
         then Inl (Panic ''integer divide by zero'')
         else Inr (foldl (\<lambda>fs r. fs(ReduceName fileName JobNumber r \<mapsto>
                            concat (map Encode (filter (in_partition nreduce r) res))))
                         fs [0..<nreduce]))"

section \<open>DoReduce\<close>

definition push_value :: "(string, string list) gomap \<Rightarrow> KeyValue \<Rightarrow> (string, string list) gomap" where
  "push_value kvs kv = (case gm_get kvs (Key kv) of
       None \<Rightarrow> gm_set (Key kv) ([] @ [Value kv]) kvs
     | Some l \<Rightarrow> gm_set (Key kv) (l @ [Value kv]) kvs)"

text \<open>Opening the files one after the other and decoding each to its end.\<close>

fun read_all :: "string \<Rightarrow> string list \<Rightarrow> ('a \<Rightarrow> KeyValue \<Rightarrow> 'a) \<Rightarrow> 'a \<Rightarrow> fs \<Rightarrow> failure + 'a" where
  "read_all msg [] add kvs fs = Inr kvs"
| "read_all msg (name # names) add kvs fs = (case fs name of
       None \<Rightarrow> Inl (Fatal msg name)
     | Some b \<Rightarrow> read_all msg names add (foldl add kvs (Decode_all b)) fs)"

definition lookup_all :: "(string, 'v) gomap \<Rightarrow> string \<Rightarrow> 'v \<Rightarrow> 'v" where
  "lookup_all kvs k zero = (case gm_get kvs k of None \<Rightarrow> zero | Some v \<Rightarrow> v)"

definition DoReduce :: "nat \<Rightarrow> string \<Rightarrow> nat \<Rightarrow> (string \<Rightarrow> string list \<Rightarrow> string) \<Rightarrow> fs \<Rightarrow> failure + fs" where
  "DoReduce job fileName nmap Reduce fs =
    (case read_all ''DoReduce: '' (map (\<lambda>i. ReduceName fileName i job) [0..<nmap]) push_value [] fs of
       Inl e \<Rightarrow> Inl e
     | Inr kvs \<Rightarrow>
         let keys = sort (map fst kvs) in
         Inr (fs(MergeName fileName job \<mapsto>
               concat (map (\<lambda>k. Encode \<lparr>Key = k, Value = Reduce k (lookup_all kvs k [])\<rparr>) keys))))"

section \<open>Merge\<close>

definition put_value :: "(string, string) gomap \<Rightarrow> KeyValue \<Rightarrow> (string, string) gomap" where
  "put_value kvs kv = gm_set (Key kv) (Value kv) kvs"

definition Merge :: "MapReduce \<Rightarrow> fs \<Rightarrow> failure + fs" where
  "Merge mr fs =
    (case read_all ''Merge: '' (map (MergeName (mr_file mr)) [0..<nReduce mr]) put_value [] fs of
       Inl e \<Rightarrow> Inl e
     | Inr kvs \<Rightarrow>
         let keys = sort (map fst kvs) in
         Inr (fs(out_name (mr_file mr) \<mapsto>
               concat (map (\<lambda>k. k @ '': '' @ lookup_all kvs k [] @ [newline]) keys))))"

section \<open>CleanupFiles\<close>

definition RemoveFile :: "string \<Rightarrow> fs \<Rightarrow> failure + fs" where
  "RemoveFile n fs = (case fs n of None \<Rightarrow> Inl (Fatal ''CleanupFiles '' n) | Some _ \<Rightarrow> Inr (fs(n := None)))"

fun try_all :: "('a \<Rightarrow> 's \<Rightarrow> 'e + 's) \<Rightarrow> 'a list \<Rightarrow> 's \<Rightarrow> 'e + 's" where
  "try_all op [] s = Inr s"
| "try_all op (x # xs) s = (case op x s of Inl e \<Rightarrow> Inl e | Inr s' \<Rightarrow> try_all op xs s')"

text \<open>The files in the order in which \<open>CleanupFiles\<close> removes them.\<close>

definition temp_names :: "string \<Rightarrow> nat \<Rightarrow> nat \<Rightarrow> string list" where
  "temp_names f nmap nreduce =
     concat (map (\<lambda>i. MapName f i # map (ReduceName f i) [0..<nreduce]) [0..<nmap]) @
     map (MergeName f) [0..<nreduce] @ [out_name f]"

definition CleanupFiles :: "MapReduce \<Rightarrow> fs \<Rightarrow> failure + fs" where
  "CleanupFiles mr fs = try_all RemoveFile (temp_names (mr_file mr) (nMap mr) (nReduce mr)) fs"

section \<open>RunSingle\<close>

definition RunSingle :: "nat \<Rightarrow> nat \<Rightarrow> string \<Rightarrow> (string \<Rightarrow> KeyValue list) \<Rightarrow>
    (string \<Rightarrow> string list \<Rightarrow> string) \<Rightarrow> fs \<Rightarrow> failure + fs" where
  "RunSingle nmap nreduce f Map Reduce fs =
    (let mr = InitMapReduce nmap nreduce f [] in
     case Split mr (mr_file mr) fs of Inl e \<Rightarrow> Inl e
     | Inr fs1 \<Rightarrow>
     case try_all (\<lambda>i. DoMap i (mr_file mr) (nReduce mr) Map) [0..<nmap] fs1 of Inl e \<Rightarrow> Inl e
     | Inr fs2 \<Rightarrow>
     case try_all (\<lambda>i. DoReduce i (mr_file mr) (nMap mr) Reduce) [0..<nReduce mr] fs2 of Inl e \<Rightarrow> Inl e
     | Inr fs3 \<Rightarrow> Merge mr fs3)"

section \<open>The temporary files do not collide\<close>

named_theorems file_names \<comment> \<open>inequalities between the names of temporary files\<close>

lemma Itoa_int: "Itoa (int n) = utoa n"
  by (simp add: Itoa_def)

lemma dash_not_in_utoa: "CHR ''-'' \<notin> set (utoa n)"
  using utoa_digits [of n] not_is_digit_signs(1) by (auto simp: list_all_iff)

lemma utoa_inject [simp]: "utoa m = utoa n \<longleftrightarrow> m = n"
  using Itoa_inject [of "int m" "int n"] by (simp add: Itoa_int del: Itoa_inject)

lemma utoa_not_res: "utoa n @ s \<noteq> CHR ''r'' # t"
proof
  assume "utoa n @ s = CHR ''r'' # t"
  then obtain cs where "utoa n = CHR ''r'' # cs"
    using utoa_not_Nil [of n] by (cases "utoa n") auto
  then show False using utoa_head_digit by (fastforce simp: is_digit_def)
qed

lemma MapName_inject [file_names]: "MapName f i = MapName f j \<longleftrightarrow> i = j"
  by (simp add: MapName_def)

lemma ReduceName_inject [file_names]: "ReduceName f i r = ReduceName f j q \<longleftrightarrow> i = j \<and> r = q"
  using append_Cons_eq_iff [of "CHR ''-''" "utoa i" "utoa r" "utoa j" "utoa q"]
  by (simp add: ReduceName_def MapName_def Itoa_int dash_not_in_utoa)

lemma MergeName_inject [file_names]: "MergeName f r = MergeName f q \<longleftrightarrow> r = q"
  by (simp add: MergeName_def)

lemma MapName_ReduceName [file_names]: "MapName f i \<noteq> ReduceName f j r"
proof
  assume "MapName f i = ReduceName f j r"
  then have "utoa i = utoa j @ CHR ''-'' # utoa r"
    by (simp add: ReduceName_def MapName_def Itoa_int)
  then have "CHR ''-'' \<in> set (utoa i)" by simp
  then show False using dash_not_in_utoa by simp
qed

lemma MapName_MergeName [file_names]: "MapName f i \<noteq> MergeName f r"
  using utoa_not_res [of i "[]"] by (simp add: MapName_def MergeName_def Itoa_int)

lemma ReduceName_MergeName [file_names]: "ReduceName f i q \<noteq> MergeName f r"
  using utoa_not_res [of i "CHR ''-'' # utoa q"]
  by (simp add: ReduceName_def MapName_def MergeName_def Itoa_int)

lemma longer_neq: "length xs < length ys \<Longrightarrow> xs \<noteq> ys"
  by auto

lemma out_name_neq [file_names]:
  "out_name f \<noteq> MapName f i" "out_name f \<noteq> ReduceName f i r" "out_name f \<noteq> MergeName f r"
  by (rule longer_neq, simp add: out_name_def ReduceName_def MapName_def MergeName_def)+

lemma input_name_neq [file_names]:
  "f \<noteq> MapName f i" "f \<noteq> ReduceName f i r" "f \<noteq> MergeName f r" "f \<noteq> out_name f"
  by (rule longer_neq, simp add: out_name_def ReduceName_def MapName_def MergeName_def)+

lemmas file_names_sym [file_names] =
  MapName_ReduceName [symmetric] MapName_MergeName [symmetric] ReduceName_MergeName [symmetric]
  out_name_neq [symmetric] input_name_neq [symmetric]

section \<open>Split\<close>

text \<open>The contents of the files, without the file system.\<close>

fun split_parts :: "nat \<Rightarrow> string list \<Rightarrow> string \<Rightarrow> nat \<Rightarrow> nat \<Rightarrow> string list" where
  "split_parts n [] buf m i = [buf]"
| "split_parts n (l # ls) buf m i =
    (if i > n * m then buf # split_parts n ls (l @ [newline]) (m + 1) (i + length l + 1)
     else split_parts n ls (buf @ l @ [newline]) m (i + length l + 1))"

definition parts :: "nat \<Rightarrow> string \<Rightarrow> string list" where
  "parts nmap b = split_parts (length b div nmap + 1) (scan_lines b) [] 1 0"

lemma split_parts_concat:
  "concat (split_parts n ls buf m i) = buf @ concat (map (\<lambda>l. l @ [newline]) ls)"
  by (induction n ls buf m i rule: split_parts.induct) auto

lemma split_parts_not_Nil: "split_parts n ls buf m i \<noteq> []"
  by (induction n ls buf m i rule: split_parts.induct) auto

text \<open>The files from number \<open>k\<close> on hold the contents \<open>cs\<close>; other files are as before.\<close>

definition holds_parts :: "(nat \<Rightarrow> string) \<Rightarrow> nat \<Rightarrow> string list \<Rightarrow> fs \<Rightarrow> fs \<Rightarrow> bool" where
  "holds_parts name k cs fs fs' \<longleftrightarrow>
     (\<forall>j < length cs. fs' (name (k + j)) = Some (cs ! j)) \<and>
     (\<forall>x. x \<notin> name ` {k..<k + length cs} \<longrightarrow> fs' x = fs x)"

lemma holds_parts_Cons:
  assumes "holds_parts name (Suc k) cs (fs(name k \<mapsto> c)) fs'" and "\<And>i j. name i = name j \<longleftrightarrow> i = j"
  shows "holds_parts name k (c # cs) fs fs'"
  unfolding holds_parts_def
proof (intro conjI allI impI)
  fix j assume j: "j < length (c # cs)"
  show "fs' (name (k + j)) = Some ((c # cs) ! j)"
  proof (cases j)
    case 0
    have "name k \<notin> name ` {Suc k..<Suc k + length cs}" using assms(2) by auto
    then show ?thesis using assms(1) 0 by (simp add: holds_parts_def)
  next
    case (Suc j')
    then show ?thesis using assms(1) j by (simp add: holds_parts_def)
  qed
next
  fix x assume x: "x \<notin> name ` {k..<k + length (c # cs)}"
  then have "x \<noteq> name k" "x \<notin> name ` {Suc k..<Suc k + length cs}" by auto
  then show "fs' x = fs x" using assms(1) by (simp add: holds_parts_def)
qed

lemma split_loop_parts:
  "holds_parts (MapName f) k (split_parts n ls buf (Suc k) i) fs
     (split_loop f n ls fs (MapName f k) buf (Suc k) i)"
proof (induction ls arbitrary: k buf i fs)
  case Nil
  show ?case by (simp add: holds_parts_def)
next
  case (Cons l ls)
  show ?case
  proof (cases "i > n * Suc k")
    case True
    have "holds_parts (MapName f) k (buf # (split_parts n ls (l @ [newline]) (Suc (Suc k))
        (i + length l + 1))) fs (split_loop f n ls (fs(MapName f k \<mapsto> buf)) (MapName f (Suc k))
        (l @ [newline]) (Suc (Suc k)) (i + length l + 1))"
      using Cons.IH by (rule holds_parts_Cons) (simp add: file_names)
    with True show ?thesis by (simp add: Let_def)
  next
    case False
    then show ?thesis using Cons.IH [where k = k and fs = fs] by (simp add: Let_def)
  qed
qed

lemma Split_parts:
  assumes "fs f = Some b" and "0 < nMap mr"
  shows "\<exists>fs'. Split mr f fs = Inr fs' \<and> holds_parts (MapName f) 0 (parts (nMap mr) b) fs fs'"
  using split_loop_parts [of f 0] assms by (simp add: Split_def parts_def)

text \<open>
  The number of files. Only the lines before the current one count, and all of those end
  with a newline of the input, so the byte count stays below the size of the input.
\<close>

lemma length_dropCR: "length (dropCR l) \<le> length l"
  by (simp add: dropCR_def)

text \<open>The bytes \<open>Split\<close> writes before the last line of \<open>ls\<close>.\<close>

definition written :: "string list \<Rightarrow> nat" where
  "written ls = sum_list (map (\<lambda>l. length l + 1) ls)"

lemma scan_lines_written: "scan_lines s \<noteq> [] \<Longrightarrow> written (butlast (scan_lines s)) < length s"
proof (induction s rule: scan_lines.induct)
  case (1 s)
  let ?l = "takeWhile (\<lambda>c. c \<noteq> newline) s" and ?r = "dropWhile (\<lambda>c. c \<noteq> newline) s"
  have s: "s \<noteq> []" and l: "length ?l < MaxScanTokenSize"
    and eq: "scan_lines s = dropCR ?l # scan_lines (drop 1 ?r)"
    using 1(2) scan_lines.simps [of s] by (auto simp: Let_def not_le split: if_splits)
  have len: "length s = length ?l + length ?r"
    by (metis length_append takeWhile_dropWhile_id)
  show ?case
  proof (cases "scan_lines (drop 1 ?r) = []")
    case True
    then show ?thesis using s eq by (simp add: written_def)
  next
    case False
    then have "?r \<noteq> []" using scan_lines.simps [of "[]"] by (metis drop_Nil)
    moreover have "written (butlast (scan_lines (drop 1 ?r))) < length (drop 1 ?r)"
      using 1(1) [OF s refl refl] l False by simp
    ultimately show ?thesis
      using eq False len length_dropCR [of ?l] by (simp add: written_def)
  qed
qed

lemma split_parts_length:
  "ls \<noteq> [] \<longrightarrow> i + written (butlast ls) \<le> n * (m + d) \<Longrightarrow>
   length (split_parts n ls buf m i) \<le> Suc d"
proof (induction ls arbitrary: buf m i d)
  case (Cons l ls)
  have w: "ls \<noteq> [] \<Longrightarrow> i + length l + 1 + written (butlast ls) \<le> n * (m + d)"
    and i: "i \<le> n * (m + d)"
    using Cons.prems by (auto simp: written_def split: if_splits)
  show ?case
  proof (cases "i > n * m")
    case True
    then have "d \<noteq> 0" using i by (cases d) auto
    then show ?thesis
      using True w Cons.IH [of "i + length l + 1" "m + 1" "d - 1" "l @ [newline]"] by simp
  next
    case False
    then show ?thesis using w Cons.IH [of "i + length l + 1" m d "buf @ l @ [newline]"] by simp
  qed
qed simp

lemma parts_length: "0 < nmap \<Longrightarrow> length (parts nmap b) \<le> nmap"
proof -
  assume n: "0 < nmap"
  have "length b = length b div nmap * nmap + length b mod nmap" "length b mod nmap < nmap"
    using n by simp_all
  then have "length b \<le> (length b div nmap + 1) * nmap"
    unfolding add_mult_distrib by linarith
  then have "scan_lines b \<noteq> [] \<longrightarrow>
      0 + written (butlast (scan_lines b)) \<le> (length b div nmap + 1) * (1 + (nmap - 1))"
    using scan_lines_written [of b] n by auto
  from split_parts_length [OF this, of "[]"] n show ?thesis by (simp add: parts_def)
qed

text \<open>A text whose lines are short, end with a newline and have no carriage return before it.\<close>

definition text_of :: "string list \<Rightarrow> string" where
  "text_of ls = concat (map (\<lambda>l. l @ [newline]) ls)"

definition plain_line :: "string \<Rightarrow> bool" where
  "plain_line l \<longleftrightarrow> newline \<notin> set l \<and> length l < MaxScanTokenSize \<and> (l = [] \<or> last l \<noteq> CHR 0x0D)"

lemma scan_lines_text: "list_all plain_line ls \<Longrightarrow> scan_lines (text_of ls) = ls"
proof (induction ls)
  case Nil
  then show ?case by (simp add: text_of_def scan_lines.simps)
next
  case (Cons l ls)
  have "\<forall>c \<in> set l. c \<noteq> newline" using Cons.prems by (auto simp: plain_line_def)
  then have t: "takeWhile (\<lambda>c. c \<noteq> newline) (l @ newline # text_of ls) = l"
    "dropWhile (\<lambda>c. c \<noteq> newline) (l @ newline # text_of ls) = newline # text_of ls"
    by (simp_all add: takeWhile_tail)
  have "text_of (l # ls) = l @ newline # text_of ls" by (simp add: text_of_def)
  then show ?case
    using Cons t by (simp add: scan_lines.simps [of "l @ newline # text_of ls"] plain_line_def dropCR_def)
      auto
qed

lemma parts_concat: "concat (parts nmap b) = text_of (scan_lines b)"
  by (simp add: parts_def split_parts_concat text_of_def)

section \<open>Jobs\<close>

lemma try_all_append:
  "try_all op (xs @ ys) s = (case try_all op xs s of Inl e \<Rightarrow> Inl e | Inr t \<Rightarrow> try_all op ys t)"
  by (induction xs arbitrary: s) (auto split: sum.splits)

text \<open>
  The contract of a phase of jobs: while the phase is \<open>ready\<close>, every job of the phase
  succeeds, finishes its own output, keeps the phase ready and leaves the output of the
  finished jobs as it is, so a job may also run twice.
\<close>

locale job_phase =
  fixes job :: "nat \<Rightarrow> 's \<Rightarrow> 'e + 's"
    and ready :: "'s \<Rightarrow> bool"
    and finished :: "nat \<Rightarrow> 's \<Rightarrow> bool"
    and valid :: "nat \<Rightarrow> bool"
  assumes job_runs: "ready s \<Longrightarrow> valid i \<Longrightarrow>
    \<exists>t. job i s = Inr t \<and> ready t \<and> finished i t \<and> (\<forall>j. finished j s \<longrightarrow> finished j t)"
begin

lemma all_run:
  assumes "ready s" and "list_all valid js"
  shows "\<exists>t. try_all job js s = Inr t \<and> ready t \<and> (\<forall>j. j \<in> set js \<or> finished j s \<longrightarrow> finished j t)"
  using assms
proof (induction js arbitrary: s)
  case (Cons j js)
  then obtain t where t: "job j s = Inr t" "ready t" "finished j t" "\<forall>i. finished i s \<longrightarrow> finished i t"
    using job_runs [of s j] by auto
  from Cons.IH [OF t(2)] Cons.prems(2) obtain u where
    "try_all job js t = Inr u" "ready u" "\<forall>i. i \<in> set js \<or> finished i t \<longrightarrow> finished i u" by auto
  with t show ?case by auto
qed simp

end

text \<open>What map job \<open>i\<close> leaves for reduce job \<open>r\<close>.\<close>

definition map_output :: "(string \<Rightarrow> KeyValue list) \<Rightarrow> nat \<Rightarrow> string \<Rightarrow> nat \<Rightarrow> KeyValue list" where
  "map_output Map nreduce b r = map json_kv (filter (in_partition nreduce r) (Map b))"

definition map_file :: "(string \<Rightarrow> KeyValue list) \<Rightarrow> nat \<Rightarrow> string \<Rightarrow> nat \<Rightarrow> string" where
  "map_file Map nreduce b r = concat (map Encode (filter (in_partition nreduce r) (Map b)))"

lemma map_file_read [simp]: "Decode_all (map_file Map nreduce b r) = map_output Map nreduce b r"
  by (simp add: map_file_def map_output_def)

lemma holds_parts_snoc:
  assumes "holds_parts name 0 cs fs fs'" and "\<And>i j. name i = name j \<longleftrightarrow> i = j"
  shows "holds_parts name 0 (cs @ [c]) fs (fs'(name (length cs) \<mapsto> c))"
  using assms by (fastforce simp: holds_parts_def nth_append less_Suc_eq image_iff)

lemma write_files:
  assumes "\<And>i j. name i = name j \<longleftrightarrow> i = j"
  shows "holds_parts name 0 (map c [0..<n]) fs (foldl (\<lambda>fs r. fs(name r \<mapsto> c r)) fs [0..<n])"
proof (induction n)
  case 0
  show ?case by (simp add: holds_parts_def)
next
  case (Suc n)
  from holds_parts_snoc [OF this assms, of "c n"] show ?case by (simp del: fun_upd_apply add: fun_upd_def)
qed

lemma holds_parts_map:
  "holds_parts name 0 (map c [0..<n]) fs fs' \<longleftrightarrow>
     (\<forall>r < n. fs' (name r) = Some (c r)) \<and> (\<forall>x. (\<forall>r < n. x \<noteq> name r) \<longrightarrow> fs' x = fs x)"
proof -
  have "(x \<notin> name ` {0..<n}) = (\<forall>r < n. x \<noteq> name r)" for x by auto
  then show ?thesis by (simp add: holds_parts_def)
qed

lemma nreduce_word: "0 < n \<Longrightarrow> n < 2 ^ 32 \<Longrightarrow> (of_nat n :: 32 word) \<noteq> 0"
  by (simp add: word_of_nat_eq_0_iff) (auto dest: dvd_imp_le)

lemma DoMap_output:
  assumes "fs (MapName f i) = Some b" and "0 < nreduce" and "nreduce < 2 ^ 32"
  shows "\<exists>fs'. DoMap i f nreduce Map fs = Inr fs' \<and>
    (\<forall>r < nreduce. fs' (ReduceName f i r) = Some (map_file Map nreduce b r)) \<and>
    (\<forall>x. (\<forall>r < nreduce. x \<noteq> ReduceName f i r) \<longrightarrow> fs' x = fs x)"
proof -
  have "holds_parts (ReduceName f i) 0 (map (map_file Map nreduce b) [0..<nreduce]) fs
     (foldl (\<lambda>fs r. fs(ReduceName f i r \<mapsto> (map_file Map nreduce b r))) fs [0..<nreduce])"
    by (rule write_files) (simp add: file_names)
  then show ?thesis
    using assms nreduce_word by (simp add: DoMap_def map_file_def [symmetric] holds_parts_map)
qed

text \<open>
  The map phase of a run over the splits \<open>ps\<close>: only intermediate files have changed since
  the file system \<open>fs0\<close> that \<open>Split\<close> left.
\<close>

definition map_ready :: "string \<Rightarrow> nat \<Rightarrow> string list \<Rightarrow> fs \<Rightarrow> fs \<Rightarrow> bool" where
  "map_ready f nreduce ps fs0 fs \<longleftrightarrow> 0 < nreduce \<and> nreduce < 2 ^ 32 \<and>
     (\<forall>i < length ps. fs (MapName f i) = Some (ps ! i)) \<and>
     (\<forall>x. (\<forall>i r. i < length ps \<longrightarrow> r < nreduce \<longrightarrow> x \<noteq> ReduceName f i r) \<longrightarrow> fs x = fs0 x)"

definition map_finished :: "string \<Rightarrow> (string \<Rightarrow> KeyValue list) \<Rightarrow> nat \<Rightarrow> string list \<Rightarrow> nat \<Rightarrow> fs \<Rightarrow> bool" where
  "map_finished f Map nreduce ps i fs \<longleftrightarrow>
     (\<forall>r < nreduce. fs (ReduceName f i r) = Some (map_file Map nreduce (ps ! i) r))"

lemma map_job_runs:
  assumes "map_ready f nreduce ps fs0 fs" and "i < length ps"
  shows "\<exists>fs'. DoMap i f nreduce Map fs = Inr fs' \<and> map_ready f nreduce ps fs0 fs' \<and>
    map_finished f Map nreduce ps i fs' \<and>
    (\<forall>j. map_finished f Map nreduce ps j fs \<longrightarrow> map_finished f Map nreduce ps j fs')"
proof -
  obtain fs' where fs': "DoMap i f nreduce Map fs = Inr fs'"
      "\<forall>r < nreduce. fs' (ReduceName f i r) = Some (map_file Map nreduce (ps ! i) r)"
      "\<forall>x. (\<forall>r < nreduce. x \<noteq> ReduceName f i r) \<longrightarrow> fs' x = fs x"
    using DoMap_output [of fs f i "ps ! i" nreduce Map] assms by (auto simp: map_ready_def)
  have fin: "map_finished f Map nreduce ps i fs'" using fs'(2) by (simp add: map_finished_def)
  have "map_finished f Map nreduce ps j fs'" if j: "map_finished f Map nreduce ps j fs" for j
  proof (cases "j = i")
    case False
    then have "fs' (ReduceName f j r) = fs (ReduceName f j r)" for r
      using fs'(3) by (simp add: file_names)
    then show ?thesis using j by (simp add: map_finished_def)
  qed (use fin in simp)
  moreover have "map_ready f nreduce ps fs0 fs'"
    using assms fs'(3) by (auto simp: map_ready_def file_names)
  ultimately show ?thesis using fs'(1) fin by blast
qed

interpretation map_phase: job_phase "\<lambda>i. DoMap i f nreduce Map" "map_ready f nreduce ps fs0"
  "map_finished f Map nreduce ps" "\<lambda>i. i < length ps" for f nreduce Map ps fs0
  by unfold_locales (rule map_job_runs)

section \<open>Grouping\<close>

text \<open>The values of a key, in the order of the pairs.\<close>

definition group_values :: "KeyValue list \<Rightarrow> string \<Rightarrow> string list" where
  "group_values l k = map Value (filter (\<lambda>kv. Key kv = k) l)"

lemma group_values_Nil [simp]: "group_values [] k = []"
  by (simp add: group_values_def)

lemma group_values_Cons:
  "group_values (kv # l) k = (if Key kv = k then Value kv # group_values l k else group_values l k)"
  by (simp add: group_values_def)

lemma group_values_empty: "group_values l k = [] \<longleftrightarrow> k \<notin> Key ` set l"
  by (induction l) (auto simp: group_values_Cons)

lemma push_values_get:
  "gm_get (foldl push_value kvs l) k =
    (if k \<in> Key ` set l
     then Some ((case gm_get kvs k of None \<Rightarrow> [] | Some vs \<Rightarrow> vs) @ group_values l k)
     else gm_get kvs k)"
proof (induction l arbitrary: kvs)
  case (Cons kv l)
  show ?case
    by (simp add: Cons.IH)
      (auto simp: push_value_def group_values_Cons group_values_empty [symmetric] split: option.splits)
qed simp

lemma push_values_wf: "gm_wf kvs \<Longrightarrow> gm_wf (foldl push_value kvs l)"
  by (induction l arbitrary: kvs) (auto simp: push_value_def split: option.splits)

lemma put_values_get:
  assumes "\<forall>kv \<in> set l. Value kv = g (Key kv)"
  shows "gm_get (foldl put_value kvs l) k = (if k \<in> Key ` set l then Some (g k) else gm_get kvs k)"
  using assms by (induction l arbitrary: kvs) (auto simp: put_value_def)

lemma put_values_wf: "gm_wf kvs \<Longrightarrow> gm_wf (foldl put_value kvs l)"
  by (induction l arbitrary: kvs) (auto simp: put_value_def)

lemma sorted_keys: "gm_wf kvs \<Longrightarrow> sort (map fst kvs) = sorted_list_of_set (gm_keys kvs)"
  by (simp add: gm_wf_def gm_keys_def sorted_list_of_set_sort_remdups distinct_remdups_id del: set_map)

lemma map_sorted_cong:
  "finite A \<Longrightarrow> (\<And>k. k \<in> A \<Longrightarrow> g k = h k) \<Longrightarrow>
   map g (sorted_list_of_set A) = map h (sorted_list_of_set A)"
  by simp

lemma gm_keys_pushed: "gm_keys (foldl push_value [] l) = Key ` set l"
  by (auto simp: gm_keys_dom dom_def push_values_get split: if_splits)

lemma gm_keys_put: "gm_keys (foldl put_value [] l) = Key ` set l"
proof -
  have "gm_keys (foldl put_value kvs l) = gm_keys kvs \<union> Key ` set l" for kvs
    by (induction l arbitrary: kvs) (auto simp: put_value_def)
  then show ?thesis by simp
qed

lemma read_all_pairs:
  "map fs names = map Some bs \<Longrightarrow>
   read_all msg names add kvs fs = Inr (foldl add kvs (concat (map Decode_all bs)))"
proof (induction names arbitrary: kvs bs)
  case (Cons name names)
  then obtain b bs' where "bs = b # bs'" by (cases bs) auto
  with Cons show ?case by simp
qed simp

section \<open>The reduce phase\<close>

definition reduce_input :: "(string \<Rightarrow> KeyValue list) \<Rightarrow> nat \<Rightarrow> string list \<Rightarrow> nat \<Rightarrow> KeyValue list" where
  "reduce_input Map nreduce ps r = concat (map (\<lambda>b. map_output Map nreduce b r) ps)"

definition reduce_output :: "(string \<Rightarrow> string list \<Rightarrow> string) \<Rightarrow> KeyValue list \<Rightarrow> KeyValue list" where
  "reduce_output Reduce l =
     map (\<lambda>k. json_kv \<lparr>Key = k, Value = Reduce k (group_values l k)\<rparr>) (sorted_list_of_set (Key ` set l))"

definition reduce_file :: "(string \<Rightarrow> string list \<Rightarrow> string) \<Rightarrow> KeyValue list \<Rightarrow> string" where
  "reduce_file Reduce l = concat (map Encode
     (map (\<lambda>k. \<lparr>Key = k, Value = Reduce k (group_values l k)\<rparr>) (sorted_list_of_set (Key ` set l))))"

lemma reduce_file_read [simp]: "Decode_all (reduce_file Reduce l) = reduce_output Reduce l"
  unfolding reduce_file_def Decode_all_Encode by (simp add: reduce_output_def)

lemma DoReduce_output:
  assumes "\<forall>i < length ps. fs (ReduceName f i r) = Some (map_file Map nreduce (ps ! i) r)"
  shows "DoReduce r f (length ps) Reduce fs =
    Inr (fs(MergeName f r \<mapsto> reduce_file Reduce (reduce_input Map nreduce ps r)))"
proof -
  let ?l = "reduce_input Map nreduce ps r"
  have "map fs (map (\<lambda>i. ReduceName f i r) [0..<length ps]) =
      map Some (map (\<lambda>b. map_file Map nreduce b r) ps)"
    using assms by (auto intro: nth_equalityI)
  from read_all_pairs [OF this] have
    "read_all ''DoReduce: '' (map (\<lambda>i. ReduceName f i r) [0..<length ps]) push_value [] fs =
      Inr (foldl push_value [] ?l)"
    by (simp add: reduce_input_def comp_def)
  moreover have "sort (map fst (foldl push_value [] ?l)) = sorted_list_of_set (Key ` set ?l)"
    by (simp add: sorted_keys push_values_wf gm_keys_pushed)
  moreover have "lookup_all (foldl push_value [] ?l) k [] = group_values ?l k" if "k \<in> Key ` set ?l" for k
    using that by (simp add: lookup_all_def push_values_get)
  then have "concat (map (\<lambda>k. Encode \<lparr>Key = k, Value = Reduce k (lookup_all (foldl push_value [] ?l) k [])\<rparr>)
      (sorted_list_of_set (Key ` set ?l))) = reduce_file Reduce ?l"
    unfolding reduce_file_def map_map comp_def by (intro arg_cong [of _ _ concat] map_sorted_cong) simp_all
  ultimately show ?thesis
    by (simp add: DoReduce_def Let_def)
qed

text \<open>The reduce phase: all map jobs are finished and only result files have changed since.\<close>

definition reduce_ready :: "string \<Rightarrow> (string \<Rightarrow> KeyValue list) \<Rightarrow> nat \<Rightarrow> string list \<Rightarrow> fs \<Rightarrow> fs \<Rightarrow> bool" where
  "reduce_ready f Map nreduce ps fs0 fs \<longleftrightarrow>
     (\<forall>i < length ps. map_finished f Map nreduce ps i fs) \<and>
     (\<forall>x. (\<forall>r < nreduce. x \<noteq> MergeName f r) \<longrightarrow> fs x = fs0 x)"

definition reduce_finished :: "string \<Rightarrow> (string \<Rightarrow> KeyValue list) \<Rightarrow> (string \<Rightarrow> string list \<Rightarrow> string) \<Rightarrow>
    nat \<Rightarrow> string list \<Rightarrow> nat \<Rightarrow> fs \<Rightarrow> bool" where
  "reduce_finished f Map Reduce nreduce ps r fs \<longleftrightarrow>
     fs (MergeName f r) = Some (reduce_file Reduce (reduce_input Map nreduce ps r))"

lemma reduce_job_runs:
  assumes "reduce_ready f Map nreduce ps fs0 fs" and "r < nreduce"
  shows "\<exists>fs'. DoReduce r f (length ps) Reduce fs = Inr fs' \<and> reduce_ready f Map nreduce ps fs0 fs' \<and>
    reduce_finished f Map Reduce nreduce ps r fs' \<and>
    (\<forall>j. reduce_finished f Map Reduce nreduce ps j fs \<longrightarrow> reduce_finished f Map Reduce nreduce ps j fs')"
proof -
  let ?fs' = "fs(MergeName f r \<mapsto> reduce_file Reduce (reduce_input Map nreduce ps r))"
  have "DoReduce r f (length ps) Reduce fs = Inr ?fs'"
    using assms by (intro DoReduce_output) (simp add: reduce_ready_def map_finished_def)
  moreover have "reduce_ready f Map nreduce ps fs0 ?fs'"
    unfolding reduce_ready_def
  proof (intro conjI allI impI)
    show "map_finished f Map nreduce ps i ?fs'" if "i < length ps" for i
    proof -
      have "map_finished f Map nreduce ps i fs" using assms(1) that by (simp add: reduce_ready_def)
      then show ?thesis by (simp add: map_finished_def file_names)
    qed
    show "?fs' x = fs0 x" if "\<forall>r < nreduce. x \<noteq> MergeName f r" for x
      using assms that by (simp add: reduce_ready_def)
  qed
  ultimately show ?thesis by (auto simp: reduce_finished_def file_names)
qed

interpretation reduce_phase: job_phase "\<lambda>r. DoReduce r f (length ps) Reduce"
  "reduce_ready f Map nreduce ps fs0" "reduce_finished f Map Reduce nreduce ps"
  "\<lambda>r. r < nreduce" for f Map Reduce nreduce ps fs0
  by unfold_locales (rule reduce_job_runs)

section \<open>The result\<close>

text \<open>
  The specification: every key of the pairs that \<open>Map\<close> yields on the splits, in the order
  of the keys, with the result of \<open>Reduce\<close> on all its values.
\<close>

definition mr_result :: "(string \<Rightarrow> string list \<Rightarrow> string) \<Rightarrow> KeyValue list \<Rightarrow> string" where
  "mr_result Reduce l = concat (map (\<lambda>k. k @ '': '' @ Reduce k (group_values l k) @ [newline])
     (sorted_list_of_set (Key ` set l)))"

text \<open>
  What the library needs of the application: its strings are valid UTF-8, so that JSON
  keeps them as they are.
\<close>

locale utf8_app =
  fixes Map :: "string \<Rightarrow> KeyValue list"
    and Reduce :: "string \<Rightarrow> string list \<Rightarrow> string"
  assumes Map_valid: "kv \<in> set (Map b) \<Longrightarrow> valid_utf8 (Key kv) \<and> valid_utf8 (Value kv)"
    and Reduce_valid: "valid_utf8 k \<Longrightarrow> list_all valid_utf8 vs \<Longrightarrow> valid_utf8 (Reduce k vs)"
begin

lemma map_output_filter: "map_output Map nreduce b r = filter (in_partition nreduce r) (Map b)"
proof -
  have "json_kv kv = kv" if "kv \<in> set (Map b)" for kv
    using Map_valid [OF that] by (simp add: json_kv_valid)
  then show ?thesis by (auto simp: map_output_def intro: map_idI)
qed

lemma reduce_input_filter:
  "reduce_input Map nreduce ps r = filter (in_partition nreduce r) (concat (map Map ps))"
  by (simp add: reduce_input_def map_output_filter filter_concat comp_def)

lemma group_valid:
  assumes "set l \<subseteq> set (concat (map Map ps))" and "k \<in> Key ` set l"
  shows "valid_utf8 k" "list_all valid_utf8 (group_values l k)"
  using assms Map_valid by (fastforce simp: group_values_def list_all_iff)+

lemma group_values_partition:
  assumes "kv \<in> set l" and "in_partition nreduce r kv"
  shows "group_values (filter (in_partition nreduce r) l) (Key kv) = group_values l (Key kv)"
proof -
  have "(Key x = Key kv \<and> in_partition nreduce r x) = (Key x = Key kv)" for x
    using assms(2) by (auto simp: in_partition_def)
  then show ?thesis by (simp add: group_values_def conj_commute)
qed

lemma reduce_output_values:
  assumes "kv \<in> set (reduce_output Reduce (reduce_input Map nreduce ps r))"
  shows "Value kv = Reduce (Key kv) (group_values (concat (map Map ps)) (Key kv))"
proof -
  let ?all = "concat (map Map ps)"
  let ?l = "filter (in_partition nreduce r) ?all"
  obtain k where k: "k \<in> Key ` set ?l" "kv = json_kv \<lparr>Key = k, Value = Reduce k (group_values ?l k)\<rparr>"
    using assms by (auto simp: reduce_output_def reduce_input_filter)
  have "valid_utf8 k" "list_all valid_utf8 (group_values ?l k)"
    using group_valid [OF _ k(1)] by auto
  then have "kv = \<lparr>Key = k, Value = Reduce k (group_values ?l k)\<rparr>"
    using k(2) Reduce_valid by (simp add: json_kv_def json_text_valid)
  moreover have "group_values ?l k = group_values ?all k"
    using k(1) by (auto simp: group_values_partition simp del: set_concat)
  ultimately show ?thesis by simp
qed

lemma reduce_output_keys:
  "Key ` set (reduce_output Reduce (reduce_input Map nreduce ps r)) =
     Key ` set (filter (in_partition nreduce r) (concat (map Map ps)))"
proof -
  let ?l = "filter (in_partition nreduce r) (concat (map Map ps))"
  have "Key (json_kv \<lparr>Key = k, Value = v\<rparr>) = k" if "k \<in> Key ` set ?l" for k v
  proof -
    have "set ?l \<subseteq> set (concat (map Map ps))" by (rule filter_is_subset)
    from group_valid(1) [OF this that] show ?thesis by (simp add: json_kv_def json_text_valid)
  qed
  then show ?thesis
    by (simp add: reduce_output_def reduce_input_filter image_image del: set_concat)
qed

end

lemma in_some_partition:
  assumes "0 < nreduce" and "nreduce < 2 ^ 32"
  shows "\<exists>r < nreduce. in_partition nreduce r kv"
proof -
  let ?r = "unat (ihash (Key kv) mod of_nat nreduce)"
  have n: "unat (of_nat nreduce :: 32 word) = nreduce"
    using assms(2) by (simp add: unat_of_nat take_bit_nat_eq_self)
  then have "?r < nreduce" using assms(1) by (simp add: unat_mod_distrib)
  moreover have "in_partition nreduce ?r kv" by (simp add: in_partition_def)
  ultimately show ?thesis by blast
qed

context utf8_app
begin

lemma Merge_output:
  assumes "0 < nReduce mr" and "nReduce mr < 2 ^ 32"
    and "\<forall>r < nReduce mr. reduce_finished (mr_file mr) Map Reduce (nReduce mr) ps r fs"
  shows "Merge mr fs = Inr (fs(out_name (mr_file mr) \<mapsto> (mr_result Reduce (concat (map Map ps)))))"
proof -
  let ?all = "concat (map Map ps)" and ?n = "nReduce mr"
  let ?g = "\<lambda>k. Reduce k (group_values ?all k)"
  define outs where "outs = map (\<lambda>r. reduce_output Reduce (reduce_input Map ?n ps r)) [0..<?n]"
  have "map fs (map (MergeName (mr_file mr)) [0..<?n]) =
      map Some (map (\<lambda>r. reduce_file Reduce (reduce_input Map ?n ps r)) [0..<?n])"
    using assms(3) by (simp add: reduce_finished_def)
  from read_all_pairs [OF this] have rd:
    "read_all ''Merge: '' (map (MergeName (mr_file mr)) [0..<?n]) put_value [] fs =
       Inr (foldl put_value [] (concat outs))" by (simp add: outs_def comp_def)
  have vals: "\<forall>kv \<in> set (concat outs). Value kv = ?g (Key kv)"
    using reduce_output_values by (auto simp: outs_def)
  have "Key ` set (concat outs) = (\<Union>r \<in> {0..<?n}. Key ` set (filter (in_partition ?n r) ?all))"
    by (simp add: outs_def image_UN reduce_output_keys del: set_filter set_concat add: set_concat [of "map _ [0..<?n]"])
  also have "\<dots> = Key ` set ?all"
    using in_some_partition [OF assms(1,2)] by fastforce
  finally have keys: "Key ` set (concat outs) = Key ` set ?all" .
  have "sort (map fst (foldl put_value [] (concat outs))) = sorted_list_of_set (Key ` set ?all)"
    using keys by (simp add: sorted_keys put_values_wf gm_keys_put del: set_concat)
  moreover have "lookup_all (foldl put_value [] (concat outs)) k [] = ?g k" if "k \<in> Key ` set ?all" for k
    using put_values_get [OF vals, of "[]" k] that keys by (simp add: lookup_all_def del: set_concat)
  then have "concat (map (\<lambda>k. k @ '': '' @ lookup_all (foldl put_value [] (concat outs)) k [] @ [newline])
      (sorted_list_of_set (Key ` set ?all))) = mr_result Reduce ?all"
    unfolding mr_result_def by (intro arg_cong [of _ _ concat] map_sorted_cong) simp_all
  ultimately show ?thesis
    by (simp add: Merge_def rd Let_def)
qed

end

section \<open>RunSingle: correctness\<close>

lemma temp_names_mem:
  "x \<in> set (temp_names f n m) \<longleftrightarrow> (\<exists>i < n. x = MapName f i) \<or> (\<exists>i < n. \<exists>r < m. x = ReduceName f i r) \<or>
     (\<exists>r < m. x = MergeName f r) \<or> x = out_name f"
proof -
  have "x \<in> set (concat (map (\<lambda>i. MapName f i # map (ReduceName f i) [0..<m]) js)) \<longleftrightarrow>
      (\<exists>i \<in> set js. x = MapName f i \<or> (\<exists>r < m. x = ReduceName f i r))" for js
    by (induction js) auto
  note names = this [of "[0..<n]"]
  have "x \<in> set (map (MergeName f) [0..<m]) \<longleftrightarrow> (\<exists>r < m. x = MergeName f r)" by auto
  with names show ?thesis
    unfolding temp_names_def set_append Un_iff set_upt Bex_def atLeastLessThan_iff by fastforce
qed

context utf8_app
begin

lemma phases_output:
  assumes "Split mr f fs = Inr fs1" and "holds_parts (MapName f) 0 (ps) fs fs1"
    and "mr = InitMapReduce (length ps) nreduce f []" and "0 < nreduce" and "nreduce < 2 ^ 32"
  shows "\<exists>fs'. RunSingle (length ps) nreduce f Map Reduce fs = Inr fs' \<and>
    fs' (out_name f) = Some (mr_result Reduce (concat (map Map ps))) \<and>
    (\<forall>x. x \<notin> set (temp_names f (length ps) nreduce) \<longrightarrow> fs' x = fs x) \<and>
    (\<forall>x. x \<in> set (temp_names f (length ps) nreduce) \<longrightarrow> fs' x \<noteq> None)"
proof -
  have mr: "nMap mr = length ps" "nReduce mr = nreduce" "mr_file mr = f"
    using assms(3) by (simp_all add: InitMapReduce_def)
  have "map_ready f nreduce ps fs1 fs1"
    using assms(2,4,5) by (simp add: map_ready_def holds_parts_def)
  from map_phase.all_run [OF this, where js = "[0..<length ps]" and Map = Map]
  obtain fs2 where fs2: "try_all (\<lambda>i. DoMap i f nreduce Map) [0..<length ps] fs1 = Inr fs2"
      "map_ready f nreduce ps fs1 fs2" "\<forall>i < length ps. map_finished f Map nreduce ps i fs2"
    by (auto simp: list_all_iff)
  have "reduce_ready f Map nreduce ps fs2 fs2" using fs2(3) by (simp add: reduce_ready_def)
  from reduce_phase.all_run [OF this, where js = "[0..<nreduce]" and Reduce = Reduce]
  obtain fs3 where fs3: "try_all (\<lambda>r. DoReduce r f (length ps) Reduce) [0..<nreduce] fs2 = Inr fs3"
      "reduce_ready f Map nreduce ps fs2 fs3" "\<forall>r < nreduce. reduce_finished f Map Reduce nreduce ps r fs3"
    by (auto simp: list_all_iff)
  let ?fs' = "fs3(out_name f \<mapsto> (mr_result Reduce (concat (map Map ps))))"
  have "Merge mr fs3 = Inr ?fs'"
    using Merge_output [of mr ps fs3] assms(4,5) mr fs3(3) by simp
  then have "RunSingle (length ps) nreduce f Map Reduce fs = Inr ?fs'"
    using assms(1,3) mr fs2(1) fs3(1) by (simp add: RunSingle_def)
  moreover have "?fs' x = fs x" if x: "x \<notin> set (temp_names f (length ps) nreduce)" for x
  proof -
    have "x \<noteq> out_name f" "\<forall>r < nreduce. x \<noteq> MergeName f r"
      "\<forall>i r. i < length ps \<longrightarrow> r < nreduce \<longrightarrow> x \<noteq> ReduceName f i r" "x \<notin> MapName f ` {0..<length ps}"
      using x by (auto simp: temp_names_mem)
    then show ?thesis
      using fs3(2) fs2(2) assms(2) by (simp add: reduce_ready_def map_ready_def holds_parts_def)
  qed
  moreover have "?fs' x \<noteq> None" if x: "x \<in> set (temp_names f (length ps) nreduce)" for x
  proof -
    have "fs3 (MapName f i) = fs2 (MapName f i)" "fs3 (ReduceName f i r) = fs2 (ReduceName f i r)" for i r
      using fs3(2) by (simp_all add: reduce_ready_def file_names)
    then show ?thesis
      using x fs2(2,3) fs3(3)
      by (auto simp: temp_names_mem map_ready_def map_finished_def reduce_finished_def file_names)
  qed
  ultimately show ?thesis by auto
qed

lemma RunSingle_output:
  assumes "fs f = Some b" and "0 < nmap" and "length (parts nmap b) = nmap"
    and "0 < nreduce" and "nreduce < 2 ^ 32"
  shows "\<exists>fs'. RunSingle nmap nreduce f Map Reduce fs = Inr fs' \<and>
    fs' (out_name f) = Some (mr_result Reduce (concat (map Map (parts nmap b)))) \<and>
    (\<forall>x. x \<notin> set (temp_names f nmap nreduce) \<longrightarrow> fs' x = fs x) \<and>
    (\<forall>x. x \<in> set (temp_names f nmap nreduce) \<longrightarrow> fs' x \<noteq> None)"
proof -
  have "nMap (InitMapReduce nmap nreduce f []) = nmap" by (simp add: InitMapReduce_def)
  then obtain fs1 where "Split (InitMapReduce nmap nreduce f []) f fs = Inr fs1"
      "holds_parts (MapName f) 0 (parts nmap b) fs fs1"
    using Split_parts [of fs f b "InitMapReduce nmap nreduce f []"] assms(1,2) by auto
  from phases_output [OF this _ assms(4,5)] assms(3) show ?thesis by simp
qed

end

text \<open>
  C25: the sequential run computes MapReduce. For an application whose strings are valid
  UTF-8 and an input that splits into \<open>nmap\<close> files, \<open>RunSingle\<close> succeeds for every number
  of reduce jobs from 1 to \<open>2 ^ 32 - 1\<close>; its output file lists every key that \<open>Map\<close>
  yields on some split, once and in the order of the keys, with \<open>Reduce\<close> applied to all
  the values of the key in their order; no file but the temporary ones changes.
\<close>

theorem RunSingle_correct:
  assumes "\<And>b kv. kv \<in> set (Map b) \<Longrightarrow> valid_utf8 (Key kv) \<and> valid_utf8 (Value kv)"
    and "\<And>k vs. valid_utf8 k \<Longrightarrow> list_all valid_utf8 vs \<Longrightarrow> valid_utf8 (Reduce k vs)"
    and "fs f = Some b" and "0 < nmap" and "length (parts nmap b) = nmap"
    and "0 < nreduce" and "nreduce < 2 ^ 32"
  shows "\<exists>fs'. RunSingle nmap nreduce f Map Reduce fs = Inr fs' \<and>
    fs' (out_name f) = Some (mr_result Reduce (concat (map Map (parts nmap b)))) \<and>
    (\<forall>x. x \<notin> set (temp_names f nmap nreduce) \<longrightarrow> fs' x = fs x)"
proof -
  have app: "utf8_app Map Reduce" by unfold_locales (use assms(1,2) in blast)+
  from utf8_app.RunSingle_output [OF app, of fs f b nmap nreduce] assms(3-) show ?thesis by blast
qed

lemma missing_split:
  assumes "fs f = Some b" and "length (parts nmap b) < nmap"
    and "fs (MapName f (length (parts nmap b))) = None" and "0 < nreduce" and "nreduce < 2 ^ 32"
  shows "RunSingle nmap nreduce f Map Reduce fs = Inl (Fatal ''DoMap: '' (MapName f (length (parts nmap b))))"
proof -
  let ?mr = "InitMapReduce nmap nreduce f []" and ?ps = "parts nmap b"
  have mr: "nMap ?mr = nmap" "nReduce ?mr = nreduce" "mr_file ?mr = f" by (simp_all add: InitMapReduce_def)
  obtain fs1 where fs1: "Split ?mr f fs = Inr fs1" "holds_parts (MapName f) 0 ?ps fs fs1"
    using Split_parts [of fs f b ?mr] assms(1,2) mr by auto
  then have "map_ready f nreduce ?ps fs1 fs1"
    using assms(4,5) by (simp add: map_ready_def holds_parts_def)
  from map_phase.all_run [OF this, where js = "[0..<length ?ps]" and Map = Map]
  obtain fs2 where fs2: "try_all (\<lambda>i. DoMap i f nreduce Map) [0..<length ?ps] fs1 = Inr fs2"
      "map_ready f nreduce ?ps fs1 fs2"
    by (auto simp: list_all_iff)
  have "MapName f (length ?ps) \<notin> MapName f ` {0..<length ?ps}" by (auto simp: file_names)
  then have "fs2 (MapName f (length ?ps)) = None"
    using fs2(2) fs1(2) assms(3) by (simp add: map_ready_def holds_parts_def file_names)
  then have fail: "DoMap (length ?ps) f nreduce Map fs2 = Inl (Fatal ''DoMap: '' (MapName f (length ?ps)))"
    by (simp add: DoMap_def)
  have "[0..<nmap] = [0..<length ?ps] @ length ?ps # [Suc (length ?ps)..<nmap]"
    using assms(2) upt_add_eq_append [of 0 "length ?ps" "nmap - length ?ps"] by (simp add: upt_conv_Cons)
  then have "try_all (\<lambda>i. DoMap i f nreduce Map) [0..<nmap] fs1 =
      Inl (Fatal ''DoMap: '' (MapName f (length ?ps)))"
    by (simp only: try_all_append fs2(1) fail try_all.simps sum.case)
  then show ?thesis using fs1(1) mr by (simp add: RunSingle_def Let_def)
qed

text \<open>
  C34: an input that does not fill all splits ends the run. When \<open>Split\<close> makes fewer than
  \<open>nmap\<close> files, as it does for a short input or for long lines, and no file of that name
  is left from an earlier run, \<open>RunSingle\<close> ends in \<open>log.Fatal\<close> at the first map job
  without a file.
\<close>

theorem RunSingle_missing_split:
  assumes "fs f = Some b" and "length (parts nmap b) < nmap"
    and "\<And>x. x \<in> set (temp_names f nmap nreduce) \<Longrightarrow> fs x = None"
    and "0 < nreduce" and "nreduce < 2 ^ 32"
  shows "RunSingle nmap nreduce f Map Reduce fs =
    Inl (Fatal ''DoMap: '' (MapName f (length (parts nmap b))))"
proof -
  have "fs (MapName f (length (parts nmap b))) = None"
    using assms(2) by (intro assms(3)) (auto simp: temp_names_mem)
  with assms show ?thesis by (intro missing_split)
qed

text \<open>
  \<open>Split\<close> loses nothing and makes no surplus file. It succeeds on every existing input
  with at least one map job; the files \<open>0\<close> to \<open>k - 1\<close> it writes, \<open>k\<close> between 1 and the
  number of map jobs, contain together, in this order, the scanned lines, each ended by a
  newline; for a text of plain lines that is the input itself; all other files stay.
\<close>

theorem Split_lossless:
  assumes "fs f = Some b" and "0 < nMap mr"
  shows "\<exists>fs' ps. Split mr f fs = Inr fs' \<and> 1 \<le> length ps \<and> length ps \<le> nMap mr \<and>
    (\<forall>i < length ps. fs' (MapName f i) = Some (ps ! i)) \<and>
    (\<forall>x. (\<forall>i < length ps. x \<noteq> MapName f i) \<longrightarrow> fs' x = fs x) \<and>
    concat ps = text_of (scan_lines b) \<and>
    (\<forall>ls. b = text_of ls \<and> list_all plain_line ls \<longrightarrow> concat ps = b)"
proof -
  obtain fs' where fs': "Split mr f fs = Inr fs'"
      "holds_parts (MapName f) 0 (parts (nMap mr) b) fs fs'"
    using Split_parts assms by blast
  have "(\<forall>i < length (parts (nMap mr) b). x \<noteq> MapName f i) = (x \<notin> MapName f ` {0..<length (parts (nMap mr) b)})"
    for x by auto
  moreover have "1 \<le> length (parts (nMap mr) b)"
    using split_parts_not_Nil by (simp add: parts_def Suc_le_eq)
  moreover have "concat (parts (nMap mr) b) = b" if "b = text_of ls" "list_all plain_line ls" for ls
    using that scan_lines_text [OF that(2)] by (simp add: parts_concat)
  ultimately show ?thesis
    using fs' parts_length [OF assms(2), of b] parts_concat [of "nMap mr" b]
    by (intro exI [of _ fs'] exI [of _ "parts (nMap mr) b"]) (simp add: holds_parts_def)
qed

section \<open>CleanupFiles\<close>

lemma distinct_temp_names: "distinct (temp_names f n m)"
proof -
  let ?g = "\<lambda>i. MapName f i # map (ReduceName f i) [0..<m]"
  have "distinct (concat (map ?g [0..<n]))"
  proof (rule distinct_concat)
    show "distinct (map ?g [0..<n])" by (simp add: distinct_map inj_on_def file_names)
    show "distinct ys" if "ys \<in> set (map ?g [0..<n])" for ys
      using that by (auto simp: distinct_map inj_on_def file_names)
    show "set xs \<inter> set ys = {}" if "xs \<in> set (map ?g [0..<n])" "ys \<in> set (map ?g [0..<n])" "xs \<noteq> ys" for xs ys
      using that by (auto simp: file_names)
  qed
  then show ?thesis by (auto simp: temp_names_def distinct_map inj_on_def file_names)
qed

lemma remove_all:
  assumes "distinct names" and "\<forall>x \<in> set names. fs x \<noteq> None"
  shows "try_all RemoveFile names fs = Inr (\<lambda>x. if x \<in> set names then None else fs x)"
  using assms
proof (induction names arbitrary: fs)
  case (Cons n names)
  then obtain c where c: "fs n = Some c" by auto
  have "\<forall>x \<in> set names. (fs(n := None)) x \<noteq> None" using Cons.prems by auto
  from Cons.IH [OF _ this] Cons.prems c show ?case
    by (auto simp: RemoveFile_def fun_eq_iff simp del: fun_upd_apply) (auto simp: fun_upd_def)
qed simp

text \<open>
  \<open>CleanupFiles\<close> after a successful \<open>RunSingle\<close> succeeds and leaves the file system as
  it was before the run, up to the temporary files themselves, which are gone.
\<close>

theorem CleanupFiles_after_RunSingle:
  assumes "\<And>b kv. kv \<in> set (Map b) \<Longrightarrow> valid_utf8 (Key kv) \<and> valid_utf8 (Value kv)"
    and "\<And>k vs. valid_utf8 k \<Longrightarrow> list_all valid_utf8 vs \<Longrightarrow> valid_utf8 (Reduce k vs)"
    and "fs f = Some b" and "0 < nmap" and "length (parts nmap b) = nmap"
    and "0 < nreduce" and "nreduce < 2 ^ 32"
    and "RunSingle nmap nreduce f Map Reduce fs = Inr fs'"
  shows "CleanupFiles (InitMapReduce nmap nreduce f master) fs' =
    Inr (\<lambda>x. if x \<in> set (temp_names f nmap nreduce) then None else fs x)"
proof -
  have app: "utf8_app Map Reduce" by unfold_locales (use assms(1,2) in blast)+
  from utf8_app.RunSingle_output [OF app, of fs f b nmap nreduce] assms(3-)
  have "\<forall>x. x \<notin> set (temp_names f nmap nreduce) \<longrightarrow> fs' x = fs x"
    "\<forall>x \<in> set (temp_names f nmap nreduce). fs' x \<noteq> None" by auto
  then show ?thesis
    using remove_all [OF distinct_temp_names, of f nmap nreduce fs']
    by (auto simp: CleanupFiles_def InitMapReduce_def fun_eq_iff)
qed

section \<open>Witnesses\<close>

text \<open>A text of three lines; \<open>Map\<close> yields one pair per split and \<open>Reduce\<close> counts them.\<close>

definition demo_text :: string where
  "demo_text = text_of [''aaa'', ''b'', ''c'']"

definition demo_fs :: fs where
  "demo_fs = [''f'' \<mapsto> demo_text]"

definition demo_Map :: "string \<Rightarrow> KeyValue list" where
  "demo_Map b = [\<lparr>Key = ''x'', Value = ''1''\<rparr>]"

definition demo_Reduce :: "string \<Rightarrow> string list \<Rightarrow> string" where
  "demo_Reduce k vs = Itoa (int (length vs))"

lemma demo_app:
  "kv \<in> set (demo_Map b) \<Longrightarrow> valid_utf8 (Key kv) \<and> valid_utf8 (Value kv)"
  "valid_utf8 (demo_Reduce k vs)"
  by (simp_all add: demo_Map_def demo_Reduce_def valid_utf8_Itoa valid_utf8_ascii byte_def)

lemma demo_scan: "scan_lines demo_text = [''aaa'', ''b'', ''c'']"
  unfolding demo_text_def by (rule scan_lines_text) (simp add: plain_line_def MaxScanTokenSize_def)

lemma demo_parts:
  "parts 2 demo_text = [text_of [''aaa'', ''b''], text_of [''c'']]" "length (parts 3 demo_text) = 2"
  by (simp_all add: parts_def demo_scan) (simp_all add: demo_text_def text_of_def)

lemma demo_count: "Itoa 2 = ''2''"
  by code_simp

lemma demo_result: "mr_result demo_Reduce (concat (map demo_Map (parts 2 demo_text))) = ''x: 2'' @ [newline]"
  using demo_count by (simp add: demo_parts demo_Map_def mr_result_def demo_Reduce_def group_values_def)

theorem RunSingle_correct_witness:
  "\<exists>fs'. RunSingle 2 3 ''f'' demo_Map demo_Reduce demo_fs = Inr fs' \<and>
     fs' (out_name ''f'') = Some (''x: 2'' @ [newline])"
proof -
  have "\<exists>fs'. RunSingle 2 3 ''f'' demo_Map demo_Reduce demo_fs = Inr fs' \<and>
    fs' (out_name ''f'') = Some (mr_result demo_Reduce (concat (map demo_Map (parts 2 demo_text)))) \<and>
    (\<forall>x. x \<notin> set (temp_names ''f'' 2 3) \<longrightarrow> fs' x = demo_fs x)"
    by (rule RunSingle_correct) (simp_all add: demo_app demo_parts demo_fs_def)
  then show ?thesis using demo_result by auto
qed

theorem RunSingle_missing_split_witness:
  "RunSingle 3 2 ''f'' demo_Map demo_Reduce demo_fs = Inl (Fatal ''DoMap: '' (MapName ''f'' 2))"
proof -
  have "RunSingle 3 2 ''f'' demo_Map demo_Reduce demo_fs =
      Inl (Fatal ''DoMap: '' (MapName ''f'' (length (parts 3 demo_text))))"
    by (rule RunSingle_missing_split)
      (auto simp: demo_parts demo_fs_def temp_names_mem file_names input_name_neq [of "''f''"])
  then show ?thesis by (simp add: demo_parts)
qed

theorem Split_lossless_witness:
  "\<exists>fs' ps. Split (InitMapReduce 2 3 ''f'' []) ''f'' demo_fs = Inr fs' \<and> concat ps = demo_text \<and>
     (\<forall>i < length ps. fs' (MapName ''f'' i) = Some (ps ! i))"
proof -
  have "demo_fs ''f'' = Some demo_text" "0 < nMap (InitMapReduce 2 3 ''f'' [])"
    by (simp_all add: demo_fs_def InitMapReduce_def)
  from Split_lossless [of demo_fs "''f''", OF this] show ?thesis
    by (auto simp: demo_scan) (auto simp: demo_text_def)
qed

theorem CleanupFiles_after_RunSingle_witness:
  "\<exists>fs'. RunSingle 2 3 ''f'' demo_Map demo_Reduce demo_fs = Inr fs' \<and>
     CleanupFiles (InitMapReduce 2 3 ''f'' []) fs' =
       Inr (\<lambda>x. if x \<in> set (temp_names ''f'' 2 3) then None else demo_fs x)"
proof -
  have "utf8_app demo_Map demo_Reduce" by unfold_locales (use demo_app in auto)
  from utf8_app.RunSingle_output [OF this, of demo_fs "''f''" demo_text 2 3]
  obtain fs' where fs': "RunSingle 2 3 ''f'' demo_Map demo_Reduce demo_fs = Inr fs'"
    by (auto simp: demo_parts demo_fs_def)
  have "CleanupFiles (InitMapReduce 2 3 ''f'' []) fs' =
       Inr (\<lambda>x. if x \<in> set (temp_names ''f'' 2 3) then None else demo_fs x)"
    by (rule CleanupFiles_after_RunSingle [OF _ _ _ _ _ _ _ fs', of demo_text])
      (simp_all add: demo_app demo_parts demo_fs_def)
  with fs' show ?thesis by blast
qed

end
