(* ===== verification/Wordcount.thy ===== *)
theory Wordcount
  imports Mapreduce
begin

text \<open>
  The word count application (\<open>main/wc.go\<close>): its \<open>Map\<close>, \<open>Reduce\<close> and \<open>main\<close>, and the
  end-to-end statement about the file it writes.
\<close>

section \<open>Application\<close>

definition wc_Map :: "(nat \<Rightarrow> bool) \<Rightarrow> string \<Rightarrow> KeyValue list" where
  "wc_Map table value = map (\<lambda>s. \<lparr>Key = s, Value = ''1''\<rparr>)
     (FieldsFunc value (\<lambda>r. if \<not> IsLetter table r then True else False))"

text \<open>
  The value \<open>strconv.Atoi\<close> returns beside its error: 0 for a text that is no number and
  the nearest 64-bit integer for a number out of range.
\<close>

definition Atoi_value :: "string \<Rightarrow> int" where
  "Atoi_value s = (case Atoi s of None \<Rightarrow> 0 | Some n \<Rightarrow> max (- (2 ^ 63)) (min (2 ^ 63 - 1) n))"

definition wc_Reduce :: "string \<Rightarrow> string list \<Rightarrow> string" where
  "wc_Reduce key values =
     Itoa (sint (foldl (\<lambda>result v. result + word_of_int (Atoi_value v)) (0 :: 64 word) values))"

text \<open>\<open>main\<close>: what the program does with its arguments.\<close>

datatype action = Usage | Sequential string | RunAsMaster string string | RunAsWorker string string

definition wc_main :: "string list \<Rightarrow> action" where
  "wc_main args =
    (if length args \<noteq> 4 then Usage
     else if args ! 1 = ''master'' then
       (if args ! 3 = ''sequential'' then Sequential (args ! 2) else RunAsMaster (args ! 2) (args ! 3))
     else RunAsWorker (args ! 2) (args ! 3))"

definition wc_sequential :: "(nat \<Rightarrow> bool) \<Rightarrow> string \<Rightarrow> fs \<Rightarrow> failure + fs" where
  "wc_sequential table f fs = RunSingle 5 3 f (wc_Map table) wc_Reduce fs"

section \<open>Words\<close>

text \<open>The words of a text: its maximal runs of letters.\<close>

definition words :: "(nat \<Rightarrow> bool) \<Rightarrow> string \<Rightarrow> string list" where
  "words table s = FieldsFunc s (\<lambda>r. \<not> IsLetter table r)"

definition wc_result :: "string list \<Rightarrow> string" where
  "wc_result ws = concat (map (\<lambda>w. w @ '': '' @ Itoa (int (count_list ws w)) @ [newline])
     (sorted_list_of_set (set ws)))"

lemma wc_Map_words: "wc_Map table s = map (\<lambda>w. \<lparr>Key = w, Value = ''1''\<rparr>) (words table s)"
  by (simp add: wc_Map_def words_def)

lemma words_Nil [simp]: "words table [] = []"
  by (simp add: words_def FieldsFunc_def)

lemma words_line: "words table (l @ newline # s) = words table l @ words table s"
  by (simp add: words_def FieldsFunc_newline IsLetter_def)

lemma words_text: "words table (text_of ls @ s) = words table (text_of ls) @ words table s"
proof (induction ls)
  case (Cons l ls)
  have "text_of (l # ls) = l @ newline # text_of ls" by (simp add: text_of_def)
  with Cons show ?case using words_line [of table l "text_of ls @ s"] words_line [of table l "text_of ls"]
    by simp
qed (simp add: text_of_def)

text \<open>Every split is a sequence of whole lines, so no word is cut.\<close>

lemma text_of_append: "text_of (ls @ ms) = text_of ls @ text_of ms"
  by (simp add: text_of_def)

lemma split_parts_lines:
  "p \<in> set (split_parts n ls (text_of bs) m i) \<Longrightarrow> \<exists>ms. p = text_of ms"
proof (induction ls arbitrary: bs m i)
  case (Cons l ls)
  have "text_of [l] = l @ [newline]" "text_of (bs @ [l]) = text_of bs @ l @ [newline]"
    by (simp_all add: text_of_def)
  with Cons show ?case by (auto split: if_splits) metis+
qed auto

lemma words_concat:
  "(\<And>p. p \<in> set ps \<Longrightarrow> \<exists>ms. p = text_of ms) \<Longrightarrow> concat (map (words table) ps) = words table (concat ps)"
proof (induction ps)
  case (Cons p ps)
  then obtain ms where "p = text_of ms" by fastforce
  with Cons show ?case by (simp add: words_text)
qed simp

lemma words_parts: "concat (map (words table) (parts nmap b)) = words table (text_of (scan_lines b))"
proof -
  have "\<exists>ms. p = text_of ms" if "p \<in> set (parts nmap b)" for p
    using that split_parts_lines [of p _ _ "[]"] by (simp add: parts_def text_of_def)
  from words_concat [OF this] show ?thesis by (simp add: parts_concat)
qed

section \<open>Counting\<close>

lemma Atoi_value_one: "Atoi_value ''1'' = 1"
  by code_simp

lemma sum_ones: "foldl (\<lambda>result v. result + word_of_int (Atoi_value v)) (w :: 64 word) (replicate n ''1'') = w + of_nat n"
  by (induction n arbitrary: w) (simp_all add: Atoi_value_one add.assoc)

lemma wc_Reduce_ones:
  assumes "n < 2 ^ 63"
  shows "wc_Reduce k (replicate n ''1'') = Itoa (int n)"
proof -
  have "sint (of_nat n :: 64 word) = int n"
    using assms by (simp add: signed_of_nat signed_take_bit_int_eq_self)
  then show ?thesis by (simp add: wc_Reduce_def sum_ones)
qed

lemma group_values_words:
  "group_values (map (\<lambda>w. \<lparr>Key = w, Value = v\<rparr>) ws) k = replicate (count_list ws k) v"
  by (induction ws) (auto simp: group_values_def)

interpretation wc: utf8_app "wc_Map table" wc_Reduce for table
proof unfold_locales
  fix kv b assume "kv \<in> set (wc_Map table b)"
  then obtain w where w: "w \<in> set (words table b)" "kv = \<lparr>Key = w, Value = ''1''\<rparr>"
    by (auto simp: wc_Map_words)
  have "valid_utf8 w"
    using w(1) unfolding words_def by (rule FieldsFunc_valid [rotated]) (simp add: IsLetter_def RuneError_def)
  then show "valid_utf8 (Key kv) \<and> valid_utf8 (Value kv)"
    using w(2) by (simp add: valid_utf8_ascii byte_def)
next
  fix k vs show "valid_utf8 (wc_Reduce k vs)" by (simp add: wc_Reduce_def valid_utf8_Itoa)
qed

lemma wc_Map_concat:
  "concat (map (wc_Map table) ps) = map (\<lambda>w. \<lparr>Key = w, Value = ''1''\<rparr>) (concat (map (words table) ps))"
  by (simp add: wc_Map_words [abs_def] map_concat comp_def)

lemma mr_result_words:
  assumes "length ws < 2 ^ 63"
  shows "mr_result wc_Reduce (map (\<lambda>w. \<lparr>Key = w, Value = ''1''\<rparr>) ws) = wc_result ws"
proof -
  have "wc_Reduce k (replicate (count_list ws k) ''1'') = Itoa (int (count_list ws k))" for k
    using count_le_length [of ws k] assms by (intro wc_Reduce_ones) simp
  then show ?thesis
    by (simp add: mr_result_def wc_result_def group_values_words image_image)
qed

text \<open>
  C21: the word count is exact on inputs that fill all splits. When the input yields as many
  split files as there are map jobs (a short input may yield fewer, and the run then ends with an
  error), the output file of the sequential run lists every word of the text the scanner reads
  once, in byte order, with the number of its occurrences. The scanner reads the whole input if
  that consists of lines of less than 65536 bytes that end in a newline without a carriage return
  before it; for a longer line it stops.
\<close>

theorem wordcount_exact:
  assumes "fs f = Some b" and "0 < nmap" and "length (parts nmap b) = nmap"
    and "0 < nreduce" and "nreduce < 2 ^ 32"
    and "length (words table (text_of (scan_lines b))) < 2 ^ 63"
  shows "\<exists>fs'. RunSingle nmap nreduce f (wc_Map table) wc_Reduce fs = Inr fs' \<and>
    fs' (out_name f) = Some (wc_result (words table (text_of (scan_lines b)))) \<and>
    (\<forall>ls. b = text_of ls \<and> list_all plain_line ls \<longrightarrow> text_of (scan_lines b) = b)"
proof -
  have "mr_result wc_Reduce (concat (map (wc_Map table) (parts nmap b))) =
      wc_result (words table (text_of (scan_lines b)))"
    using mr_result_words [OF assms(6)] by (simp add: wc_Map_concat words_parts)
  with wc.RunSingle_output [of fs f b nmap nreduce table, OF assms(1-5)] scan_lines_text
  show ?thesis by auto
qed

definition song :: string where
  "song = text_of [''row row row'', ''your boat'', ''row'']"

lemma song_scan: "scan_lines song = [''row row row'', ''your boat'', ''row'']"
  unfolding song_def by (rule scan_lines_text) (simp add: plain_line_def MaxScanTokenSize_def)

lemma song_words: "words (\<lambda>r. False) song = [''row'', ''row'', ''row'', ''your'', ''boat'', ''row'']"
  by code_simp

lemma song_parts: "length (parts 2 song) = 2"
  by (simp add: parts_def song_scan) (simp add: song_def text_of_def)

lemma song_counts: "wc_result (words (\<lambda>r. False) song) = text_of [''boat: 1'', ''row: 4'', ''your: 1'']"
  unfolding song_words by code_simp

theorem wordcount_exact_witness:
  "\<exists>fs'. RunSingle 2 3 ''f'' (wc_Map (\<lambda>r. False)) wc_Reduce [''f'' \<mapsto> song] = Inr fs' \<and>
     fs' (out_name ''f'') = Some (text_of [''boat: 1'', ''row: 4'', ''your: 1''])"
proof -
  have t: "text_of (scan_lines song) = song" by (simp add: song_scan) (simp add: song_def)
  have "\<exists>fs'. RunSingle 2 3 ''f'' (wc_Map (\<lambda>r. False)) wc_Reduce [''f'' \<mapsto> song] = Inr fs' \<and>
     fs' (out_name ''f'') = Some (wc_result (words (\<lambda>r. False) song))"
    using wordcount_exact [of "[''f'' \<mapsto> song]" "''f''" song 2 3 "\<lambda>r. False"]
    by (auto simp: t song_words song_parts)
  then show ?thesis by (simp add: song_counts)
qed

end
