(* ===== verification/Mapreduce_Master.thy ===== *)
theory Mapreduce_Master
  imports Wordcount "HOL-Library.Multiset"
begin

text \<open>
  The distributed run (\<open>mapreduce/master.go\<close>, \<open>mapreduce/worker.go\<close>, \<open>mapreduce/common.go\<close>
  and \<open>Run\<close> of \<open>mapreduce/mapreduce.go\<close>): the master's select loop, one \<open>RunWorker\<close>
  goroutine per registration, the jobs the workers execute on the shared file system, and
  failing workers.
\<close>

section \<open>Remote calls\<close>

datatype JobType = JMap | JReduce

record DoJobArgs =
  File :: string
  Operation :: JobType
  JobNumber :: nat
  NumOtherPhase :: nat

text \<open>\<open>Worker.DoJob\<close> on the shared file system. A job that fails ends the worker's process.\<close>

definition DoJob :: "(string \<Rightarrow> KeyValue list) \<Rightarrow> (string \<Rightarrow> string list \<Rightarrow> string) \<Rightarrow>
    DoJobArgs \<Rightarrow> fs \<Rightarrow> failure + fs" where
  "DoJob Map Reduce arg fs = (case Operation arg of
       JMap \<Rightarrow> DoMap (JobNumber arg) (File arg) (NumOtherPhase arg) Map fs
     | JReduce \<Rightarrow> DoReduce (JobNumber arg) (File arg) (NumOtherPhase arg) Reduce fs)"

section \<open>The master\<close>

text \<open>
  A \<open>RunWorker\<close> goroutine of the master: in one of its two loops, in the remote call for a
  job of the phase, or returned.
\<close>

datatype wstate = MapLoop | MapCall nat | ReduceLoop | ReduceCall nat | Returned

record cluster =
  mr :: MapReduce
  gos :: "(string \<times> wstate) list"
  mapCount :: nat
  reduceCount :: nat
  returned :: bool
  disk :: fs

datatype mr_event = ERegister string
  | ETakeMap nat | ETakeStart nat | EMapOk nat | EMapFail nat "(nat \<times> string) list"
  | ETakeReduce nat | EReduceEmpty nat | EReduceOk nat | EReduceFail nat "string option"
  | EMasterMap | EMasterReduce

definition map_args :: "MapReduce \<Rightarrow> nat \<Rightarrow> DoJobArgs" where
  "map_args m j = \<lparr>File = mr_file m, Operation = JMap, JobNumber = j, NumOtherPhase = nReduce m\<rparr>"

definition reduce_args :: "MapReduce \<Rightarrow> nat \<Rightarrow> DoJobArgs" where
  "reduce_args m j = \<lparr>File = mr_file m, Operation = JReduce, JobNumber = j, NumOtherPhase = nMap m\<rparr>"

definition go_state :: "cluster \<Rightarrow> nat \<Rightarrow> wstate option" where
  "go_state s i = (if i < length (gos s) then Some (snd (gos s ! i)) else None)"

definition set_go :: "nat \<Rightarrow> wstate \<Rightarrow> cluster \<Rightarrow> cluster" where
  "set_go i w s = s\<lparr>gos := (gos s)[i := (fst (gos s ! i), w)]\<rparr>"

text \<open>
  The first loop of \<open>RunWorker\<close>. A call that fails may have written some of the output
  files of its job.
\<close>

definition take_map :: "nat \<Rightarrow> cluster \<Rightarrow> cluster option" where
  "take_map i s = (case (go_state s i, mapJobs (mr s)) of
       (Some MapLoop, j # js) \<Rightarrow> Some (set_go i (MapCall j) (s\<lparr>mr := (mr s)\<lparr>mapJobs := js\<rparr>\<rparr>))
     | _ \<Rightarrow> None)"

definition take_start :: "nat \<Rightarrow> cluster \<Rightarrow> cluster option" where
  "take_start i s = (if go_state s i = Some MapLoop \<and> reduceStart_closed (mr s)
     then Some (set_go i ReduceLoop s) else None)"

definition map_ok :: "(string \<Rightarrow> KeyValue list) \<Rightarrow> (string \<Rightarrow> string list \<Rightarrow> string) \<Rightarrow>
    nat \<Rightarrow> cluster \<Rightarrow> cluster option" where
  "map_ok Map Reduce i s = (case go_state s i of
       Some (MapCall j) \<Rightarrow> (case DoJob Map Reduce (map_args (mr s) j) (disk s) of
           Inl _ \<Rightarrow> None
         | Inr fs \<Rightarrow> Some (set_go i MapLoop (s\<lparr>mr := (mr s)\<lparr>mapDone := mapDone (mr s) + 1\<rparr>, disk := fs\<rparr>)))
     | _ \<Rightarrow> None)"

definition map_fail :: "nat \<Rightarrow> (nat \<times> string) list \<Rightarrow> cluster \<Rightarrow> cluster option" where
  "map_fail i ws s = (case go_state s i of
       Some (MapCall j) \<Rightarrow> Some (set_go i Returned
         (s\<lparr>mr := (mr s)\<lparr>mapJobs := mapJobs (mr s) @ [j]\<rparr>,
            disk := foldl (\<lambda>fs (r, c). fs(ReduceName (mr_file (mr s)) j r \<mapsto> c)) (disk s)
                      (filter (\<lambda>(r, c). r < nReduce (mr s)) ws)\<rparr>))
     | _ \<Rightarrow> None)"

text \<open>The second loop of \<open>RunWorker\<close>.\<close>

definition take_reduce :: "nat \<Rightarrow> cluster \<Rightarrow> cluster option" where
  "take_reduce i s = (case (go_state s i, reduceJobs (mr s)) of
       (Some ReduceLoop, j # js) \<Rightarrow> Some (set_go i (ReduceCall j) (s\<lparr>mr := (mr s)\<lparr>reduceJobs := js\<rparr>\<rparr>))
     | _ \<Rightarrow> None)"

definition reduce_empty :: "nat \<Rightarrow> cluster \<Rightarrow> cluster option" where
  "reduce_empty i s = (if go_state s i = Some ReduceLoop \<and> reduceJobs (mr s) = []
     then Some (set_go i Returned s) else None)"

definition reduce_ok :: "(string \<Rightarrow> KeyValue list) \<Rightarrow> (string \<Rightarrow> string list \<Rightarrow> string) \<Rightarrow>
    nat \<Rightarrow> cluster \<Rightarrow> cluster option" where
  "reduce_ok Map Reduce i s = (case go_state s i of
       Some (ReduceCall j) \<Rightarrow> (case DoJob Map Reduce (reduce_args (mr s) j) (disk s) of
           Inl _ \<Rightarrow> None
         | Inr fs \<Rightarrow> Some (set_go i ReduceLoop
             (s\<lparr>mr := (mr s)\<lparr>reduceDone := reduceDone (mr s) + 1\<rparr>, disk := fs\<rparr>)))
     | _ \<Rightarrow> None)"

definition reduce_fail :: "nat \<Rightarrow> string option \<Rightarrow> cluster \<Rightarrow> cluster option" where
  "reduce_fail i w s = (case go_state s i of
       Some (ReduceCall j) \<Rightarrow> Some (set_go i Returned
         (s\<lparr>mr := (mr s)\<lparr>reduceJobs := reduceJobs (mr s) @ [j]\<rparr>,
            disk := (case w of None \<Rightarrow> disk s | Some c \<Rightarrow> (disk s)(MergeName (mr_file (mr s)) j \<mapsto> c))\<rparr>))
     | _ \<Rightarrow> None)"

text \<open>The select loop of \<open>RunMaster\<close>.\<close>

definition master_register :: "string \<Rightarrow> cluster \<Rightarrow> cluster option" where
  "master_register w s = (if returned s then None
     else Some (s\<lparr>gos := gos s @ [(w, MapLoop)], mr := (mr s)\<lparr>Workers := gm_set w w (Workers (mr s))\<rparr>\<rparr>))"

definition master_map :: "cluster \<Rightarrow> cluster option" where
  "master_map s = (if returned s \<or> mapDone (mr s) = 0 then None
     else let n = mapCount s + 1; m = (mr s)\<lparr>mapDone := mapDone (mr s) - 1\<rparr> in
       Some (s\<lparr>mapCount := n, mr := (if n = nMap m then m\<lparr>reduceStart_closed := True\<rparr> else m)\<rparr>))"

definition master_reduce :: "cluster \<Rightarrow> cluster option" where
  "master_reduce s = (if returned s \<or> reduceDone (mr s) = 0 then None
     else let n = reduceCount s + 1; m = (mr s)\<lparr>reduceDone := reduceDone (mr s) - 1\<rparr> in
       Some (s\<lparr>reduceCount := n, mr := m, returned := (n = nReduce m)\<rparr>))"

text \<open>
  \<open>KillWorkers\<close>: the numbers of jobs that the workers that can be reached report;
  \<open>shutdown\<close> yields the reply of a worker, if any.
\<close>

definition KillWorkers :: "(string \<Rightarrow> int option) \<Rightarrow> MapReduce \<Rightarrow> int list" where
  "KillWorkers shutdown m = concat (map (\<lambda>(_, w). case shutdown w of None \<Rightarrow> [] | Some n \<Rightarrow> [n]) (Workers m))"

fun mr_exec :: "(string \<Rightarrow> KeyValue list) \<Rightarrow> (string \<Rightarrow> string list \<Rightarrow> string) \<Rightarrow>
    mr_event \<Rightarrow> cluster \<Rightarrow> cluster option" where
  "mr_exec Map Reduce (ERegister w) s = master_register w s"
| "mr_exec Map Reduce (ETakeMap i) s = take_map i s"
| "mr_exec Map Reduce (ETakeStart i) s = take_start i s"
| "mr_exec Map Reduce (EMapOk i) s = map_ok Map Reduce i s"
| "mr_exec Map Reduce (EMapFail i ws) s = map_fail i ws s"
| "mr_exec Map Reduce (ETakeReduce i) s = take_reduce i s"
| "mr_exec Map Reduce (EReduceEmpty i) s = reduce_empty i s"
| "mr_exec Map Reduce (EReduceOk i) s = reduce_ok Map Reduce i s"
| "mr_exec Map Reduce (EReduceFail i w) s = reduce_fail i w s"
| "mr_exec Map Reduce EMasterMap s = master_map s"
| "mr_exec Map Reduce EMasterReduce s = master_reduce s"

definition mr_step :: "(string \<Rightarrow> KeyValue list) \<Rightarrow> (string \<Rightarrow> string list \<Rightarrow> string) \<Rightarrow>
    cluster \<Rightarrow> mr_event \<Rightarrow> cluster \<Rightarrow> bool" where
  "mr_step Map Reduce s e t \<longleftrightarrow> mr_exec Map Reduce e s = Some t"

text \<open>\<open>Run\<close>: splitting, the state \<open>RunMaster\<close> starts from, and what follows its return.\<close>

definition Run_start :: "MapReduce \<Rightarrow> fs \<Rightarrow> failure + cluster" where
  "Run_start m fs = (case Split m (mr_file m) fs of Inl e \<Rightarrow> Inl e
     | Inr fs1 \<Rightarrow> Inr \<lparr>mr = m, gos = [], mapCount = 0, reduceCount = 0, returned = False, disk = fs1\<rparr>)"

definition Run_finish :: "cluster \<Rightarrow> failure + fs" where
  "Run_finish s = Merge (mr s) (disk s)"

section \<open>Jobs are conserved\<close>

fun map_call :: "wstate \<Rightarrow> nat list" where
  "map_call (MapCall j) = [j]"
| "map_call _ = []"

fun reduce_call :: "wstate \<Rightarrow> nat list" where
  "reduce_call (ReduceCall j) = [j]"
| "reduce_call _ = []"

definition calls :: "(wstate \<Rightarrow> nat list) \<Rightarrow> (string \<times> wstate) list \<Rightarrow> nat multiset" where
  "calls c gs = sum_list (map (\<lambda>g. mset (c (snd g))) gs)"

text \<open>The jobs of a phase that are queued or being executed.\<close>

definition open_maps :: "cluster \<Rightarrow> nat multiset" where
  "open_maps s = mset (mapJobs (mr s)) + calls map_call (gos s)"

definition open_reduces :: "cluster \<Rightarrow> nat multiset" where
  "open_reduces s = mset (reduceJobs (mr s)) + calls reduce_call (gos s)"

lemma calls_snoc [simp]: "calls c (gs @ [(w, x)]) = calls c gs + mset (c x)"
  by (simp add: calls_def)

lemma calls_update:
  "i < length gs \<Longrightarrow> calls c (gs[i := (w, x)]) + mset (c (snd (gs ! i))) = calls c gs + mset (c x)"
proof (induction gs arbitrary: i)
  case (Cons g gs)
  then show ?case by (cases i) (auto simp: calls_def ac_simps)
qed simp

lemma calls_mem: "i < length gs \<Longrightarrow> set (c (snd (gs ! i))) \<subseteq> set_mset (calls c gs)"
proof (induction gs arbitrary: i)
  case (Cons g gs)
  then show ?case by (cases i) (auto simp: calls_def)
qed simp

lemma calls_set_go:
  assumes "go_state s i = Some w0"
  shows "calls c (gos (set_go i w s)) + mset (c w0) = calls c (gos s) + mset (c w)"
  using assms calls_update [of i "gos s" c "fst (gos s ! i)" w]
  by (auto simp: go_state_def set_go_def split: if_splits)

lemma set_go_other [simp]:
  "mr (set_go i w s) = mr s" "mapCount (set_go i w s) = mapCount s"
  "reduceCount (set_go i w s) = reduceCount s" "returned (set_go i w s) = returned s"
  "disk (set_go i w s) = disk s"
  by (simp_all add: set_go_def)

text \<open>
  Which goroutines may be where: the second loop is entered after \<open>close(mr.reduceStart)\<close>.
\<close>

definition in_reduce :: "wstate \<Rightarrow> bool" where
  "in_reduce w \<longleftrightarrow> w = ReduceLoop \<or> (\<exists>j. w = ReduceCall j)"

text \<open>
  The invariant has a part on the bookkeeping of the master and a part on the files. The
  number of counted, reported and open jobs of each phase is the number of its jobs.
\<close>

definition books_ok :: "cluster \<Rightarrow> bool" where
  "books_ok s \<longleftrightarrow> 0 < nMap (mr s) \<and> 0 < nReduce (mr s) \<and>
     open_maps s \<subseteq># mset [0..<nMap (mr s)] \<and>
     size (open_maps s) + mapDone (mr s) + mapCount s = nMap (mr s) \<and>
     open_reduces s \<subseteq># mset [0..<nReduce (mr s)] \<and>
     size (open_reduces s) + reduceDone (mr s) + reduceCount s = nReduce (mr s) \<and>
     (reduceStart_closed (mr s) \<longleftrightarrow> mapCount s = nMap (mr s)) \<and>
     (returned s \<longleftrightarrow> reduceCount s = nReduce (mr s)) \<and>
     (\<forall>g \<in> set (gos s). in_reduce (snd g) \<longrightarrow> reduceStart_closed (mr s))"

lemma in_reduce_simps [simp]:
  "\<not> in_reduce MapLoop" "\<not> in_reduce (MapCall j)" "in_reduce ReduceLoop" "in_reduce (ReduceCall j)"
  "\<not> in_reduce Returned"
  by (auto simp: in_reduce_def)

lemma go_in_set: "go_state s i = Some w \<Longrightarrow> \<exists>a. (a, w) \<in> set (gos s)"
  by (auto simp: go_state_def in_set_conv_nth split: if_splits) (metis prod.collapse)

lemma set_go_in: "g \<in> set (gos (set_go i w s)) \<Longrightarrow> g \<in> set (gos s) \<or> snd g = w"
  unfolding set_go_def by (auto dest: set_update_subset_insert [THEN subsetD])

text \<open>
  What the steps of a \<open>RunWorker\<close> goroutine do to the books: \<open>M\<close> and \<open>R\<close> are the jobs
  that stop being open, and are reported.
\<close>

definition worker_effect :: "cluster \<Rightarrow> nat list \<Rightarrow> nat list \<Rightarrow> cluster \<Rightarrow> bool" where
  "worker_effect s M R t \<longleftrightarrow>
     nMap (mr t) = nMap (mr s) \<and> nReduce (mr t) = nReduce (mr s) \<and> mr_file (mr t) = mr_file (mr s) \<and>
     reduceStart_closed (mr t) = reduceStart_closed (mr s) \<and> returned t = returned s \<and>
     mapCount t = mapCount s \<and> reduceCount t = reduceCount s \<and>
     open_maps s = open_maps t + mset M \<and> mapDone (mr t) = mapDone (mr s) + length M \<and>
     open_reduces s = open_reduces t + mset R \<and> reduceDone (mr t) = reduceDone (mr s) + length R \<and>
     (\<forall>g \<in> set (gos t). in_reduce (snd g) \<longrightarrow> g \<in> set (gos s) \<or> reduceStart_closed (mr s))"

lemma books_ok_effect: "books_ok s \<Longrightarrow> worker_effect s M R t \<Longrightarrow> books_ok t"
  unfolding books_ok_def worker_effect_def
  by (auto intro: subset_mset.order_trans [OF mset_subset_eq_add_left])

lemma mset_exchange:
  fixes A C :: "'x multiset"
  assumes "A + a = C + b" and "Q + a = Q' + b + M"
  shows "Q + C = Q' + A + M"
proof -
  have "(Q + C) + (a + b) = (Q + a) + (C + b)" by (simp add: ac_simps)
  also have "\<dots> = (Q' + b + M) + (A + a)" by (simp only: assms)
  also have "\<dots> = (Q' + A + M) + (a + b)" by (simp add: ac_simps)
  finally show ?thesis by simp
qed

lemma set_go_effect:
  assumes "go_state s i = Some w0" and "gos s' = gos s"
    and "in_reduce w \<longrightarrow> reduceStart_closed (mr s)"
    and "mset (mapJobs (mr s)) + mset (map_call w0) = mset (mapJobs (mr s')) + mset (map_call w) + mset M"
    and "mset (reduceJobs (mr s)) + mset (reduce_call w0) =
      mset (reduceJobs (mr s')) + mset (reduce_call w) + mset R"
    and "nMap (mr s') = nMap (mr s)" "nReduce (mr s') = nReduce (mr s)" "mr_file (mr s') = mr_file (mr s)"
      "reduceStart_closed (mr s') = reduceStart_closed (mr s)" "returned s' = returned s"
      "mapCount s' = mapCount s" "reduceCount s' = reduceCount s"
      "mapDone (mr s') = mapDone (mr s) + length M" "reduceDone (mr s') = reduceDone (mr s) + length R"
  shows "worker_effect s M R (set_go i w s')"
proof -
  have "go_state s' i = Some w0" using assms(1) unfolding go_state_def assms(2) .
  note c = calls_set_go [OF this, of _ w]
  have "open_maps s = open_maps (set_go i w s') + mset M"
    using mset_exchange [OF c [of map_call, unfolded assms(2)] assms(4)] by (simp add: open_maps_def)
  moreover have "open_reduces s = open_reduces (set_go i w s') + mset R"
    using mset_exchange [OF c [of reduce_call, unfolded assms(2)] assms(5)] by (simp add: open_reduces_def)
  ultimately show ?thesis
    using assms(2,3,6-) set_go_in [of _ i w s'] by (auto simp: worker_effect_def)
qed

lemma take_map_effect:
  assumes "take_map i s = Some t"
  shows "worker_effect s [] [] t \<and> disk t = disk s"
proof -
  from assms obtain j js where "go_state s i = Some MapLoop" "mapJobs (mr s) = j # js"
      "t = set_go i (MapCall j) (s\<lparr>mr := (mr s)\<lparr>mapJobs := js\<rparr>\<rparr>)"
    by (auto simp: take_map_def split: option.splits wstate.splits list.splits)
  then show ?thesis by (auto intro!: set_go_effect)
qed

lemma take_start_effect:
  assumes "take_start i s = Some t"
  shows "worker_effect s [] [] t \<and> disk t = disk s"
  using assms by (auto simp: take_start_def split: if_splits intro!: set_go_effect)

lemma map_ok_effect:
  assumes "map_ok Map Reduce i s = Some t"
  shows "\<exists>j. worker_effect s [j] [] t \<and> j \<in># open_maps s \<and>
    DoMap j (mr_file (mr s)) (nReduce (mr s)) Map (disk s) = Inr (disk t)"
proof -
  from assms obtain j fs where j: "go_state s i = Some (MapCall j)"
      "DoJob Map Reduce (map_args (mr s) j) (disk s) = Inr fs"
      "t = set_go i MapLoop (s\<lparr>mr := (mr s)\<lparr>mapDone := mapDone (mr s) + 1\<rparr>, disk := fs\<rparr>)"
    by (auto simp: map_ok_def split: option.splits wstate.splits sum.splits)
  then have e: "worker_effect s [j] [] t" by (auto intro!: set_go_effect)
  then have "j \<in># open_maps s" by (simp add: worker_effect_def)
  with j e show ?thesis by (auto simp: DoJob_def map_args_def)
qed

lemma map_fail_effect:
  assumes "map_fail i ws s = Some t"
  shows "\<exists>j. worker_effect s [] [] t \<and> j \<in># open_maps s \<and>
    (\<forall>x. (\<forall>r < nReduce (mr s). x \<noteq> ReduceName (mr_file (mr s)) j r) \<longrightarrow> disk t x = disk s x)"
proof -
  let ?put = "\<lambda>j. \<lambda>fs (r, c). fs(ReduceName (mr_file (mr s)) j r \<mapsto> c)"
  from assms obtain j where j: "go_state s i = Some (MapCall j)"
      "t = set_go i Returned (s\<lparr>mr := (mr s)\<lparr>mapJobs := mapJobs (mr s) @ [j]\<rparr>,
         disk := foldl (?put j) (disk s) (filter (\<lambda>(r, c). r < nReduce (mr s)) ws)\<rparr>)"
    by (auto simp: map_fail_def split: option.splits wstate.splits)
  then have e: "worker_effect s [] [] t" by (auto intro!: set_go_effect)
  have "j \<in># calls map_call (gos s)"
    using j(1) calls_mem [of i "gos s" map_call] by (auto simp: go_state_def split: if_splits)
  then have "j \<in># open_maps s" by (simp add: open_maps_def)
  moreover have "foldl (?put j) fs (filter (\<lambda>(r, c). r < nReduce (mr s)) ws) x = fs x"
    if "\<forall>r < nReduce (mr s). x \<noteq> ReduceName (mr_file (mr s)) j r" for fs x
    using that by (induction ws arbitrary: fs) auto
  ultimately show ?thesis using e j(2) by auto
qed

lemma take_reduce_effect:
  assumes "take_reduce i s = Some t" and "books_ok s"
  shows "worker_effect s [] [] t \<and> disk t = disk s"
proof -
  from assms obtain j js where j: "go_state s i = Some ReduceLoop" "reduceJobs (mr s) = j # js"
      "t = set_go i (ReduceCall j) (s\<lparr>mr := (mr s)\<lparr>reduceJobs := js\<rparr>\<rparr>)"
    by (auto simp: take_reduce_def split: option.splits wstate.splits list.splits)
  then have "reduceStart_closed (mr s)"
    using assms(2) go_in_set [OF j(1)] by (fastforce simp: books_ok_def)
  with j show ?thesis by (auto intro!: set_go_effect)
qed

lemma reduce_empty_effect:
  assumes "reduce_empty i s = Some t"
  shows "worker_effect s [] [] t \<and> disk t = disk s"
  using assms by (auto simp: reduce_empty_def split: if_splits intro!: set_go_effect)

lemma reduce_ok_effect:
  assumes "reduce_ok Map Reduce i s = Some t" and "books_ok s"
  shows "\<exists>j. worker_effect s [] [j] t \<and> j \<in># open_reduces s \<and> reduceStart_closed (mr s) \<and>
    DoReduce j (mr_file (mr s)) (nMap (mr s)) Reduce (disk s) = Inr (disk t)"
proof -
  from assms obtain j fs where j: "go_state s i = Some (ReduceCall j)"
      "DoJob Map Reduce (reduce_args (mr s) j) (disk s) = Inr fs"
      "t = set_go i ReduceLoop (s\<lparr>mr := (mr s)\<lparr>reduceDone := reduceDone (mr s) + 1\<rparr>, disk := fs\<rparr>)"
    by (auto simp: reduce_ok_def split: option.splits wstate.splits sum.splits)
  have cl: "reduceStart_closed (mr s)"
    using assms(2) go_in_set [OF j(1)] by (fastforce simp: books_ok_def)
  with j have e: "worker_effect s [] [j] t" by (auto intro!: set_go_effect)
  then have "j \<in># open_reduces s" by (simp add: worker_effect_def)
  with j e cl show ?thesis by (auto simp: DoJob_def reduce_args_def)
qed

lemma reduce_fail_effect:
  assumes "reduce_fail i w s = Some t" and "books_ok s"
  shows "\<exists>j. worker_effect s [] [] t \<and> j \<in># open_reduces s \<and> reduceStart_closed (mr s) \<and>
    (\<forall>x. x \<noteq> MergeName (mr_file (mr s)) j \<longrightarrow> disk t x = disk s x)"
proof -
  from assms obtain j where j: "go_state s i = Some (ReduceCall j)"
      "t = set_go i Returned (s\<lparr>mr := (mr s)\<lparr>reduceJobs := reduceJobs (mr s) @ [j]\<rparr>,
         disk := (case w of None \<Rightarrow> disk s | Some c \<Rightarrow> (disk s)(MergeName (mr_file (mr s)) j \<mapsto> c))\<rparr>)"
    by (auto simp: reduce_fail_def split: option.splits wstate.splits)
  then have e: "worker_effect s [] [] t" by (auto intro!: set_go_effect)
  have "j \<in># calls reduce_call (gos s)"
    using j(1) calls_mem [of i "gos s" reduce_call] by (auto simp: go_state_def split: if_splits)
  then have "j \<in># open_reduces s" by (simp add: open_reduces_def)
  moreover have "reduceStart_closed (mr s)"
    using assms(2) go_in_set [OF j(1)] by (fastforce simp: books_ok_def)
  ultimately show ?thesis using e j(2) by (auto split: option.splits)
qed

lemmas worker_effects = take_map_effect take_start_effect map_ok_effect map_fail_effect
  take_reduce_effect reduce_empty_effect reduce_ok_effect reduce_fail_effect

lemma books_ok_register: "books_ok s \<Longrightarrow> master_register w s = Some t \<Longrightarrow> books_ok t"
  by (auto simp: master_register_def books_ok_def open_maps_def open_reduces_def split: if_splits)
    fastforce+

lemma books_ok_master_map:
  assumes "books_ok s" and "master_map s = Some t"
  shows "books_ok t"
proof -
  have t: "mapDone (mr s) \<noteq> 0" "gos t = gos s" "reduceCount t = reduceCount s" "returned t = returned s"
    "mapCount t = mapCount s + 1" "mapDone (mr t) = mapDone (mr s) - 1" "nMap (mr t) = nMap (mr s)"
    "nReduce (mr t) = nReduce (mr s)" "mapJobs (mr t) = mapJobs (mr s)"
    "reduceJobs (mr t) = reduceJobs (mr s)" "reduceDone (mr t) = reduceDone (mr s)"
    "reduceStart_closed (mr t) \<longleftrightarrow> reduceStart_closed (mr s) \<or> mapCount t = nMap (mr s)"
    using assms(2) by (auto simp: master_map_def Let_def split: if_splits)
  then have "open_maps t = open_maps s" "open_reduces t = open_reduces s"
    by (simp_all add: open_maps_def open_reduces_def)
  then show ?thesis using assms(1) t unfolding books_ok_def by auto
qed

lemma books_ok_master_reduce:
  assumes "books_ok s" and "master_reduce s = Some t"
  shows "books_ok t"
proof -
  have t: "reduceDone (mr s) \<noteq> 0" "gos t = gos s" "mapCount t = mapCount s"
    "reduceCount t = reduceCount s + 1" "returned t \<longleftrightarrow> reduceCount t = nReduce (mr s)"
    "mr t = (mr s)\<lparr>reduceDone := reduceDone (mr s) - 1\<rparr>"
    using assms(2) by (auto simp: master_reduce_def Let_def split: if_splits)
  then have "open_maps t = open_maps s" "open_reduces t = open_reduces s"
    by (simp_all add: open_maps_def open_reduces_def)
  then show ?thesis using assms(1) t unfolding books_ok_def by auto
qed

lemmas books_ok_master = books_ok_register books_ok_master_map books_ok_master_reduce

lemma books_ok_exec:
  assumes "books_ok s" and "mr_exec Map Reduce e s = Some t"
  shows "books_ok t"
proof (cases "\<exists>M R. worker_effect s M R t")
  case True
  then show ?thesis using books_ok_effect [OF assms(1)] by blast
next
  case False
  then have "\<exists>w. e = ERegister w \<or> e = EMasterMap \<or> e = EMasterReduce"
    using assms by (cases e) (auto dest: worker_effects)
  then show ?thesis using assms by (auto intro: books_ok_master)
qed

section \<open>The files\<close>

text \<open>Every job that is not open has finished: its output files are the right ones.\<close>

definition files_ok :: "(string \<Rightarrow> KeyValue list) \<Rightarrow> (string \<Rightarrow> string list \<Rightarrow> string) \<Rightarrow>
    string list \<Rightarrow> fs \<Rightarrow> cluster \<Rightarrow> bool" where
  "files_ok Map Reduce ps fs0 s \<longleftrightarrow> nMap (mr s) = length ps \<and> nReduce (mr s) < 2 ^ 32 \<and>
     (\<forall>i < length ps. disk s (MapName (mr_file (mr s)) i) = Some (ps ! i)) \<and>
     (\<forall>x. (\<forall>i < length ps. \<forall>r < nReduce (mr s). x \<noteq> ReduceName (mr_file (mr s)) i r) \<longrightarrow>
        (\<forall>r < nReduce (mr s). x \<noteq> MergeName (mr_file (mr s)) r) \<longrightarrow> disk s x = fs0 x) \<and>
     (\<forall>j < nMap (mr s). j \<notin># open_maps s \<longrightarrow>
        map_finished (mr_file (mr s)) Map (nReduce (mr s)) ps j (disk s)) \<and>
     (\<forall>r < nReduce (mr s). r \<notin># open_reduces s \<longrightarrow>
        reduce_finished (mr_file (mr s)) Map Reduce (nReduce (mr s)) ps r (disk s))"

definition cluster_inv :: "(string \<Rightarrow> KeyValue list) \<Rightarrow> (string \<Rightarrow> string list \<Rightarrow> string) \<Rightarrow>
    string list \<Rightarrow> fs \<Rightarrow> cluster \<Rightarrow> bool" where
  "cluster_inv Map Reduce ps fs0 s \<longleftrightarrow> books_ok s \<and> files_ok Map Reduce ps fs0 s"

lemma open_bound: "books_ok s \<Longrightarrow> j \<in># open_maps s \<Longrightarrow> j < nMap (mr s)"
  "books_ok s \<Longrightarrow> j \<in># open_reduces s \<Longrightarrow> j < nReduce (mr s)"
  by (auto simp: books_ok_def dest!: mset_subset_eqD)

lemma count_upt: "M \<subseteq># mset [0..<n] \<Longrightarrow> count M j \<le> 1"
proof -
  assume "M \<subseteq># mset [0..<n]"
  then have "count M j \<le> count (mset [0..<n]) j" by (rule mset_subset_eq_count)
  also have "\<dots> \<le> 1" by (simp add: count_mset_set')
  finally show ?thesis .
qed

lemma open_once:
  assumes "books_ok s"
  shows "worker_effect s [j] R t \<Longrightarrow> j \<notin># open_maps t" "worker_effect s M [j] t \<Longrightarrow> j \<notin># open_reduces t"
proof -
  have c: "count (open_maps s) j \<le> 1" "count (open_reduces s) j \<le> 1"
    using assms by (auto simp only: books_ok_def intro: count_upt)
  show "worker_effect s [j] R t \<Longrightarrow> j \<notin># open_maps t" "worker_effect s M [j] t \<Longrightarrow> j \<notin># open_reduces t"
    using c by (auto simp: worker_effect_def not_in_iff)
qed

lemma closed_no_maps: "books_ok s \<Longrightarrow> reduceStart_closed (mr s) \<Longrightarrow> open_maps s = {#}"
  by (auto simp: books_ok_def)

lemma files_ok_same:
  assumes "files_ok Map Reduce ps fs0 s" and "disk t = disk s" and "nMap (mr t) = nMap (mr s)"
    and "nReduce (mr t) = nReduce (mr s)" and "mr_file (mr t) = mr_file (mr s)"
    and "open_maps t = open_maps s" and "open_reduces t = open_reduces s"
  shows "files_ok Map Reduce ps fs0 t"
  using assms(1) unfolding files_ok_def assms(2-) .

lemma files_ok_quiet:
  assumes "files_ok Map Reduce ps fs0 s" and "worker_effect s [] [] t \<and> disk t = disk s"
  shows "files_ok Map Reduce ps fs0 t"
  using assms(2) by (intro files_ok_same [OF assms(1)]) (auto simp: worker_effect_def)

lemma files_ok_map_ok:
  assumes "books_ok s" and "files_ok Map Reduce ps fs0 s" and "worker_effect s [j] [] t"
    and "DoMap j (mr_file (mr s)) (nReduce (mr s)) Map (disk s) = Inr (disk t)" and "j \<in># open_maps s"
  shows "files_ok Map Reduce ps fs0 t"
proof -
  let ?f = "mr_file (mr s)" and ?n = "nReduce (mr s)"
  have same: "nMap (mr t) = nMap (mr s)" "nReduce (mr t) = ?n" "mr_file (mr t) = ?f"
    and opn: "open_maps s = add_mset j (open_maps t)" "open_reduces t = open_reduces s"
    using assms(3) by (auto simp: worker_effect_def)
  have j: "j < length ps" using open_bound(1) [OF assms(1,5)] assms(2) by (simp add: files_ok_def)
  have "map_ready ?f ?n ps (disk s) (disk s)"
    using assms(1,2) by (simp add: map_ready_def files_ok_def books_ok_def)
  from map_phase.job_runs [OF this j, of Map] assms(4)
  have run: "map_ready ?f ?n ps (disk s) (disk t)" "map_finished ?f Map ?n ps j (disk t)"
    "\<forall>k. map_finished ?f Map ?n ps k (disk s) \<longrightarrow> map_finished ?f Map ?n ps k (disk t)" by auto
  have "disk t (MergeName ?f r) = disk s (MergeName ?f r)" for r
    using run(1) by (simp add: map_ready_def file_names)
  then have red: "reduce_finished ?f Map Reduce ?n ps r (disk t) = reduce_finished ?f Map Reduce ?n ps r (disk s)" for r
    by (simp add: reduce_finished_def)
  show ?thesis unfolding files_ok_def same opn(2)
  proof (intro conjI allI impI)
    show "map_finished ?f Map ?n ps k (disk t)" if "k < nMap (mr s)" "k \<notin># open_maps t" for k
      using that run(2,3) assms(2) opn(1) by (cases "k = j") (auto simp: files_ok_def)
    show "reduce_finished ?f Map Reduce ?n ps r (disk t)" if "r < ?n" "r \<notin># open_reduces s" for r
      using that red assms(2) by (simp add: files_ok_def)
    show "disk t x = fs0 x" if "\<forall>i < length ps. \<forall>r < ?n. x \<noteq> ReduceName ?f i r"
        "\<forall>r < ?n. x \<noteq> MergeName ?f r" for x
    proof -
      have "disk t x = disk s x" using run(1) that(1) by (simp add: map_ready_def)
      then show ?thesis using assms(2) that by (simp add: files_ok_def)
    qed
  qed (use assms(2) run(1) in \<open>auto simp: files_ok_def map_ready_def\<close>)
qed

lemma files_ok_reduce_ok:
  assumes "books_ok s" and "files_ok Map Reduce ps fs0 s" and "worker_effect s [] [j] t"
    and "DoReduce j (mr_file (mr s)) (nMap (mr s)) Reduce (disk s) = Inr (disk t)"
    and "j \<in># open_reduces s" and "reduceStart_closed (mr s)"
  shows "files_ok Map Reduce ps fs0 t"
proof -
  let ?f = "mr_file (mr s)" and ?n = "nReduce (mr s)"
  have same: "nMap (mr t) = nMap (mr s)" "nReduce (mr t) = ?n" "mr_file (mr t) = ?f"
    and opn: "open_reduces s = add_mset j (open_reduces t)" "open_maps t = open_maps s"
    using assms(3) by (auto simp: worker_effect_def)
  have none: "open_maps s = {#}" using closed_no_maps [OF assms(1,6)] .
  have j: "j < ?n" using open_bound(2) [OF assms(1,5)] .
  have len: "nMap (mr s) = length ps" using assms(2) by (simp add: files_ok_def)
  have "reduce_ready ?f Map ?n ps (disk s) (disk s)"
    using assms(2) none by (simp add: reduce_ready_def files_ok_def)
  from reduce_phase.job_runs [OF this j, of Reduce] assms(4) len
  have run: "reduce_ready ?f Map ?n ps (disk s) (disk t)" "reduce_finished ?f Map Reduce ?n ps j (disk t)"
    "\<forall>k. reduce_finished ?f Map Reduce ?n ps k (disk s) \<longrightarrow> reduce_finished ?f Map Reduce ?n ps k (disk t)" by auto
  show ?thesis unfolding files_ok_def same opn(2)
  proof (intro conjI allI impI)
    show "map_finished ?f Map ?n ps k (disk t)" if "k < nMap (mr s)" for k
      using that run(1) len by (simp add: reduce_ready_def)
    show "reduce_finished ?f Map Reduce ?n ps r (disk t)" if "r < ?n" "r \<notin># open_reduces t" for r
      using that run(2,3) assms(2) opn(1) by (cases "r = j") (auto simp: files_ok_def)
    show "disk t x = fs0 x" if "\<forall>i < length ps. \<forall>r < ?n. x \<noteq> ReduceName ?f i r"
        "\<forall>r < ?n. x \<noteq> MergeName ?f r" for x
    proof -
      have "disk t x = disk s x" using run(1) that(2) by (simp add: reduce_ready_def)
      then show ?thesis using assms(2) that by (simp add: files_ok_def)
    qed
    show "disk t (MapName ?f i) = Some (ps ! i)" if "i < length ps" for i
    proof -
      have "disk t (MapName ?f i) = disk s (MapName ?f i)"
        using run(1) by (simp add: reduce_ready_def file_names)
      then show ?thesis using assms(2) that by (simp add: files_ok_def)
    qed
  qed (use assms(2) in \<open>auto simp: files_ok_def\<close>)
qed

text \<open>A failed call spoils only output files of its own job, which is still open.\<close>

lemma files_ok_spoil:
  assumes "files_ok Map Reduce ps fs0 s" and "worker_effect s [] [] t"
    and "\<And>x. disk t x \<noteq> disk s x \<Longrightarrow>
      (\<exists>i r. i \<in># open_maps s \<and> i < length ps \<and> r < nReduce (mr s) \<and> x = ReduceName (mr_file (mr s)) i r) \<or>
      (\<exists>r. r \<in># open_reduces s \<and> r < nReduce (mr s) \<and> x = MergeName (mr_file (mr s)) r)"
  shows "files_ok Map Reduce ps fs0 t"
proof -
  let ?f = "mr_file (mr s)" and ?n = "nReduce (mr s)"
  have same: "nMap (mr t) = nMap (mr s)" "nReduce (mr t) = ?n" "mr_file (mr t) = ?f"
    "open_maps t = open_maps s" "open_reduces t = open_reduces s"
    using assms(2) by (auto simp: worker_effect_def)
  have mapn: "disk t (MapName ?f i) = disk s (MapName ?f i)" for i
    using assms(3) [of "MapName ?f i"] by (auto simp: file_names)
  have red: "disk t (ReduceName ?f i r) = disk s (ReduceName ?f i r)" if "i \<notin># open_maps s" for i r
    using assms(3) [of "ReduceName ?f i r"] that by (auto simp: file_names)
  have mer: "disk t (MergeName ?f r) = disk s (MergeName ?f r)" if "r \<notin># open_reduces s" for r
    using assms(3) [of "MergeName ?f r"] that by (auto simp: file_names)
  show ?thesis unfolding files_ok_def same
  proof (intro conjI allI impI)
    show "map_finished ?f Map ?n ps k (disk t)" if "k < nMap (mr s)" "k \<notin># open_maps s" for k
      using that red [OF that(2)] assms(1) by (simp add: files_ok_def map_finished_def)
    show "reduce_finished ?f Map Reduce ?n ps r (disk t)" if "r < ?n" "r \<notin># open_reduces s" for r
      using that mer [OF that(2)] assms(1) by (simp add: files_ok_def reduce_finished_def)
    show "disk t x = fs0 x" if "\<forall>i < length ps. \<forall>r < ?n. x \<noteq> ReduceName ?f i r"
        "\<forall>r < ?n. x \<noteq> MergeName ?f r" for x
    proof -
      have "disk t x = disk s x" using assms(3) [of x] that by blast
      then show ?thesis using assms(1) that by (simp add: files_ok_def)
    qed
  qed (use assms(1) mapn in \<open>auto simp: files_ok_def\<close>)
qed

lemma files_ok_map_fail:
  assumes "books_ok s" and "files_ok Map Reduce ps fs0 s" and "map_fail i ws s = Some t"
  shows "files_ok Map Reduce ps fs0 t"
proof -
  from map_fail_effect [OF assms(3)] obtain j where j: "worker_effect s [] [] t" "j \<in># open_maps s"
      "\<forall>x. (\<forall>r < nReduce (mr s). x \<noteq> ReduceName (mr_file (mr s)) j r) \<longrightarrow> disk t x = disk s x" by blast
  have "j < length ps" using open_bound(1) [OF assms(1) j(2)] assms(2) by (simp add: files_ok_def)
  with j show ?thesis by (intro files_ok_spoil [OF assms(2)]) blast+
qed

lemma files_ok_reduce_fail:
  assumes "books_ok s" and "files_ok Map Reduce ps fs0 s" and "reduce_fail i w s = Some t"
  shows "files_ok Map Reduce ps fs0 t"
proof -
  from reduce_fail_effect [OF assms(3,1)] obtain j where j: "worker_effect s [] [] t" "j \<in># open_reduces s"
      "\<forall>x. x \<noteq> MergeName (mr_file (mr s)) j \<longrightarrow> disk t x = disk s x" by blast
  with open_bound(2) [OF assms(1) j(2)] show ?thesis by (intro files_ok_spoil [OF assms(2)]) blast+
qed

lemma files_ok_master:
  assumes "files_ok Map Reduce ps fs0 s"
    and "master_register w s = Some t \<or> master_map s = Some t \<or> master_reduce s = Some t"
  shows "files_ok Map Reduce ps fs0 t"
proof -
  have "disk t = disk s" "nMap (mr t) = nMap (mr s)" "nReduce (mr t) = nReduce (mr s)"
    "mr_file (mr t) = mr_file (mr s)" "mapJobs (mr t) = mapJobs (mr s)" "reduceJobs (mr t) = reduceJobs (mr s)"
    "calls c (gos t) = calls c (gos s)" if "c MapLoop = []" for c
    using assms(2) that
    by (auto simp: master_register_def master_map_def master_reduce_def Let_def split: if_splits)
  from this [of map_call] this [of reduce_call] show ?thesis
    by (intro files_ok_same [OF assms(1)]) (auto simp: open_maps_def open_reduces_def)
qed

lemma files_ok_exec:
  assumes "books_ok s" and "files_ok Map Reduce ps fs0 s" and "mr_exec Map Reduce e s = Some t"
  shows "files_ok Map Reduce ps fs0 t"
proof -
  have "worker_effect s [] [] t \<and> disk t = disk s \<or>
      (\<exists>w. master_register w s = Some t \<or> master_map s = Some t \<or> master_reduce s = Some t) \<or>
      (\<exists>i. map_ok Map Reduce i s = Some t) \<or> (\<exists>i. reduce_ok Map Reduce i s = Some t) \<or>
      (\<exists>i ws. map_fail i ws s = Some t) \<or> (\<exists>i w. reduce_fail i w s = Some t)"
    using assms(1,3) by (cases e) (auto dest: take_map_effect take_start_effect take_reduce_effect reduce_empty_effect)
  then consider "worker_effect s [] [] t \<and> disk t = disk s"
    | w where "master_register w s = Some t \<or> master_map s = Some t \<or> master_reduce s = Some t"
    | i where "map_ok Map Reduce i s = Some t" | i where "reduce_ok Map Reduce i s = Some t"
    | i ws where "map_fail i ws s = Some t" | i w where "reduce_fail i w s = Some t" by blast
  then show ?thesis
  proof cases
    case (3 i)
    from map_ok_effect [OF this] show ?thesis using files_ok_map_ok [OF assms(1,2)] by blast
  next
    case (4 i)
    from reduce_ok_effect [OF this assms(1)] show ?thesis using files_ok_reduce_ok [OF assms(1,2)] by blast
  next
    case (5 i ws)
    then show ?thesis by (rule files_ok_map_fail [OF assms(1,2)])
  next
    case (6 i w)
    then show ?thesis by (rule files_ok_reduce_fail [OF assms(1,2)])
  qed (use files_ok_quiet [OF assms(2)] files_ok_master [OF assms(2)] in blast)+
qed

text \<open>The states a run of the master starts from: \<open>Split\<close> has made a file for every map job.\<close>

definition cluster_init :: "string list \<Rightarrow> nat \<Rightarrow> string \<Rightarrow> fs \<Rightarrow> cluster \<Rightarrow> bool" where
  "cluster_init ps nreduce f fs s \<longleftrightarrow> 0 < length ps \<and> 0 < nreduce \<and> nreduce < 2 ^ 32 \<and>
     (\<exists>master. mr s = InitMapReduce (length ps) nreduce f master) \<and> gos s = [] \<and>
     mapCount s = 0 \<and> reduceCount s = 0 \<and> \<not> returned s \<and> disk s = fs \<and>
     (\<forall>i < length ps. fs (MapName f i) = Some (ps ! i))"

lemma cluster_inv_init: "cluster_init ps nreduce f fs s \<Longrightarrow> cluster_inv Map Reduce ps fs s"
  by (auto simp: cluster_init_def cluster_inv_def books_ok_def files_ok_def InitMapReduce_def
      open_maps_def open_reduces_def calls_def)

interpretation cluster: inductive_invariant "cluster_init ps nreduce f fs" "mr_step Map Reduce"
  "\<lambda>s. cluster_inv Map Reduce ps fs s \<and> nReduce (mr s) = nreduce \<and> mr_file (mr s) = f"
  for ps nreduce f fs Map Reduce
proof unfold_locales
  fix s assume "cluster_init ps nreduce f fs s"
  then show "cluster_inv Map Reduce ps fs s \<and> nReduce (mr s) = nreduce \<and> mr_file (mr s) = f"
    using cluster_inv_init by (auto simp: cluster_init_def InitMapReduce_def)
next
  fix s e t assume s: "cluster_inv Map Reduce ps fs s \<and> nReduce (mr s) = nreduce \<and> mr_file (mr s) = f"
    and st: "mr_step Map Reduce s e t"
  then have "books_ok t" "files_ok Map Reduce ps fs t"
    using books_ok_exec files_ok_exec by (auto simp: cluster_inv_def mr_step_def)
  moreover have "nReduce (mr t) = nReduce (mr s) \<and> mr_file (mr t) = mr_file (mr s)"
  proof (cases "\<exists>M R. worker_effect s M R t")
    case True
    then show ?thesis by (auto simp: worker_effect_def)
  next
    case False
    then have "\<exists>w. e = ERegister w \<or> e = EMasterMap \<or> e = EMasterReduce"
      using s st by (cases e) (auto simp: cluster_inv_def mr_step_def dest: worker_effects)
    then show ?thesis using st
      by (auto simp: mr_step_def master_register_def master_map_def master_reduce_def Let_def split: if_splits)
  qed
  ultimately show "cluster_inv Map Reduce ps fs t \<and> nReduce (mr t) = nreduce \<and> mr_file (mr t) = f"
    using s by (simp add: cluster_inv_def)
qed

section \<open>Properties\<close>

lemma returned_all_finished:
  assumes "cluster_inv Map Reduce ps fs0 s" and "returned s" and "r < nReduce (mr s)"
  shows "reduce_finished (mr_file (mr s)) Map Reduce (nReduce (mr s)) ps r (disk s)"
proof -
  have "size (open_reduces s) = 0" using assms(1,2) by (auto simp: cluster_inv_def books_ok_def)
  then show ?thesis using assms by (simp add: cluster_inv_def files_ok_def)
qed

lemma distributed_output:
  assumes app: "utf8_app Map Reduce"
    and "fs f = Some b" and "0 < nmap" and "length (parts nmap b) = nmap"
    and "0 < nreduce" and "nreduce < 2 ^ 32"
    and "Run_start (InitMapReduce nmap nreduce f master) fs = Inr s0"
    and "steps (mr_step Map Reduce) s0 es s" and "returned s"
  shows "Run_finish s = Inr ((disk s)(out_name f \<mapsto> (mr_result Reduce (concat (map Map (parts nmap b))))))"
proof -
  let ?m = "InitMapReduce nmap nreduce f master" and ?ps = "parts nmap b"
  have m: "nMap ?m = nmap" "nReduce ?m = nreduce" "mr_file ?m = f" by (simp_all add: InitMapReduce_def)
  obtain fs' where fs': "Split ?m f fs = Inr fs'" "holds_parts (MapName f) 0 ?ps fs fs'"
    using Split_parts [of fs f b ?m] assms(2,3) m by auto
  then have "cluster_init ?ps nreduce f fs' s0"
    using assms(3-7) m by (auto simp: Run_start_def cluster_init_def holds_parts_def)
  then have "reach (cluster_init ?ps nreduce f fs') (mr_step Map Reduce) s"
    using reach_steps [OF assms(8)] by (blast intro: reach_init)
  then have inv: "cluster_inv Map Reduce ?ps fs' s" and n: "nReduce (mr s) = nreduce" "mr_file (mr s) = f"
    using cluster.reach_inv by blast+
  then have "\<forall>r < nReduce (mr s). reduce_finished (mr_file (mr s)) Map Reduce (nReduce (mr s)) ?ps r (disk s)"
    using returned_all_finished assms(9) by blast
  with utf8_app.Merge_output [OF app, of "mr s" ?ps "disk s"] n assms(5,6)
  show ?thesis by (simp add: Run_finish_def)
qed

text \<open>
  C24: the distributed run computes the same result as the sequential one. Start from an
  input that splits into \<open>nmap\<close> files; whatever workers register, however the goroutines
  interleave, whatever calls fail and whatever part of their output failed jobs leave, when
  \<open>RunMaster\<close> returns, \<open>Merge\<close> succeeds and writes the very output file that
  \<open>RunSingle\<close> writes.
\<close>

theorem distributed_run_correct:
  assumes "\<And>b kv. kv \<in> set (Map b) \<Longrightarrow> valid_utf8 (Key kv) \<and> valid_utf8 (Value kv)"
    and "\<And>k vs. valid_utf8 k \<Longrightarrow> list_all valid_utf8 vs \<Longrightarrow> valid_utf8 (Reduce k vs)"
    and "fs f = Some b" and "0 < nmap" and "length (parts nmap b) = nmap"
    and "0 < nreduce" and "nreduce < 2 ^ 32"
    and "Run_start (InitMapReduce nmap nreduce f master) fs = Inr s0"
    and "steps (mr_step Map Reduce) s0 es s" and "returned s"
  shows "\<exists>fs1 fs2. RunSingle nmap nreduce f Map Reduce fs = Inr fs1 \<and> Run_finish s = Inr fs2 \<and>
    fs2 (out_name f) = fs1 (out_name f) \<and>
    fs2 (out_name f) = Some (mr_result Reduce (concat (map Map (parts nmap b))))"
proof -
  have app: "utf8_app Map Reduce" by unfold_locales (use assms(1,2) in blast)+
  from distributed_output [OF app assms(3-10)] utf8_app.RunSingle_output [OF app, of fs f b nmap nreduce] assms(3-7)
  show ?thesis by auto
qed

text \<open>
  C26: jobs are neither lost nor done twice. In every reachable state the queued and the
  executing map jobs are distinct jobs and, with the jobs reported and counted, add up to
  \<open>nMap\<close>, and the same for the reduce jobs; so no channel exceeds its capacity,
  \<open>reduceStart\<close> is closed exactly when all map jobs have been counted, and a reduce job
  executes only when every map job has finished and its output files are right.
\<close>

theorem jobs_conserved:
  assumes "reach (cluster_init ps nreduce f fs) (mr_step Map Reduce) s"
  shows "(\<forall>j. count (open_maps s) j \<le> 1 \<and> count (open_reduces s) j \<le> 1) \<and>
    size (open_maps s) + mapDone (mr s) + mapCount s = length ps \<and>
    size (open_reduces s) + reduceDone (mr s) + reduceCount s = nreduce \<and>
    (reduceStart_closed (mr s) \<longleftrightarrow> mapCount s = length ps) \<and>
    (\<forall>w j. (w, ReduceCall j) \<in> set (gos s) \<longrightarrow> open_maps s = {#} \<and>
      (\<forall>i < length ps. map_finished f Map nreduce ps i (disk s)))"
proof -
  have inv: "books_ok s" "files_ok Map Reduce ps fs s" "nReduce (mr s) = nreduce" "mr_file (mr s) = f"
    using cluster.reach_inv [OF assms] by (auto simp: cluster_inv_def)
  have sub: "open_maps s \<subseteq># mset [0..<nMap (mr s)]" "open_reduces s \<subseteq># mset [0..<nReduce (mr s)]"
    using inv(1) by (simp_all add: books_ok_def)
  have "\<forall>j. count (open_maps s) j \<le> 1 \<and> count (open_reduces s) j \<le> 1"
    using count_upt [OF sub(1)] count_upt [OF sub(2)] by blast
  moreover have "open_maps s = {#}" if "(w, ReduceCall j) \<in> set (gos s)" for w j
  proof -
    have "in_reduce (snd (w, ReduceCall j))" by simp
    then show ?thesis using that inv(1) closed_no_maps unfolding books_ok_def by blast
  qed
  ultimately show ?thesis using inv by (fastforce simp: books_ok_def files_ok_def)
qed

text \<open>
  Progress. The events of the goroutines and of the master, without registrations and
  without failing calls, use up a finite amount of work.
\<close>

fun calm :: "mr_event \<Rightarrow> bool" where
  "calm (EMapFail _ _) \<longleftrightarrow> False"
| "calm (EReduceFail _ _) \<longleftrightarrow> False"
| "calm _ \<longleftrightarrow> True"

fun local :: "mr_event \<Rightarrow> bool" where
  "local (ERegister _) \<longleftrightarrow> False"
| "local _ \<longleftrightarrow> True"

fun weight :: "wstate \<Rightarrow> nat" where
  "weight MapLoop = 2"
| "weight (MapCall _) = 4"
| "weight ReduceLoop = 1"
| "weight (ReduceCall _) = 3"
| "weight Returned = 0"

definition work :: "cluster \<Rightarrow> nat" where
  "work s = 3 * length (mapJobs (mr s)) + mapDone (mr s) + 3 * length (reduceJobs (mr s)) +
     reduceDone (mr s) + sum_list (map (\<lambda>g. weight (snd g)) (gos s))"

lemma weight_update:
  "i < length gs \<Longrightarrow> sum_list (map (\<lambda>g. weight (snd g)) (gs[i := (a, w)])) + weight (snd (gs ! i)) =
     sum_list (map (\<lambda>g. weight (snd g)) gs) + weight w"
proof (induction gs arbitrary: i)
  case (Cons g gs)
  then show ?case by (cases i) auto
qed simp

lemma work_set_go:
  assumes "go_state s i = Some w0" and "gos s' = gos s"
  shows "work (set_go i w s') + weight w0 + sum_list (map (\<lambda>g. weight (snd g)) (gos s)) =
    3 * length (mapJobs (mr s')) + mapDone (mr s') + 3 * length (reduceJobs (mr s')) +
    reduceDone (mr s') + weight w + 2 * sum_list (map (\<lambda>g. weight (snd g)) (gos s))"
  using assms weight_update [of i "gos s" "fst (gos s ! i)" w]
  by (auto simp: work_def go_state_def set_go_def split: if_splits)

lemma local_calm_work:
  assumes "mr_exec Map Reduce e s = Some t" and "local e" and "calm e"
  shows "work t < work s"
proof (cases e)
  case (ETakeMap i)
  with assms obtain j js where "go_state s i = Some MapLoop" "mapJobs (mr s) = j # js"
      "t = set_go i (MapCall j) (s\<lparr>mr := (mr s)\<lparr>mapJobs := js\<rparr>\<rparr>)"
    by (auto simp: take_map_def split: option.splits wstate.splits list.splits)
  then show ?thesis using work_set_go [of s i MapLoop "s\<lparr>mr := (mr s)\<lparr>mapJobs := js\<rparr>\<rparr>" "MapCall j"]
    by (simp add: work_def)
next
  case (ETakeStart i)
  with assms have "go_state s i = Some MapLoop" "t = set_go i ReduceLoop s"
    by (auto simp: take_start_def split: if_splits)
  then show ?thesis using work_set_go [of s i MapLoop s ReduceLoop] by (simp add: work_def)
next
  case (EMapOk i)
  with assms obtain j fs where "go_state s i = Some (MapCall j)"
      "t = set_go i MapLoop (s\<lparr>mr := (mr s)\<lparr>mapDone := mapDone (mr s) + 1\<rparr>, disk := fs\<rparr>)"
    by (auto simp: map_ok_def split: option.splits wstate.splits sum.splits)
  then show ?thesis
    using work_set_go [of s i "MapCall j" "s\<lparr>mr := (mr s)\<lparr>mapDone := mapDone (mr s) + 1\<rparr>, disk := fs\<rparr>" MapLoop]
    by (simp add: work_def)
next
  case (ETakeReduce i)
  with assms obtain j js where "go_state s i = Some ReduceLoop" "reduceJobs (mr s) = j # js"
      "t = set_go i (ReduceCall j) (s\<lparr>mr := (mr s)\<lparr>reduceJobs := js\<rparr>\<rparr>)"
    by (auto simp: take_reduce_def split: option.splits wstate.splits list.splits)
  then show ?thesis using work_set_go [of s i ReduceLoop "s\<lparr>mr := (mr s)\<lparr>reduceJobs := js\<rparr>\<rparr>" "ReduceCall j"]
    by (simp add: work_def)
next
  case (EReduceEmpty i)
  with assms have "go_state s i = Some ReduceLoop" "t = set_go i Returned s"
    by (auto simp: reduce_empty_def split: if_splits)
  then show ?thesis using work_set_go [of s i ReduceLoop s Returned] by (simp add: work_def)
next
  case (EReduceOk i)
  with assms obtain j fs where "go_state s i = Some (ReduceCall j)"
      "t = set_go i ReduceLoop (s\<lparr>mr := (mr s)\<lparr>reduceDone := reduceDone (mr s) + 1\<rparr>, disk := fs\<rparr>)"
    by (auto simp: reduce_ok_def split: option.splits wstate.splits sum.splits)
  then show ?thesis
    using work_set_go [of s i "ReduceCall j" "s\<lparr>mr := (mr s)\<lparr>reduceDone := reduceDone (mr s) + 1\<rparr>, disk := fs\<rparr>" ReduceLoop]
    by (simp add: work_def)
qed (use assms in \<open>auto simp: work_def master_map_def master_reduce_def Let_def split: if_splits\<close>)

text \<open>
  While no call fails, a goroutine returns only when the queue of reduce jobs is empty.
\<close>

definition staffed :: "cluster \<Rightarrow> bool" where
  "staffed s \<longleftrightarrow> (\<forall>w. (w, Returned) \<in> set (gos s) \<longrightarrow> reduceJobs (mr s) = [])"

lemma staffed_set_go:
  assumes "gos s' = gos s" and "staffed s" and "w = Returned \<longrightarrow> reduceJobs (mr s') = []"
    and "reduceJobs (mr s) = [] \<longrightarrow> reduceJobs (mr s') = []"
  shows "staffed (set_go i w s')"
proof -
  have "reduceJobs (mr s') = []" if "(a, Returned) \<in> set (gos (set_go i w s'))" for a
    using set_go_in [OF that] assms by (auto simp: staffed_def)
  then show ?thesis by (auto simp: staffed_def)
qed

lemma staffed_exec:
  assumes "staffed s" and "mr_exec Map Reduce e s = Some t" and "calm e"
  shows "staffed t"
proof (cases e)
  case (ERegister w)
  then show ?thesis using assms by (auto simp: staffed_def master_register_def split: if_splits)
next
  case EMasterMap
  then show ?thesis using assms by (auto simp: staffed_def master_map_def Let_def split: if_splits)
next
  case EMasterReduce
  then show ?thesis using assms by (auto simp: staffed_def master_reduce_def Let_def split: if_splits)
qed (use assms in \<open>auto simp: take_map_def take_start_def map_ok_def take_reduce_def reduce_empty_def
  reduce_ok_def split: option.splits wstate.splits list.splits sum.splits if_splits intro!: staffed_set_go [OF _ assms(1)]\<close>)

lemma go_state_ex: "(w, x) \<in> set (gos s) \<Longrightarrow> \<exists>i. go_state s i = Some x"
proof -
  assume "(w, x) \<in> set (gos s)"
  then obtain i where "i < length (gos s)" "gos s ! i = (w, x)" by (auto simp: in_set_conv_nth)
  then show ?thesis by (intro exI [of _ i]) (simp add: go_state_def)
qed

lemma calls_ex: "j \<in># calls c gs \<Longrightarrow> \<exists>w x. (w, x) \<in> set gs \<and> j \<in> set (c x)"
proof (induction gs)
  case (Cons g gs)
  then have "j \<in> set (c (snd g)) \<or> (\<exists>w x. (w, x) \<in> set gs \<and> j \<in> set (c x))" by (auto simp: calls_def)
  then show ?case by (metis list.set_intros(1,2) prod.collapse)
qed (simp add: calls_def)

lemma calls_member: "(w, x) \<in> set gs \<Longrightarrow> set (c x) \<subseteq> set_mset (calls c gs)"
  by (induction gs) (auto simp: calls_def)

lemma map_call_iff: "j \<in> set (map_call x) \<longleftrightarrow> x = MapCall j"
  by (cases x) auto

lemma reduce_call_iff: "j \<in> set (reduce_call x) \<longleftrightarrow> x = ReduceCall j"
  by (cases x) auto

lemma map_call_runs:
  assumes "cluster_inv Map Reduce ps fs0 s" and "go_state s i = Some (MapCall j)"
  shows "\<exists>t. map_ok Map Reduce i s = Some t"
proof -
  have ok: "books_ok s" "files_ok Map Reduce ps fs0 s" using assms(1) by (simp_all add: cluster_inv_def)
  have "j \<in># open_maps s"
    using calls_mem [of i "gos s" map_call] assms(2) by (auto simp: open_maps_def go_state_def split: if_splits)
  then have "j < length ps" using open_bound(1) [OF ok(1)] ok(2) by (simp add: files_ok_def)
  moreover have "map_ready (mr_file (mr s)) (nReduce (mr s)) ps (disk s) (disk s)"
    using ok by (simp add: map_ready_def files_ok_def books_ok_def)
  ultimately show ?thesis
    using map_phase.job_runs [of "mr_file (mr s)" "nReduce (mr s)" ps "disk s" "disk s" j Map] assms(2)
    by (auto simp: map_ok_def DoJob_def map_args_def)
qed

lemma reduce_call_runs:
  assumes "cluster_inv Map Reduce ps fs0 s" and "go_state s i = Some (ReduceCall j)"
  shows "\<exists>t. reduce_ok Map Reduce i s = Some t"
proof -
  have ok: "books_ok s" "files_ok Map Reduce ps fs0 s" using assms(1) by (simp_all add: cluster_inv_def)
  have "j \<in># open_reduces s"
    using calls_mem [of i "gos s" reduce_call] assms(2) by (auto simp: open_reduces_def go_state_def split: if_splits)
  then have j: "j < nReduce (mr s)" using open_bound(2) [OF ok(1)] by simp
  have "reduceStart_closed (mr s)"
    using go_in_set [OF assms(2)] ok(1) by (fastforce simp: books_ok_def)
  then have "reduce_ready (mr_file (mr s)) Map (nReduce (mr s)) ps (disk s) (disk s)"
    using closed_no_maps [OF ok(1)] ok(2) by (simp add: reduce_ready_def files_ok_def)
  from reduce_phase.job_runs [OF this j, of Reduce] show ?thesis
    using assms(2) ok(2) by (auto simp: reduce_ok_def DoJob_def reduce_args_def files_ok_def)
qed

lemma report_can_step:
  assumes "mapDone (mr s) \<noteq> 0 \<or> reduceDone (mr s) \<noteq> 0" and "\<not> returned s"
  shows "\<exists>e t. local e \<and> calm e \<and> mr_exec Map Reduce e s = Some t"
proof -
  have "(\<exists>t. master_map s = Some t) \<or> (\<exists>t. master_reduce s = Some t)"
    using assms by (auto simp: master_map_def master_reduce_def Let_def)
  then show ?thesis
  proof (elim disjE exE)
    fix t assume "master_map s = Some t"
    then show ?thesis by (intro exI [of _ EMasterMap]) simp
  next
    fix t assume "master_reduce s = Some t"
    then show ?thesis by (intro exI [of _ EMasterReduce]) simp
  qed
qed

lemma map_loop_can_step:
  assumes i: "go_state s i = Some MapLoop" and "mapJobs (mr s) = [] \<longrightarrow> reduceStart_closed (mr s)"
  shows "\<exists>e t. local e \<and> calm e \<and> mr_exec Map Reduce e s = Some t"
proof (cases "mapJobs (mr s)")
  case Nil
  with assms show ?thesis by (intro exI [of _ "ETakeStart i"]) (simp add: take_start_def)
next
  case (Cons j js)
  with i show ?thesis by (intro exI [of _ "ETakeMap i"]) (simp add: take_map_def)
qed

lemma reduce_loop_can_step:
  assumes i: "go_state s i = Some ReduceLoop"
  shows "\<exists>e t. local e \<and> calm e \<and> mr_exec Map Reduce e s = Some t"
proof (cases "reduceJobs (mr s)")
  case Nil
  with i show ?thesis by (intro exI [of _ "EReduceEmpty i"]) (simp add: reduce_empty_def)
next
  case (Cons j js)
  with i show ?thesis by (intro exI [of _ "ETakeReduce i"]) (simp add: take_reduce_def)
qed

text \<open>With no report pending and no call in flight, some goroutine of a staffed cluster stands at the
  head of one of its two loops.\<close>

lemma idle_can_step:
  assumes ok: "books_ok s" and st: "staffed s" and ne: "gos s \<noteq> []" and nr: "\<not> returned s"
    and idle: "mapDone (mr s) = 0" "reduceDone (mr s) = 0" "calls map_call (gos s) = {#}"
      "calls reduce_call (gos s) = {#}"
  shows "\<exists>e t. local e \<and> calm e \<and> mr_exec Map Reduce e s = Some t"
proof -
  have "reduceJobs (mr s) \<noteq> []"
    using ok nr idle by (auto simp: books_ok_def open_reduces_def)
  moreover obtain w x where g: "(w, x) \<in> set (gos s)"
    using ne by (cases "gos s") auto
  ultimately have "x \<noteq> Returned" using st by (auto simp: staffed_def)
  moreover have "x \<noteq> MapCall j" "x \<noteq> ReduceCall j" for j
    using calls_member [OF g, of map_call] calls_member [OF g, of reduce_call] idle by auto
  ultimately consider "x = MapLoop" | "x = ReduceLoop" by (cases x) auto
  then show ?thesis
  proof cases
    case 1
    then obtain i where "go_state s i = Some MapLoop" using go_state_ex g by blast
    moreover have "mapJobs (mr s) = [] \<longrightarrow> reduceStart_closed (mr s)"
      using ok idle by (auto simp: books_ok_def open_maps_def)
    ultimately show ?thesis by (rule map_loop_can_step)
  next
    case 2
    then obtain i where "go_state s i = Some ReduceLoop" using go_state_ex g by blast
    then show ?thesis by (rule reduce_loop_can_step)
  qed
qed

lemma can_step:
  assumes inv: "cluster_inv Map Reduce ps fs0 s" and st: "staffed s" and ne: "gos s \<noteq> []"
    and nr: "\<not> returned s"
  shows "\<exists>e t. local e \<and> calm e \<and> mr_exec Map Reduce e s = Some t"
proof -
  have ok: "books_ok s" using inv by (simp add: cluster_inv_def)
  consider (report) "mapDone (mr s) \<noteq> 0 \<or> reduceDone (mr s) \<noteq> 0"
    | (mapc) j where "j \<in># calls map_call (gos s)"
    | (redc) j where "j \<in># calls reduce_call (gos s)"
    | (idle) "mapDone (mr s) = 0" "reduceDone (mr s) = 0" "calls map_call (gos s) = {#}"
        "calls reduce_call (gos s) = {#}" by fastforce
  then show ?thesis
  proof cases
    case report
    then show ?thesis using nr by (rule report_can_step)
  next
    case mapc
    then obtain i where "go_state s i = Some (MapCall j)"
      using calls_ex go_state_ex by (fastforce simp: map_call_iff)
    from map_call_runs [OF inv this] show ?thesis
      by (intro exI [of _ "EMapOk i"]) simp
  next
    case redc
    then obtain i where "go_state s i = Some (ReduceCall j)"
      using calls_ex go_state_ex by (fastforce simp: reduce_call_iff)
    from reduce_call_runs [OF inv this] show ?thesis
      by (intro exI [of _ "EReduceOk i"]) simp
  next
    case idle
    with ok st ne nr show ?thesis by (rule idle_can_step)
  qed
qed

text \<open>A run of the master without registrations and failures.\<close>

definition calm_step :: "(string \<Rightarrow> KeyValue list) \<Rightarrow> (string \<Rightarrow> string list \<Rightarrow> string) \<Rightarrow>
    cluster \<Rightarrow> mr_event \<Rightarrow> cluster \<Rightarrow> bool" where
  "calm_step Map Reduce s e t \<longleftrightarrow> calm e \<and> mr_step Map Reduce s e t"

lemma calm_steps_steps: "steps (calm_step Map Reduce) s es t \<Longrightarrow> steps (mr_step Map Reduce) s es t"
  by (erule steps_mono) (simp add: calm_step_def)

lemma staffed_steps: "steps (calm_step Map Reduce) s es t \<Longrightarrow> staffed s \<Longrightarrow> staffed t"
  by (induction rule: steps.induct) (auto simp: calm_step_def mr_step_def intro: staffed_exec)

lemma gos_steps: "steps (mr_step Map Reduce) s es t \<Longrightarrow> gos s \<noteq> [] \<Longrightarrow> gos t \<noteq> []"
proof (induction rule: steps.induct)
  case (steps_Cons s e t es u)
  have "gos t \<noteq> []"
    using steps_Cons by (cases e) (auto simp: mr_step_def set_go_def take_map_def take_start_def
        map_ok_def map_fail_def take_reduce_def reduce_empty_def reduce_ok_def reduce_fail_def
        master_register_def master_map_def master_reduce_def Let_def
        split: option.splits wstate.splits list.splits sum.splits if_splits)
  with steps_Cons show ?case by blast
qed

lemma work_steps:
  "steps (calm_step Map Reduce) s es t \<Longrightarrow> list_all local es \<Longrightarrow> length es + work t \<le> work s"
proof (induction rule: steps.induct)
  case (steps_Cons s e t es u)
  then have "work t < work s" using local_calm_work by (auto simp: calm_step_def mr_step_def)
  with steps_Cons show ?case by simp
qed simp

text \<open>
  C27: without failing calls the master finishes. Once a worker has registered and while no
  call fails, every run of the goroutines and the master is finite, with an explicit bound
  on its length, and it can only stop when \<open>RunMaster\<close> has returned: in every other state
  some goroutine or the master can take a step.
\<close>

theorem master_terminates:
  assumes "cluster_init ps nreduce f fs s0" and "steps (calm_step Map Reduce) s0 es0 s"
    and "gos s \<noteq> []" and "steps (calm_step Map Reduce) s es t" and "list_all local es"
  shows "length es \<le> work s \<and>
    (returned t \<or> (\<exists>e u. local e \<and> calm_step Map Reduce t e u))"
proof -
  have r: "reach (cluster_init ps nreduce f fs) (mr_step Map Reduce) t"
    using reach_steps [OF calm_steps_steps [OF assms(4)]] reach_steps [OF calm_steps_steps [OF assms(2)]]
      reach_init [of "cluster_init ps nreduce f fs" s0] assms(1) by blast
  have "staffed s0" using assms(1) by (simp add: cluster_init_def staffed_def)
  then have "staffed t" using staffed_steps assms(2,4) by blast
  moreover have "gos t \<noteq> []" using gos_steps [OF calm_steps_steps [OF assms(4)]] assms(3) by blast
  ultimately have "returned t \<or> (\<exists>e u. local e \<and> calm_step Map Reduce t e u)"
    using can_step cluster.reach_inv [OF r] unfolding calm_step_def mr_step_def by blast
  then show ?thesis using work_steps [OF assms(4,5)] by simp
qed

text \<open>Following the enabled steps leads to the return of \<open>RunMaster\<close>.\<close>

lemma run_to_end:
  assumes "reach (cluster_init ps nreduce f fs) (mr_step Map Reduce) s" and "staffed s" and "gos s \<noteq> []"
  shows "\<exists>es t. steps (calm_step Map Reduce) s es t \<and> list_all local es \<and> returned t"
  using assms
proof (induction "work s" arbitrary: s rule: less_induct)
  case less
  show ?case
  proof (cases "returned s")
    case True
    then show ?thesis by (intro exI [of _ "[]"] exI [of _ s]) (simp add: steps_Nil)
  next
    case False
    have "cluster_inv Map Reduce ps fs s" using cluster.reach_inv [OF less.prems(1)] by blast
    then obtain e u where e: "local e" "calm e" "mr_exec Map Reduce e s = Some u"
      using can_step less.prems(2,3) False by blast
    then have st: "mr_step Map Reduce s e u" by (simp add: mr_step_def)
    have "reach (cluster_init ps nreduce f fs) (mr_step Map Reduce) u" "staffed u" "gos u \<noteq> []"
      using reach_step [OF less.prems(1) st] staffed_exec [OF less.prems(2) e(3,2)]
        gos_steps [OF steps_one [of "mr_step Map Reduce", OF st] less.prems(3)] by blast+
    from less.hyps [OF local_calm_work [OF e(3,1,2)] this] obtain es t where
      "steps (calm_step Map Reduce) u es t" "list_all local es" "returned t" by blast
    with e st show ?thesis
      by (intro exI [of _ "e # es"] exI [of _ t]) (auto simp: calm_step_def intro: steps_Cons)
  qed
qed

lemma returned_no_step:
  assumes "go_state t i = None \<or> go_state t i = Some Returned"
  shows "take_map i t = None" "take_start i t = None" "map_ok Map Reduce i t = None"
    "map_fail i ws t = None" "take_reduce i t = None" "reduce_empty i t = None"
    "reduce_ok Map Reduce i t = None" "reduce_fail i w t = None"
  using assms by (auto simp: take_map_def take_start_def map_ok_def map_fail_def take_reduce_def
      reduce_empty_def reduce_ok_def reduce_fail_def)

text \<open>
  C28: one failing worker can stop the whole run. Let the last reduce job be in the call of
  one worker while a second, healthy worker looks for work and, as the queue is empty,
  returns from \<open>RunWorker\<close>. When the call then fails, the job goes back to the queue, but
  no goroutine is left to take it: neither goroutines nor master can ever take a step, and
  \<open>RunMaster\<close> has not returned.
\<close>

theorem reduce_failure_deadlock:
  assumes "reach (cluster_init ps nreduce f fs) (mr_step Map Reduce) s"
    and "gos s = [(a, ReduceCall j), (b, ReduceLoop)]" and "reduceJobs (mr s) = []"
    and "mapDone (mr s) = 0" and "reduceDone (mr s) = 0"
  shows "\<exists>t. steps (mr_step Map Reduce) s [EReduceEmpty 1, EReduceFail 0 None] t \<and>
    reduceJobs (mr t) = [j] \<and> \<not> returned t \<and> (\<forall>e. local e \<longrightarrow> mr_exec Map Reduce e t = None)"
proof -
  define u where "u = s\<lparr>gos := [(a, ReduceCall j), (b, Returned)]\<rparr>"
  define t where "t = s\<lparr>gos := [(a, Returned), (b, Returned)], mr := (mr s)\<lparr>reduceJobs := [j]\<rparr>\<rparr>"
  have u: "mr_exec Map Reduce (EReduceEmpty 1) s = Some u"
    using assms(2,3) by (simp add: reduce_empty_def go_state_def set_go_def u_def)
  have t: "mr_exec Map Reduce (EReduceFail 0 None) u = Some t"
    using assms(3) by (simp add: reduce_fail_def go_state_def set_go_def u_def t_def)
  have "books_ok s" using cluster.reach_inv [OF assms(1)] by (simp add: cluster_inv_def)
  then have "\<not> returned s"
    using assms(2,3) by (auto simp: books_ok_def open_reduces_def calls_def)
  then have nr: "\<not> returned t" by (simp add: t_def)
  have "go_state t i = None \<or> go_state t i = Some Returned" for i
    by (cases i) (auto simp: go_state_def t_def less_Suc_eq)
  note go = this
  have "mr_exec Map Reduce e t = None" if "local e" for e
  proof (cases e)
    case EMasterMap
    then show ?thesis using assms(4) by (simp add: master_map_def t_def)
  next
    case EMasterReduce
    then show ?thesis using assms(5) by (simp add: master_reduce_def t_def)
  next
    case (ERegister w)
    with that show ?thesis by simp
  qed (simp_all add: returned_no_step [OF go])
  moreover have "steps (mr_step Map Reduce) s [EReduceEmpty 1, EReduceFail 0 None] t"
    using u t by (auto simp: mr_step_def intro!: steps.intros)
  ultimately show ?thesis using nr by (intro exI [of _ t]) (simp add: t_def)
qed

section \<open>Witnesses\<close>

definition demo_start :: cluster where
  "demo_start = \<lparr>mr = InitMapReduce 1 1 ''f'' ''m'', gos = [], mapCount = 0, reduceCount = 0,
     returned = False, disk = [MapName ''f'' 0 \<mapsto> ''x'']\<rparr>"

lemma demo_start_init: "cluster_init [''x''] 1 ''f'' [MapName ''f'' 0 \<mapsto> ''x''] demo_start"
  by (auto simp: cluster_init_def demo_start_def)

lemma demo_register:
  "steps (calm_step Map Reduce) demo_start [ERegister ''w'']
     (demo_start\<lparr>gos := [(''w'', MapLoop)], mr := (mr demo_start)\<lparr>Workers := [(''w'', ''w'')]\<rparr>\<rparr>)"
  by (rule steps_one) (simp add: calm_step_def mr_step_def master_register_def demo_start_def
      InitMapReduce_def)

theorem master_terminates_witness:
  "\<exists>es t. steps (calm_step demo_Map demo_Reduce)
       (demo_start\<lparr>gos := [(''w'', MapLoop)], mr := (mr demo_start)\<lparr>Workers := [(''w'', ''w'')]\<rparr>\<rparr>) es t \<and>
     returned t \<and> length es \<le> 8"
proof -
  let ?s = "demo_start\<lparr>gos := [(''w'', MapLoop)], mr := (mr demo_start)\<lparr>Workers := [(''w'', ''w'')]\<rparr>\<rparr>"
  have r: "reach (cluster_init [''x''] 1 ''f'' [MapName ''f'' 0 \<mapsto> ''x''])
      (mr_step demo_Map demo_Reduce) ?s"
    using reach_steps [OF calm_steps_steps [OF demo_register] reach_init
        [of "cluster_init [''x''] 1 ''f'' [MapName ''f'' 0 \<mapsto> ''x'']", OF demo_start_init]] .
  have "staffed ?s" "gos ?s \<noteq> []" by (simp_all add: staffed_def)
  from run_to_end [OF r this] obtain es t where t: "steps (calm_step demo_Map demo_Reduce) ?s es t"
      "list_all local es" "returned t" by blast
  have "length es \<le> work ?s"
    using master_terminates [OF demo_start_init demo_register \<open>gos ?s \<noteq> []\<close> t(1,2)] by simp
  also have "\<dots> = 8" by (simp add: work_def demo_start_def InitMapReduce_def)
  finally show ?thesis using t(1,3) by blast
qed

lemma demo_run_steps:
  assumes "run_opt (\<lambda>e s. map_option (\<lambda>t. (t, ())) (mr_exec Map Reduce e s)) es s = Some t"
  shows "steps (mr_step Map Reduce) s es t"
  using run_opt_steps [OF assms] by (rule steps_mono) (auto simp: mr_step_def)

definition demo_two_workers :: "cluster option" where
  "demo_two_workers = run_opt (\<lambda>e s. map_option (\<lambda>t. (t, ())) (mr_exec (\<lambda>b. []) (\<lambda>k vs. []) e s))
     [ERegister ''a'', ERegister ''b'', ETakeMap 0, EMapOk 0, EMasterMap, ETakeStart 0, ETakeStart 1,
      ETakeReduce 0] demo_start"

lemma demo_two_workers_state:
  "case demo_two_workers of None \<Rightarrow> False
   | Some s \<Rightarrow> gos s = [(''a'', ReduceCall 0), (''b'', ReduceLoop)] \<and> reduceJobs (mr s) = [] \<and>
       mapDone (mr s) = 0 \<and> reduceDone (mr s) = 0"
  by code_simp

lemma demo_two_workers_reach:
  assumes "demo_two_workers = Some s"
  shows "reach (cluster_init [''x''] 1 ''f'' [MapName ''f'' 0 \<mapsto> ''x'']) (mr_step (\<lambda>b. []) (\<lambda>k vs. [])) s"
  using reach_steps [OF demo_run_steps [OF assms [unfolded demo_two_workers_def]] reach_init
      [of "cluster_init [''x''] 1 ''f'' [MapName ''f'' 0 \<mapsto> ''x'']", OF demo_start_init]] .

theorem jobs_conserved_witness:
  "\<exists>s. demo_two_workers = Some s \<and> gos s = [(''a'', ReduceCall 0), (''b'', ReduceLoop)] \<and>
     open_maps s = {#} \<and> mapCount s = 1 \<and> size (open_reduces s) + reduceCount s = 1 \<and>
     map_finished ''f'' (\<lambda>b. []) 1 [''x''] 0 (disk s)"
proof -
  obtain s where s: "demo_two_workers = Some s" "gos s = [(''a'', ReduceCall 0), (''b'', ReduceLoop)]"
      "mapDone (mr s) = 0" "reduceDone (mr s) = 0"
    using demo_two_workers_state by (auto split: option.splits)
  note c = jobs_conserved [OF demo_two_workers_reach [OF s(1)]]
  have "(''a'', ReduceCall 0) \<in> set (gos s)" using s(2) by simp
  then have "open_maps s = {#}" "map_finished ''f'' (\<lambda>b. []) 1 [''x''] 0 (disk s)" using c by auto
  with c s show ?thesis by (intro exI [of _ s]) simp
qed

theorem reduce_failure_deadlock_witness:
  "\<exists>s t. demo_two_workers = Some s \<and>
     steps (mr_step (\<lambda>b. []) (\<lambda>k vs. [])) s [EReduceEmpty 1, EReduceFail 0 None] t \<and> \<not> returned t \<and>
     (\<forall>e. local e \<longrightarrow> mr_exec (\<lambda>b. []) (\<lambda>k vs. []) e t = None)"
proof -
  obtain s where s: "demo_two_workers = Some s" "gos s = [(''a'', ReduceCall 0), (''b'', ReduceLoop)]"
      "reduceJobs (mr s) = []" "mapDone (mr s) = 0" "reduceDone (mr s) = 0"
    using demo_two_workers_state by (auto split: option.splits)
  from reduce_failure_deadlock [OF demo_two_workers_reach [OF s(1)] s(2-)] s(1) show ?thesis by blast
qed

text \<open>One worker that never fails brings a run to its end.\<close>

lemma complete_run:
  assumes "fs f = Some b" and "0 < nmap" and "length (parts nmap b) = nmap"
    and "0 < nreduce" and "nreduce < 2 ^ 32"
  shows "\<exists>s0 es s. Run_start (InitMapReduce nmap nreduce f master) fs = Inr s0 \<and>
    steps (mr_step Map Reduce) s0 es s \<and> returned s"
proof -
  let ?m = "InitMapReduce nmap nreduce f master" and ?ps = "parts nmap b"
  have m: "nMap ?m = nmap" "nReduce ?m = nreduce" "mr_file ?m = f" by (simp_all add: InitMapReduce_def)
  obtain fs1 where fs1: "Split ?m f fs = Inr fs1" "holds_parts (MapName f) 0 ?ps fs fs1"
    using Split_parts [of fs f, OF assms(1), of ?m] m assms(2) by auto
  define s0 where "s0 = \<lparr>mr = ?m, gos = [], mapCount = 0, reduceCount = 0, returned = False, disk = fs1\<rparr>"
  have st: "Run_start ?m fs = Inr s0" using fs1(1) m assms(2) by (simp add: Run_start_def s0_def)
  have "cluster_init ?ps nreduce f fs1 s0"
    using fs1(2) assms(2-5) by (auto simp: cluster_init_def s0_def holds_parts_def)
  then have r0: "reach (cluster_init ?ps nreduce f fs1) (mr_step Map Reduce) s0" by (rule reach_init)
  obtain s1 where s1: "mr_step Map Reduce s0 (ERegister ''w'') s1" "staffed s1" "gos s1 \<noteq> []"
    by (simp add: mr_step_def master_register_def s0_def staffed_def)
  from run_to_end [OF reach_step [OF r0 s1(1)] s1(2,3)] obtain es s where
    s: "steps (calm_step Map Reduce) s1 es s" "returned s" by blast
  have "steps (mr_step Map Reduce) s0 (ERegister ''w'' # es) s"
    using s1(1) calm_steps_steps [OF s(1)] by (rule steps_Cons)
  then show ?thesis using st s(2) by blast
qed

theorem distributed_run_correct_witness:
  "\<exists>s0 es s fs2. Run_start (InitMapReduce 2 3 ''f'' ''m'') demo_fs = Inr s0 \<and>
     steps (mr_step demo_Map demo_Reduce) s0 es s \<and> Run_finish s = Inr fs2 \<and>
     fs2 (out_name ''f'') = Some (''x: 2'' @ [newline])"
proof -
  have fs: "demo_fs ''f'' = Some demo_text" by (simp add: demo_fs_def)
  have len: "length (parts 2 demo_text) = 2" by (simp add: demo_parts)
  obtain s0 es s where st: "Run_start (InitMapReduce 2 3 ''f'' ''m'') demo_fs = Inr s0"
      and run: "steps (mr_step demo_Map demo_Reduce) s0 es s" and ret: "returned s"
    using complete_run [of demo_fs "''f''" demo_text 2 3 "''m''" demo_Map demo_Reduce, OF fs _ len] by auto
  have "\<exists>fs1 fs2. RunSingle 2 3 ''f'' demo_Map demo_Reduce demo_fs = Inr fs1 \<and> Run_finish s = Inr fs2 \<and>
      fs2 (out_name ''f'') = fs1 (out_name ''f'') \<and>
      fs2 (out_name ''f'') = Some (mr_result demo_Reduce (concat (map demo_Map (parts 2 demo_text))))"
    by (rule distributed_run_correct [OF _ _ _ _ _ _ _ st run ret]) (simp_all add: demo_app fs len)
  then show ?thesis using st run demo_result by auto
qed

end
