(* ===== verification/Mapreduce_Registration.thy ===== *)
theory Mapreduce_Registration
  imports Mapreduce_Master
begin

text \<open>
  The process of the master around \<open>RunMaster\<close> (\<open>mapreduce.go\<close>: \<open>MakeMapReduce\<close>, the
  registration server with its handlers \<open>Register\<close> and \<open>Shutdown\<close>, \<open>Run\<close> and
  \<open>CleanupRegistration\<close>) and the remote calls by which it is reached (\<open>call\<close> of
  \<open>common.go\<close>, \<open>Register\<close> of \<open>worker.go\<close>).
\<close>

section \<open>Remote calls\<close>

text \<open>
  What becomes of a call: the server is not reached, the connection breaks before or after the
  handler has run, or the reply arrives. A handler yields a new state, a reply and perhaps an
  error.
\<close>

datatype transport = NoContact | Broken bool | Answered

definition call :: "transport \<Rightarrow> ('s \<Rightarrow> 's \<times> 'r \<times> string option) \<Rightarrow> 's \<Rightarrow> 's \<times> 'r option" where
  "call tr h s = (case tr of
       NoContact \<Rightarrow> (s, None)
     | Broken handled \<Rightarrow> (if handled then fst (h s) else s, None)
     | Answered \<Rightarrow> (case h s of (t, r, e) \<Rightarrow> (t, if e = None then Some r else None)))"

text \<open>The line a worker prints when its registration fails.\<close>

definition worker_Register :: "string \<Rightarrow> bool option \<Rightarrow> string" where
  "worker_Register master reply = (case reply of Some _ \<Rightarrow> ''''
     | None \<Rightarrow> ''Register: RPC '' @ master @ '' register error'' @ [newline])"

section \<open>State\<close>

text \<open>
  The goroutines of the process are modelled up to its exit: when \<open>Run\<close> has ended, \<open>main\<close> returns
  at some point, which takes no step here, so a run may be cut off anywhere after \<open>RunDone\<close>.
  The accept loop of the registration server is at its test, in \<open>Accept\<close> or has ended. \<open>Run\<close>
  is in \<open>RunMaster\<close>, in \<open>CleanupRegistration\<close>, at its send on \<open>DoneChannel\<close> or has ended.
  \<open>conns\<close> counts the accepted connections whose request is not handled yet, and \<open>sending\<close> has
  the workers whose \<open>Register\<close> handler waits for a receiver on \<open>registerChannel\<close>, which has
  no buffer.
\<close>

datatype loop_pc = AtTest | AtAccept | LoopDone

datatype run_pc = InMaster | InCleanup | AtDone | RunDone

record master_proc =
  clu :: cluster
  listening :: bool
  loop :: loop_pc
  conns :: nat
  sending :: "string list"
  run :: run_pc

text \<open>
  The address of the master is the name of a socket in the file system, so a file of that name
  is removed. Listening on it may fail, which ends the process.
\<close>

definition MakeMapReduce :: "bool \<Rightarrow> nat \<Rightarrow> nat \<Rightarrow> string \<Rightarrow> string \<Rightarrow> fs \<Rightarrow> failure + master_proc" where
  "MakeMapReduce listens nmap nreduce f master fs =
    (if \<not> listens then Inl (Fatal ''RegstrationServer'' master)
     else case Run_start (InitMapReduce nmap nreduce f master) (fs(master := None)) of
       Inl e \<Rightarrow> Inl e
     | Inr c \<Rightarrow> Inr \<lparr>clu = c, listening = True, loop = AtTest, conns = 0, sending = [], run = InMaster\<rparr>)"

abbreviation proc_alive :: "master_proc \<Rightarrow> bool" where
  "proc_alive p \<equiv> alive (mr (clu p))"

section \<open>Operations\<close>

definition loop_test :: "master_proc \<Rightarrow> master_proc option" where
  "loop_test p = (if loop p = AtTest then Some (p\<lparr>loop := (if proc_alive p then AtAccept else LoopDone)\<rparr>) else None)"

text \<open>\<open>Accept\<close> yields a connection only while the listener is open; an error ends the loop.\<close>

definition loop_accept :: "bool \<Rightarrow> master_proc \<Rightarrow> master_proc option" where
  "loop_accept ok p = (if loop p \<noteq> AtAccept \<or> ok \<and> \<not> listening p then None
     else if ok then Some (p\<lparr>loop := AtTest, conns := conns p + 1\<rparr>) else Some (p\<lparr>loop := LoopDone\<rparr>))"

text \<open>The handler \<open>Register\<close> on an accepted connection, and the receive that lets it return.\<close>

definition MR_Register :: "string \<Rightarrow> master_proc \<Rightarrow> master_proc option" where
  "MR_Register w p = (if conns p = 0 then None else Some (p\<lparr>conns := conns p - 1, sending := sending p @ [w]\<rparr>))"

definition master_receive :: "nat \<Rightarrow> master_proc \<Rightarrow> master_proc option" where
  "master_receive i p = (if i < length (sending p) \<and> run p = InMaster
     then (case master_register (sending p ! i) (clu p) of
         None \<Rightarrow> None
       | Some c \<Rightarrow> Some (p\<lparr>clu := c, sending := take i (sending p) @ drop (Suc i) (sending p)\<rparr>))
     else None)"

definition MR_Shutdown :: "master_proc \<Rightarrow> master_proc" where
  "MR_Shutdown p = p\<lparr>clu := (clu p)\<lparr>mr := (mr (clu p))\<lparr>alive := False\<rparr>\<rparr>, listening := False\<rparr>"

text \<open>
  \<open>Run\<close> after \<open>RunMaster\<close>: the merge, then \<open>CleanupRegistration\<close>, whose call reaches its
  handler on an accepted connection or fails, then the send on \<open>DoneChannel\<close>.
\<close>

definition run_merge :: "master_proc \<Rightarrow> master_proc option" where
  "run_merge p = (if run p = InMaster \<and> returned (clu p)
     then (case Run_finish (clu p) of Inl _ \<Rightarrow> None
       | Inr fs \<Rightarrow> Some (p\<lparr>clu := (clu p)\<lparr>disk := fs\<rparr>, run := InCleanup\<rparr>)) else None)"

definition CleanupRegistration :: "transport \<Rightarrow> master_proc \<Rightarrow> master_proc option" where
  "CleanupRegistration tr p = (if run p \<noteq> InCleanup \<or> (tr \<noteq> NoContact \<and> conns p = 0) then None
     else let q = (if tr = NoContact then p else p\<lparr>conns := conns p - 1\<rparr>) in
       Some ((fst (call tr (\<lambda>p. (MR_Shutdown p, (), None)) q))\<lparr>run := AtDone\<rparr>))"

definition run_done :: "master_proc \<Rightarrow> master_proc option" where
  "run_done p = (if run p = AtDone then Some (p\<lparr>run := RunDone\<rparr>) else None)"

datatype proc_event = PTest | PAccept bool | PRegister string | PReceive nat | PCluster mr_event
  | PMerge | PCleanup transport | PDone

fun is_register :: "mr_event \<Rightarrow> bool" where
  "is_register (ERegister w) = True"
| "is_register _ = False"

fun proc_exec :: "(string \<Rightarrow> KeyValue list) \<Rightarrow> (string \<Rightarrow> string list \<Rightarrow> string) \<Rightarrow>
    proc_event \<Rightarrow> master_proc \<Rightarrow> master_proc option" where
  "proc_exec Map Reduce PTest p = loop_test p"
| "proc_exec Map Reduce (PAccept ok) p = loop_accept ok p"
| "proc_exec Map Reduce (PRegister w) p = MR_Register w p"
| "proc_exec Map Reduce (PReceive i) p = master_receive i p"
| "proc_exec Map Reduce (PCluster e) p = (if is_register e then None
     else map_option (\<lambda>c. p\<lparr>clu := c\<rparr>) (mr_exec Map Reduce e (clu p)))"
| "proc_exec Map Reduce PMerge p = run_merge p"
| "proc_exec Map Reduce (PCleanup tr) p = CleanupRegistration tr p"
| "proc_exec Map Reduce PDone p = run_done p"

definition proc_step :: "(string \<Rightarrow> KeyValue list) \<Rightarrow> (string \<Rightarrow> string list \<Rightarrow> string) \<Rightarrow>
    master_proc \<Rightarrow> proc_event \<Rightarrow> master_proc \<Rightarrow> bool" where
  "proc_step Map Reduce p e q \<longleftrightarrow> proc_exec Map Reduce e p = Some q"

text \<open>Executing a list of events.\<close>

definition proc_run :: "(string \<Rightarrow> KeyValue list) \<Rightarrow> (string \<Rightarrow> string list \<Rightarrow> string) \<Rightarrow>
    proc_event list \<Rightarrow> master_proc \<Rightarrow> master_proc option" where
  "proc_run Map Reduce = run_opt (\<lambda>e p. map_option (\<lambda>q. (q, ())) (proc_exec Map Reduce e p))"

lemma proc_run_steps: "proc_run Map Reduce es p = Some q \<Longrightarrow> steps (proc_step Map Reduce) p es q"
  using run_opt_steps [of "\<lambda>e p. map_option (\<lambda>q. (q, ())) (proc_exec Map Reduce e p)" es p q]
  by (simp add: proc_run_def proc_step_def [abs_def])

section \<open>The accept loop ends after Shutdown\<close>

fun is_loop :: "proc_event \<Rightarrow> bool" where
  "is_loop PTest = True"
| "is_loop (PAccept ok) = True"
| "is_loop _ = False"

text \<open>The flag and the listener go down together, and never come up again.\<close>

lemma mr_exec_alive: "mr_exec Map Reduce e c = Some c' \<Longrightarrow> alive (mr c') = alive (mr c)"
  by (cases e) (auto simp: master_register_def take_map_def take_start_def map_ok_def map_fail_def take_reduce_def
      reduce_empty_def reduce_ok_def reduce_fail_def master_map_def master_reduce_def set_go_def Let_def
      split: option.splits wstate.splits sum.splits list.splits if_splits)

lemma mr_exec_returned: "mr_exec Map Reduce e c = Some c' \<Longrightarrow> returned c \<Longrightarrow> returned c'"
  by (cases e) (auto simp: master_register_def take_map_def take_start_def map_ok_def map_fail_def take_reduce_def
      reduce_empty_def reduce_ok_def reduce_fail_def master_map_def master_reduce_def set_go_def Let_def
      split: option.splits wstate.splits sum.splits list.splits if_splits)

definition proc_init :: "fs \<Rightarrow> string \<Rightarrow> string \<Rightarrow> nat \<Rightarrow> nat \<Rightarrow> master_proc \<Rightarrow> bool" where
  "proc_init fs f master nmap nreduce p \<longleftrightarrow> MakeMapReduce True nmap nreduce f master fs = Inr p"

definition proc_inv :: "master_proc \<Rightarrow> bool" where
  "proc_inv p \<longleftrightarrow> proc_alive p = listening p"

lemmas proc_defs = loop_test_def loop_accept_def MR_Register_def master_receive_def run_merge_def
  CleanupRegistration_def run_done_def MR_Shutdown_def call_def

lemma master_register_alive: "master_register w c = Some c' \<Longrightarrow> alive (mr c') = alive (mr c)"
  by (auto simp: master_register_def split: if_splits)

lemma proc_inv_step:
  assumes "proc_inv p" and "proc_step Map Reduce p e q"
  shows "proc_inv q"
  using assms
  by (cases e) (auto simp: proc_step_def proc_inv_def proc_defs Let_def mr_exec_alive master_register_alive
      split: if_splits option.splits sum.splits transport.splits)

interpretation proc: inductive_invariant "proc_init fs f master nmap nreduce" "proc_step Map Reduce" proc_inv
  for fs f master nmap nreduce Map Reduce
proof
  show "proc_inv p" if "proc_init fs f master nmap nreduce p" for p
    using that by (auto simp: proc_init_def MakeMapReduce_def proc_inv_def Run_start_def InitMapReduce_def
        split: sum.splits)
  show "proc_inv q" if "proc_inv p" "proc_step Map Reduce p e q" for p e q
    using proc_inv_step that by blast
qed

lemma down_step:
  assumes "proc_inv p" and "\<not> listening p" and "proc_step Map Reduce p e q"
  shows "\<not> listening q \<and> e \<noteq> PAccept True \<and>
    (if is_loop e then loop p \<noteq> LoopDone \<and> loop q = LoopDone else loop q = loop p)"
  using assms
  by (cases e) (auto simp: proc_step_def proc_inv_def proc_defs Let_def
      split: if_splits option.splits sum.splits transport.splits)

lemma down_run:
  assumes "steps (proc_step Map Reduce) p es q" and "proc_inv p" and "\<not> listening p"
  shows "PAccept True \<notin> set es \<and> length (filter is_loop es) \<le> (if loop p = LoopDone then 0 else 1) \<and>
    proc_inv q \<and> \<not> listening q"
  using assms
proof (induction rule: steps.induct)
  case (steps_Cons p e t es q)
  have t: "proc_inv t" using proc_inv_step steps_Cons.prems(1) steps_Cons.hyps(1) by blast
  note d = down_step [OF steps_Cons.prems steps_Cons.hyps(1)]
  from steps_Cons.IH [OF t] d show ?case by (auto split: if_splits)
qed simp

text \<open>
  The registration server stops. Once the listener is closed by \<open>Shutdown\<close>, no further
  connection is accepted, the accept loop makes at most one more step, and unless it has ended
  it can make that step, which ends it.
\<close>

theorem registration_server_stops:
  assumes "reach (proc_init fs f master nmap nreduce) (proc_step Map Reduce) p" and "\<not> listening p"
    and "steps (proc_step Map Reduce) p es q"
  shows "PAccept True \<notin> set es \<and> length (filter is_loop es) \<le> 1 \<and>
    (loop q = LoopDone \<or> (\<exists>e t. is_loop e \<and> proc_step Map Reduce q e t \<and> loop t = LoopDone))"
proof -
  have inv: "proc_inv p" using proc.reach_inv [OF assms(1)] .
  note run = down_run [OF assms(3) inv assms(2)]
  have "\<exists>e t. is_loop e \<and> proc_step Map Reduce q e t \<and> loop t = LoopDone" if "loop q \<noteq> LoopDone"
  proof (cases "loop q")
    case AtTest
    then show ?thesis using run by (intro exI [of _ PTest]) (auto simp: proc_step_def loop_test_def proc_inv_def)
  next
    case AtAccept
    then show ?thesis by (intro exI [of _ "PAccept False"]) (auto simp: proc_step_def loop_accept_def)
  qed (use that in simp)
  then show ?thesis using run by (auto split: if_splits)
qed

section \<open>A registration that comes too late\<close>

lemma late_step:
  assumes "returned (clu p)" and "proc_step Map Reduce p e q"
  shows "returned (clu q) \<and> (\<exists>ws. sending q = sending p @ ws)"
  using assms
  by (cases e) (auto simp: proc_step_def proc_defs Let_def mr_exec_returned master_register_def
      split: if_splits option.splits sum.splits transport.splits)

text \<open>
  A worker that registers too late is not answered. When \<open>RunMaster\<close> has returned nobody
  receives from \<open>registerChannel\<close> any more, while the registration server still accepts: a
  \<open>Register\<close> handler that is sending then does not return as long as the process runs. The call of
  the worker ends with the connection, when \<open>main\<close> returns after its receive on \<open>DoneChannel\<close>.
\<close>

theorem late_registration_unanswered:
  assumes "returned (clu p)" and "w \<in> set (sending p)" and "steps (proc_step Map Reduce) p es q"
  shows "w \<in> set (sending q) \<and> returned (clu q)"
  using assms(3,1,2)
proof (induction rule: steps.induct)
  case (steps_Cons p e t es q)
  have "returned (clu t)" "w \<in> set (sending t)"
    using late_step [OF steps_Cons.prems(1) steps_Cons.hyps(1)] steps_Cons.prems(2) by auto
  then show ?case by (rule steps_Cons.IH)
qed simp

section \<open>The process and the cluster\<close>

text \<open>While \<open>RunMaster\<close> runs, a step of the process is a step of the cluster or leaves it alone.\<close>

lemma proc_step_cluster:
  assumes "proc_step Map Reduce p e q" and "run q = InMaster"
  shows "run p = InMaster \<and> (clu q = clu p \<or> (\<exists>e'. mr_step Map Reduce (clu p) e' (clu q)))"
proof (cases e)
  case (PReceive i)
  then show ?thesis using assms
    by (auto simp: proc_step_def master_receive_def mr_step_def split: if_splits option.splits
        intro: exI [of _ "ERegister (sending p ! i)"])
next
  case (PCluster e')
  then show ?thesis using assms by (auto simp: proc_step_def mr_step_def split: if_splits)
qed (use assms in \<open>auto simp: proc_step_def proc_defs Let_def split: if_splits option.splits sum.splits transport.splits\<close>)

lemma proc_run_cluster:
  assumes "steps (proc_step Map Reduce) p es q" and "run q = InMaster"
  shows "run p = InMaster \<and> (\<exists>es'. steps (mr_step Map Reduce) (clu p) es' (clu q))"
  using assms
proof (induction rule: steps.induct)
  case (steps_Nil p)
  then show ?case by (auto intro: steps.steps_Nil)
next
  case (steps_Cons p e t es q)
  then obtain es' where es': "run t = InMaster" "steps (mr_step Map Reduce) (clu t) es' (clu q)" by blast
  from proc_step_cluster [OF steps_Cons.hyps(1) es'(1)] es'(2) show ?case
    by (auto intro: steps.steps_Cons)
qed

text \<open>Conversely the process can follow every run of the cluster.\<close>

definition quiet :: "master_proc \<Rightarrow> bool" where
  "quiet p \<longleftrightarrow> listening p \<and> loop p = AtTest \<and> conns p = 0 \<and> sending p = [] \<and> run p = InMaster"

lemma proc_follows_step:
  assumes "quiet p" and "proc_inv p" and "mr_step Map Reduce (clu p) e c"
  shows "\<exists>es. steps (proc_step Map Reduce) p es (p\<lparr>clu := c\<rparr>)"
proof (cases e)
  case (ERegister w)
  have "proc_run Map Reduce [PTest, PAccept True, PRegister w, PReceive 0] p = Some (p\<lparr>clu := c\<rparr>)"
    using assms ERegister by (cases p) (simp add: quiet_def proc_inv_def mr_step_def proc_defs proc_run_def)
  then show ?thesis using proc_run_steps by blast
qed (use assms(3) in \<open>auto simp: mr_step_def proc_step_def intro!: exI [of _ "[PCluster e]"] steps_one\<close>)

lemma proc_follows_run:
  assumes "steps (mr_step Map Reduce) c es c'" and "clu p = c" and "quiet p" and "proc_inv p"
  shows "\<exists>es'. steps (proc_step Map Reduce) p es' (p\<lparr>clu := c'\<rparr>)"
  using assms
proof (induction arbitrary: p rule: steps.induct)
  case (steps_Nil c)
  then show ?case by (cases p) (auto intro: steps.steps_Nil)
next
  case (steps_Cons c e d es c')
  obtain es1 where es1: "steps (proc_step Map Reduce) p es1 (p\<lparr>clu := d\<rparr>)"
    using proc_follows_step [OF steps_Cons.prems(2,3)] steps_Cons.hyps(1) steps_Cons.prems(1) by blast
  have "proc_inv (p\<lparr>clu := d\<rparr>)" using proc.steps_inv [OF es1 steps_Cons.prems(3)] .
  moreover have "quiet (p\<lparr>clu := d\<rparr>)" using steps_Cons.prems(2) by (simp add: quiet_def)
  ultimately obtain es2 where "steps (proc_step Map Reduce) (p\<lparr>clu := d\<rparr>) es2 (p\<lparr>clu := d\<rparr>\<lparr>clu := c'\<rparr>)"
    using steps_Cons.IH [of "p\<lparr>clu := d\<rparr>"] by auto
  then show ?case using steps_append [OF es1] by auto
qed

text \<open>
  C23: the process of the master writes the right file. However connections, registrations, the
  cluster and the accept loop interleave, when \<open>RunMaster\<close> has returned, the merge of \<open>Run\<close>
  succeeds and leaves in the output file, for every key the map function yields, the reduction of
  all its values.
\<close>

theorem master_process_output:
  assumes "\<And>b kv. kv \<in> set (Map b) \<Longrightarrow> valid_utf8 (Key kv) \<and> valid_utf8 (Value kv)"
    and "\<And>k vs. valid_utf8 k \<Longrightarrow> list_all valid_utf8 vs \<Longrightarrow> valid_utf8 (Reduce k vs)"
    and "fs f = Some b \<and> f \<noteq> master" and "0 < nmap" and "length (parts nmap b) = nmap"
    and "0 < nreduce" and "nreduce < 2 ^ 32"
    and "MakeMapReduce True nmap nreduce f master fs = Inr p0"
    and "steps (proc_step Map Reduce) p0 es p" and "run p = InMaster" and "returned (clu p)"
  shows "\<exists>q. proc_step Map Reduce p PMerge q \<and> run q = InCleanup \<and>
    disk (clu q) (out_name f) = Some (mr_result Reduce (concat (map Map (parts nmap b))))"
proof -
  have app: "utf8_app Map Reduce" by unfold_locales (use assms(1,2) in blast)+
  have fs: "(fs(master := None)) f = Some b" using assms(3) by simp
  have start: "Run_start (InitMapReduce nmap nreduce f master) (fs(master := None)) = Inr (clu p0)"
    using assms(8) by (auto simp: MakeMapReduce_def split: sum.splits)
  obtain es' where "steps (mr_step Map Reduce) (clu p0) es' (clu p)"
    using proc_run_cluster [OF assms(9,10)] by blast
  from distributed_output [OF app fs assms(4-7) start this assms(11)] show ?thesis
    using assms(10,11) by (simp add: proc_step_def run_merge_def)
qed

section \<open>Witnesses\<close>

lemma demo_process:
  "\<exists>p0 es p. MakeMapReduce True 2 3 ''f'' ''m'' demo_fs = Inr p0 \<and>
     steps (proc_step demo_Map demo_Reduce) p0 es p \<and> quiet p \<and> proc_inv p \<and> returned (clu p) \<and>
     (\<exists>fs. Run_finish (clu p) = Inr fs)"
proof -
  have demo: "demo_fs(''m'' := None) = demo_fs" by (auto simp: demo_fs_def)
  have fs: "demo_fs ''f'' = Some demo_text" by (simp add: demo_fs_def)
  have len: "length (parts 2 demo_text) = 2" by (simp add: demo_parts)
  obtain c es c' where c: "Run_start (InitMapReduce 2 3 ''f'' ''m'') demo_fs = Inr c"
      "steps (mr_step demo_Map demo_Reduce) c es c'" "returned c'"
    using complete_run [of demo_fs "''f''" demo_text 2 3 "''m''" demo_Map demo_Reduce, OF fs _ len] by auto
  define p0 where "p0 = \<lparr>clu = c, listening = True, loop = AtTest, conns = 0, sending = [], run = InMaster\<rparr>"
  have p0: "MakeMapReduce True 2 3 ''f'' ''m'' demo_fs = Inr p0" using c(1) by (simp add: MakeMapReduce_def p0_def demo)
  have inv: "proc_inv p0" using proc.init_inv [unfolded proc_init_def, OF p0] .
  obtain es' where run: "steps (proc_step demo_Map demo_Reduce) p0 es' (p0\<lparr>clu := c'\<rparr>)"
    using proc_follows_run [OF c(2), of p0] inv by (auto simp: p0_def quiet_def)
  moreover have "proc_inv (p0\<lparr>clu := c'\<rparr>)" using proc.steps_inv [OF run inv] .
  moreover have "utf8_app demo_Map demo_Reduce" by unfold_locales (simp_all add: demo_app)
  then have "\<exists>fs. Run_finish c' = Inr fs"
    using distributed_output [of demo_Map demo_Reduce demo_fs "''f''" demo_text 2 3 "''m''", OF _ fs _ len _ _ c] by auto
  ultimately show ?thesis using p0 c(3)
    by (intro exI [of _ p0] exI [of _ es'] exI [of _ "p0\<lparr>clu := c'\<rparr>"]) (simp add: p0_def quiet_def)
qed

theorem master_process_output_witness:
  "\<exists>p0 es p q. MakeMapReduce True 2 3 ''f'' ''m'' demo_fs = Inr p0 \<and>
     steps (proc_step demo_Map demo_Reduce) p0 es p \<and> proc_step demo_Map demo_Reduce p PMerge q \<and>
     disk (clu q) (out_name ''f'') = Some (''x: 2'' @ [newline])"
proof -
  obtain p0 es p where p: "MakeMapReduce True 2 3 ''f'' ''m'' demo_fs = Inr p0"
      "steps (proc_step demo_Map demo_Reduce) p0 es p" "run p = InMaster" "returned (clu p)"
    using demo_process by (auto simp: quiet_def)
  have "\<exists>q. proc_step demo_Map demo_Reduce p PMerge q \<and> run q = InCleanup \<and>
      disk (clu q) (out_name ''f'') = Some (mr_result demo_Reduce (concat (map demo_Map (parts 2 demo_text))))"
    by (rule master_process_output [OF _ _ _ _ _ _ _ p]) (simp_all add: demo_app demo_fs_def demo_parts)
  then show ?thesis using p(1,2) demo_result by auto
qed

lemma demo_late:
  "\<exists>p. reach (proc_init demo_fs ''f'' ''m'' 2 3) (proc_step demo_Map demo_Reduce) p \<and>
     returned (clu p) \<and> sending p = [''late'']"
proof -
  obtain p0 es p where p: "MakeMapReduce True 2 3 ''f'' ''m'' demo_fs = Inr p0"
      "steps (proc_step demo_Map demo_Reduce) p0 es p" "quiet p" "proc_inv p" "returned (clu p)"
    using demo_process by blast
  let ?q = "p\<lparr>sending := [''late'']\<rparr>"
  have "proc_run demo_Map demo_Reduce [PTest, PAccept True, PRegister ''late''] p = Some ?q"
    using p(3,4) by (cases p) (simp add: quiet_def proc_inv_def proc_defs proc_run_def)
  note proc_run_steps [OF this]
  moreover have "reach (proc_init demo_fs ''f'' ''m'' 2 3) (proc_step demo_Map demo_Reduce) p"
    using p(1) by (intro reach_steps [OF p(2)] reach_init) (simp add: proc_init_def)
  ultimately have "reach (proc_init demo_fs ''f'' ''m'' 2 3) (proc_step demo_Map demo_Reduce) ?q"
    by (rule reach_steps)
  then show ?thesis using p(5) by (intro exI [of _ ?q]) simp
qed

theorem late_registration_unanswered_witness:
  "\<exists>p. reach (proc_init demo_fs ''f'' ''m'' 2 3) (proc_step demo_Map demo_Reduce) p \<and>
     (\<forall>es q. steps (proc_step demo_Map demo_Reduce) p es q \<longrightarrow> ''late'' \<in> set (sending q))"
  using demo_late late_registration_unanswered [of _ "''late''" demo_Map demo_Reduce] by (metis list.set_intros(1))

theorem registration_server_stops_witness:
  "\<exists>p. reach (proc_init demo_fs ''f'' ''m'' 2 3) (proc_step demo_Map demo_Reduce) p \<and> \<not> listening p \<and>
     (\<forall>es q. steps (proc_step demo_Map demo_Reduce) p es q \<longrightarrow> PAccept True \<notin> set es)"
proof -
  obtain p0 es p fs where p: "MakeMapReduce True 2 3 ''f'' ''m'' demo_fs = Inr p0"
      "steps (proc_step demo_Map demo_Reduce) p0 es p" "quiet p" "proc_inv p" "returned (clu p)" "Run_finish (clu p) = Inr fs"
    using demo_process by blast
  let ?es = "[PMerge, PTest, PAccept True, PCleanup Answered]"
  obtain q where q: "proc_run demo_Map demo_Reduce ?es p = Some q" "\<not> listening q"
    using p(3-6) by (cases p) (simp add: quiet_def proc_inv_def proc_defs proc_run_def)
  note proc_run_steps [OF q(1)]
  moreover have "reach (proc_init demo_fs ''f'' ''m'' 2 3) (proc_step demo_Map demo_Reduce) p"
    using p(1) by (intro reach_steps [OF p(2)] reach_init) (simp add: proc_init_def)
  ultimately have r: "reach (proc_init demo_fs ''f'' ''m'' 2 3) (proc_step demo_Map demo_Reduce) q"
    by (rule reach_steps)
  then show ?thesis using registration_server_stops [OF r q(2)] q(2) by blast
qed

end
