(* ===== verification/Mapreduce_Worker.thy ===== *)
theory Mapreduce_Worker
  imports Mapreduce_Registration
begin

text \<open>
  The process of a worker (\<open>mapreduce/worker.go\<close>): \<open>RunWorker\<close> with its accept loop, and the
  handlers \<open>DoJob\<close> and \<open>Shutdown\<close>, which run in goroutines of their own.
\<close>

section \<open>State\<close>

record Worker =
  wk_name :: string
  nRPC :: int
  nJobs :: int

definition new_Worker :: "string \<Rightarrow> int \<Rightarrow> Worker" where
  "new_Worker me n = \<lparr>wk_name = me, nRPC = n, nJobs = 0\<rparr>"

text \<open>
  The loop is at its test, in \<open>Accept\<close>, before the increment of \<open>nJobs\<close>, or has ended.
  \<open>serving\<close> counts the accepted connections whose request has not been handled and \<open>taken\<close>
  all that were accepted. A call of \<open>common.go\<close> makes one request on its connection. A job that
  ends in \<open>log.Fatal\<close> ends the process.
\<close>

datatype worker_pc = WTest | WAccept | WCount | WExit

record worker_proc =
  wk :: Worker
  wpc :: worker_pc
  w_listening :: bool
  serving :: nat
  taken :: nat
  w_disk :: fs
  crashed :: "failure option"

text \<open>
  \<open>RunWorker\<close> up to its loop: the name of the worker is the name of its socket. The first
  argument says whether listening works, the second is the reply of the master.
\<close>

definition RunWorker :: "bool \<Rightarrow> bool option \<Rightarrow> string \<Rightarrow> string \<Rightarrow> int \<Rightarrow> fs \<Rightarrow> failure + (string \<times> worker_proc)" where
  "RunWorker listens reply master me n fs =
    (if \<not> listens then Inl (Fatal (''RunWorker: worker '' @ me) '' error: '')
     else Inr (worker_Register master reply,
       \<lparr>wk = new_Worker me n, wpc = WTest, w_listening = True, serving = 0, taken = 0,
        w_disk = fs(me := None), crashed = None\<rparr>))"

section \<open>The loop\<close>

definition w_test :: "worker_proc \<Rightarrow> worker_proc option" where
  "w_test p = (if wpc p \<noteq> WTest then None
     else if nRPC (wk p) \<noteq> 0 then Some (p\<lparr>wpc := WAccept\<rparr>)
     else Some (p\<lparr>wpc := WExit, w_listening := False\<rparr>))"

definition w_accept :: "bool \<Rightarrow> worker_proc \<Rightarrow> worker_proc option" where
  "w_accept ok p = (if wpc p \<noteq> WAccept then None
     else if ok then Some (p\<lparr>wk := (wk p)\<lparr>nRPC := nRPC (wk p) - 1\<rparr>, serving := serving p + 1,
                             taken := taken p + 1, wpc := WCount\<rparr>)
     else Some (p\<lparr>wpc := WExit, w_listening := False\<rparr>))"

definition w_count :: "worker_proc \<Rightarrow> worker_proc option" where
  "w_count p = (if wpc p \<noteq> WCount then None
     else Some (p\<lparr>wk := (wk p)\<lparr>nJobs := nJobs (wk p) + 1\<rparr>, wpc := WTest\<rparr>))"

section \<open>The handlers\<close>

text \<open>\<open>Worker.Shutdown\<close>: the new state and the number it replies.\<close>

definition Shutdown :: "Worker \<Rightarrow> Worker \<times> int" where
  "Shutdown w = (w\<lparr>nRPC := 1, nJobs := nJobs w - 1\<rparr>, nJobs w)"

datatype request = ReqDoJob DoJobArgs | ReqShutdown | ReqNone

definition w_serve :: "(string \<Rightarrow> KeyValue list) \<Rightarrow> (string \<Rightarrow> string list \<Rightarrow> string) \<Rightarrow>
    request \<Rightarrow> worker_proc \<Rightarrow> worker_proc option" where
  "w_serve Map Reduce req p = (if serving p = 0 then None
     else let q = p\<lparr>serving := serving p - 1\<rparr> in
       Some (case req of
           ReqDoJob arg \<Rightarrow> (case DoJob Map Reduce arg (w_disk p) of
               Inl e \<Rightarrow> q\<lparr>crashed := Some e\<rparr> | Inr fs \<Rightarrow> q\<lparr>w_disk := fs\<rparr>)
         | ReqShutdown \<Rightarrow> q\<lparr>wk := fst (Shutdown (wk p))\<rparr>
         | ReqNone \<Rightarrow> q))"

section \<open>Steps\<close>

datatype worker_event = WvTest | WvAccept bool | WvCount | WvServe request

definition worker_exec :: "(string \<Rightarrow> KeyValue list) \<Rightarrow> (string \<Rightarrow> string list \<Rightarrow> string) \<Rightarrow>
    worker_event \<Rightarrow> worker_proc \<Rightarrow> worker_proc option" where
  "worker_exec Map Reduce e p = (if crashed p \<noteq> None then None else
     (case e of WvTest \<Rightarrow> w_test p | WvAccept ok \<Rightarrow> w_accept ok p | WvCount \<Rightarrow> w_count p
      | WvServe req \<Rightarrow> w_serve Map Reduce req p))"

definition worker_step :: "(string \<Rightarrow> KeyValue list) \<Rightarrow> (string \<Rightarrow> string list \<Rightarrow> string) \<Rightarrow>
    worker_proc \<Rightarrow> worker_event \<Rightarrow> worker_proc \<Rightarrow> bool" where
  "worker_step Map Reduce p e q \<longleftrightarrow> worker_exec Map Reduce e p = Some q"

lemmas worker_defs = worker_step_def worker_exec_def w_test_def w_accept_def w_count_def w_serve_def Shutdown_def Let_def

section \<open>Counting\<close>

text \<open>Until a shutdown request is served, and while \<open>Accept\<close> has not failed.\<close>

definition plain :: "worker_event \<Rightarrow> bool" where
  "plain e \<longleftrightarrow> e \<noteq> WvServe ReqShutdown \<and> e \<noteq> WvAccept False"

definition worker_books :: "int \<Rightarrow> worker_proc \<Rightarrow> bool" where
  "worker_books n p \<longleftrightarrow> nRPC (wk p) = n - int (taken p) \<and>
     nJobs (wk p) = int (taken p) - (if wpc p = WCount then 1 else 0) \<and>
     (wpc p = WAccept \<longrightarrow> nRPC (wk p) \<noteq> 0) \<and> (wpc p = WExit \<longrightarrow> nRPC (wk p) = 0) \<and> (0 \<le> n \<longrightarrow> 0 \<le> nRPC (wk p))"

lemma worker_books_init: "RunWorker True reply master me n fs = Inr (out, p) \<Longrightarrow> worker_books n p"
  by (auto simp: RunWorker_def worker_books_def new_Worker_def)

lemma worker_books_step: "worker_step Map Reduce p e q \<Longrightarrow> plain e \<Longrightarrow> worker_books n p \<Longrightarrow> worker_books n q"
  by (cases e) (auto simp: worker_defs worker_books_def plain_def split: if_splits request.splits sum.splits)

lemma worker_books_run:
  "steps (worker_step Map Reduce) p es q \<Longrightarrow> list_all plain es \<Longrightarrow> worker_books n p \<Longrightarrow> worker_books n q"
  by (induction rule: steps.induct) (auto intro: worker_books_step)

text \<open>After a shutdown request the loop passes its test once more.\<close>

definition one_more :: "worker_proc \<Rightarrow> bool" where
  "one_more p \<longleftrightarrow> nRPC (wk p) = 1 \<and> wpc p \<noteq> WExit"

lemma one_more_step:
  "worker_step Map Reduce p e q \<Longrightarrow> (\<And>ok. e \<noteq> WvAccept ok) \<Longrightarrow> one_more p \<Longrightarrow> one_more q"
  by (cases e) (auto simp: worker_defs one_more_def split: if_splits request.splits sum.splits)

lemma one_more_run:
  "steps (worker_step Map Reduce) p es q \<Longrightarrow> (\<And>ok. WvAccept ok \<notin> set es) \<Longrightarrow> one_more p \<Longrightarrow> one_more q"
proof (induction rule: steps.induct)
  case (steps_Cons p e t es q)
  have "one_more t" using one_more_step [OF steps_Cons.hyps(1)] steps_Cons.prems by auto
  then show ?case using steps_Cons by auto
qed

section \<open>Properties\<close>

text \<open>
  \<open>nRPC\<close> is a limit on the calls of a worker. While no shutdown request is served and
  \<open>Accept\<close> does not fail, a worker that was started with \<open>n \<ge> 0\<close> has accepted at most \<open>n\<close>
  connections, and its loop ends exactly after the last of them; a worker that was started with a
  negative number never leaves its loop. \<open>nJobs\<close> counts the connections, but for one whose
  increment is still to come.
\<close>

theorem worker_call_limit:
  assumes "RunWorker True reply master me n fs = Inr (out, p)" and "steps (worker_step Map Reduce) p es q"
    and "list_all plain es"
  shows "(0 \<le> n \<longrightarrow> int (taken q) \<le> n) \<and> (wpc q = WExit \<longrightarrow> int (taken q) = n) \<and> (n < 0 \<longrightarrow> wpc q \<noteq> WExit) \<and>
    nJobs (wk q) = int (taken q) - (if wpc q = WCount then 1 else 0)"
  using worker_books_run [OF assms(2,3) worker_books_init [OF assms(1)]] by (auto simp: worker_books_def)

text \<open>
  C35: a worker that is told to shut down goes on accepting. Whenever the handler of the call
  runs, before, between or after the rest of the iteration that accepted its connection, the loop
  of \<open>RunWorker\<close> does not end before another connection is accepted, however the loop and the
  handlers go on, and it ends after the next one. The handler replies with the number of
  accepted connections, its own among them unless the loop has still to count it, although the
  comment says that it is not counted.
\<close>

theorem worker_survives_shutdown:
  assumes "RunWorker True reply master me n fs = Inr (out, p0)" and "steps (worker_step Map Reduce) p0 es p"
    and "list_all plain es" and "worker_step Map Reduce p (WvServe ReqShutdown) q" and "wpc p \<noteq> WExit"
  shows "snd (Shutdown (wk p)) = int (taken p) - (if wpc p = WCount then 1 else 0) \<and>
    (\<forall>es' r. steps (worker_step Map Reduce) q es' r \<and> (\<forall>ok. WvAccept ok \<notin> set es') \<longrightarrow> wpc r \<noteq> WExit \<and>
      (wpc r = WAccept \<and> crashed r = None \<longrightarrow>
        (\<exists>t. steps (worker_step Map Reduce) r [WvAccept True, WvCount, WvTest] t \<and> wpc t = WExit)))"
proof -
  have "worker_books n p" by (rule worker_books_run [OF assms(2,3) worker_books_init [OF assms(1)]])
  then have "snd (Shutdown (wk p)) = int (taken p) - (if wpc p = WCount then 1 else 0)"
    by (simp add: Shutdown_def worker_books_def)
  moreover have "one_more q" using assms(4,5) by (auto simp: worker_defs one_more_def split: if_splits)
  then have "one_more r" if "steps (worker_step Map Reduce) q es' r" "\<forall>ok. WvAccept ok \<notin> set es'" for es' r
    using one_more_run that by blast
  moreover have "\<exists>t. steps (worker_step Map Reduce) r [WvAccept True, WvCount, WvTest] t \<and> wpc t = WExit"
    if "one_more r" "wpc r = WAccept" "crashed r = None" for r
    using that by (auto simp: worker_defs one_more_def steps_simps)
  ultimately show ?thesis by (auto simp: one_more_def)
qed

section \<open>Witnesses\<close>

definition demo_worker :: worker_proc where
  "demo_worker = \<lparr>wk = new_Worker ''w'' 100, wpc = WTest, w_listening = True, serving = 0, taken = 0,
     w_disk = Map.empty, crashed = None\<rparr>"

lemma demo_worker_runs: "RunWorker True (Some True) ''m'' ''w'' 100 Map.empty = Inr ([], demo_worker)"
  by (simp add: RunWorker_def demo_worker_def worker_Register_def)

lemma demo_worker_called:
  "steps (worker_step Map Reduce) demo_worker [WvTest, WvAccept True, WvCount]
     (demo_worker\<lparr>wk := \<lparr>wk_name = ''w'', nRPC = 99, nJobs = 1\<rparr>, serving := 1, taken := 1\<rparr>)"
  by (simp add: steps_simps worker_defs demo_worker_def new_Worker_def)

theorem worker_call_limit_witness:
  "\<exists>q. steps (worker_step (\<lambda>b. []) (\<lambda>k vs. [])) demo_worker [WvTest, WvAccept True, WvCount] q \<and> taken q = 1 \<and>
     int (taken q) \<le> 100 \<and> nJobs (wk q) = 1"
  using worker_call_limit [OF demo_worker_runs demo_worker_called [of "\<lambda>b. []" "\<lambda>k vs. []"]] demo_worker_called
  by (fastforce simp: plain_def demo_worker_def)

theorem worker_survives_shutdown_witness:
  "\<exists>p q. worker_step (\<lambda>b. []) (\<lambda>k vs. []) p (WvServe ReqShutdown) q \<and> snd (Shutdown (wk p)) = 1 \<and> taken p = 1 \<and>
     (\<forall>es r. steps (worker_step (\<lambda>b. []) (\<lambda>k vs. [])) q es r \<and> (\<forall>ok. WvAccept ok \<notin> set es) \<longrightarrow> wpc r \<noteq> WExit)"
proof -
  let ?p = "demo_worker\<lparr>wk := \<lparr>wk_name = ''w'', nRPC = 99, nJobs = 1\<rparr>, serving := 1, taken := 1\<rparr>"
  obtain q where q: "worker_step (\<lambda>b. []) (\<lambda>k vs. []) ?p (WvServe ReqShutdown) q"
    by (simp add: worker_defs demo_worker_def)
  from worker_survives_shutdown [OF demo_worker_runs demo_worker_called _ q] show ?thesis
    using q by (intro exI [of _ ?p] exI [of _ q]) (auto simp: plain_def demo_worker_def Shutdown_def)
qed

end
