(* ===== verification/Bitcoin_Message.thy ===== *)
theory Bitcoin_Message
  imports Dsys_Prelude "HOL-Library.Word"
begin

unbundle bit_operations_syntax

text \<open>
  The messages of the mining system and its hash function (\<open>bitcoin/message.go\<close>,
  \<open>bitcoin/hash.go\<close>). Their form on the wire is in \<open>Bitcoin_Wire\<close>. The hash is the first half of a SHA-256 digest, which
  is defined here as the standard gives it.
\<close>

section \<open>Messages\<close>

text \<open>The type of a message is an int; \<open>BOther\<close> keeps any other number.\<close>

type_synonym uint64 = "64 word"

datatype BMsgType = Join | Request | Result | BOther int

record BMessage =
  BType :: BMsgType
  Data :: string
  Lower :: uint64
  Upper :: uint64
  BHash :: uint64
  Nonce :: uint64

definition NewRequest :: "string \<Rightarrow> uint64 \<Rightarrow> uint64 \<Rightarrow> BMessage" where
  "NewRequest data lower upper =
     \<lparr>BType = Request, Data = data, Lower = lower, Upper = upper, BHash = 0, Nonce = 0\<rparr>"

definition NewResult :: "uint64 \<Rightarrow> uint64 \<Rightarrow> BMessage" where
  "NewResult hash nonce =
     \<lparr>BType = Result, Data = [], Lower = 0, Upper = 0, BHash = hash, Nonce = nonce\<rparr>"

definition NewJoin :: BMessage where
  "NewJoin = \<lparr>BType = Join, Data = [], Lower = 0, Upper = 0, BHash = 0, Nonce = 0\<rparr>"

definition Utoa :: "uint64 \<Rightarrow> string" where
  "Utoa w = utoa (unat w)"

definition BMessage_String :: "BMessage \<Rightarrow> string" where
  "BMessage_String m = (case BType m of
       Request \<Rightarrow> ''[Request '' @ Data m @ '' '' @ Utoa (Lower m) @ '' '' @ Utoa (Upper m) @ '']''
     | Result \<Rightarrow> ''[Result '' @ Utoa (BHash m) @ '' '' @ Utoa (Nonce m) @ '']''
     | Join \<Rightarrow> ''[Join]''
     | BOther _ \<Rightarrow> '''')"

section \<open>SHA-256\<close>

type_synonym uint32 = "32 word"

text \<open>The first 32 bits of the fractional parts of the cube roots of the first 64 primes.\<close>

definition sha_K :: "uint32 list" where
  "sha_K = [
    1116352408, 1899447441, 3049323471, 3921009573, 961987163, 1508970993, 2453635748, 2870763221,
    3624381080, 310598401, 607225278, 1426881987, 1925078388, 2162078206, 2614888103, 3248222580,
    3835390401, 4022224774, 264347078, 604807628, 770255983, 1249150122, 1555081692, 1996064986,
    2554220882, 2821834349, 2952996808, 3210313671, 3336571891, 3584528711, 113926993, 338241895,
    666307205, 773529912, 1294757372, 1396182291, 1695183700, 1986661051, 2177026350, 2456956037,
    2730485921, 2820302411, 3259730800, 3345764771, 3516065817, 3600352804, 4094571909, 275423344,
    430227734, 506948616, 659060556, 883997877, 958139571, 1322822218, 1537002063, 1747873779,
    1955562222, 2024104815, 2227730452, 2361852424, 2428436474, 2756734187, 3204031479, 3329325298]"

definition sha_init :: "uint32 list" where
  "sha_init = [0x6a09e667, 0xbb67ae85, 0x3c6ef372, 0xa54ff53a, 0x510e527f, 0x9b05688c, 0x1f83d9ab, 0x5be0cd19]"

definition rotr :: "nat \<Rightarrow> uint32 \<Rightarrow> uint32" where
  "rotr n w = drop_bit n w OR push_bit (32 - n) w"

text \<open>A message is followed by the byte \<open>80\<close>, zeros and its length in bits, to whole blocks.\<close>

definition be_bytes :: "nat \<Rightarrow> nat \<Rightarrow> nat list" where
  "be_bytes k n = rev (map (\<lambda>i. n div 256 ^ i mod 256) [0..<k])"

definition sha_pad :: "nat list \<Rightarrow> nat list" where
  "sha_pad bs = bs @ 128 # replicate ((119 - length bs mod 64) mod 64) 0 @ be_bytes 8 (8 * length bs)"

definition be_word :: "nat list \<Rightarrow> uint32" where
  "be_word bs = of_nat (foldl (\<lambda>n b. 256 * n + b) 0 bs)"

fun chunks :: "nat \<Rightarrow> 'a list \<Rightarrow> 'a list list" where
  "chunks n [] = []"
| "chunks n (x # xs) = (x # take (n - 1) xs) # chunks n (drop (n - 1) xs)"

definition sha_schedule :: "uint32 list \<Rightarrow> uint32 list" where
  "sha_schedule ws = foldl (\<lambda>w t.
     let x = w ! (t - 15); y = w ! (t - 2);
         s0 = rotr 7 x XOR rotr 18 x XOR drop_bit 3 x;
         s1 = rotr 17 y XOR rotr 19 y XOR drop_bit 10 y
     in w @ [w ! (t - 16) + s0 + w ! (t - 7) + s1]) ws [16..<64]"

fun sha_round :: "uint32 list \<Rightarrow> uint32 \<times> uint32 \<Rightarrow> uint32 list" where
  "sha_round [a, b, c, d, e, f, g, h] (k, w) =
    (let s1 = rotr 6 e XOR rotr 11 e XOR rotr 25 e;
         ch = (e AND f) XOR (NOT e AND g);
         t1 = h + s1 + ch + k + w;
         s0 = rotr 2 a XOR rotr 13 a XOR rotr 22 a;
         maj = (a AND b) XOR (a AND c) XOR (b AND c)
     in [t1 + s0 + maj, a, b, c, d + t1, e, f, g])"
| "sha_round st _ = st"

definition sha_block :: "uint32 list \<Rightarrow> nat list \<Rightarrow> uint32 list" where
  "sha_block st bs =
     map2 (+) st (foldl sha_round st (zip sha_K (sha_schedule (map be_word (chunks 4 bs)))))"

definition sha256 :: "string \<Rightarrow> uint32 list" where
  "sha256 s = foldl sha_block sha_init (chunks 64 (sha_pad (map of_char s)))"

text \<open>\<open>Hash\<close>: the first eight bytes of the digest of the message, a space and the nonce.\<close>

definition Hash :: "string \<Rightarrow> uint64 \<Rightarrow> uint64" where
  "Hash msg nonce =
    (let d = sha256 (msg @ '' '' @ Utoa nonce)
     in of_nat (unat (d ! 0) * 2 ^ 32 + unat (d ! 1)))"

end
