(* ===== verification/Bitcoin_Miner.thy ===== *)
theory Bitcoin_Miner
  imports Bitcoin_Message "HOL-Library.Multiset"
begin

text \<open>
  The miner (\<open>bitcoin/miner/miner.go\<close>): the goroutines that search parts of the requested
  range, the collection of their results in whatever order they arrive, and the reply.
\<close>

section \<open>The program\<close>

text \<open>The update of the best pair of hash and nonce; a hash of 0 stands for no result yet.\<close>

definition pick :: "uint64 \<times> uint64 \<Rightarrow> uint64 \<times> uint64 \<Rightarrow> uint64 \<times> uint64" where
  "pick best r = (if fst best = 0 \<or> fst best > fst r then r else best)"

text \<open>The loop of one goroutine. It does not end when \<open>upper\<close> is the largest number.\<close>

partial_function (option) search :: "(uint64 \<Rightarrow> uint64) \<Rightarrow> uint64 \<Rightarrow> uint64 \<Rightarrow>
    uint64 \<times> uint64 \<Rightarrow> (uint64 \<times> uint64) option" where
  "search h nonce upper best =
    (if nonce \<le> upper then search h (nonce + 1) upper (pick best (h nonce, nonce)) else Some best)"

declare search.simps [code]

datatype reply = Panics | Hangs | Replies BMessage | Ignores

text \<open>
  One message, for any hash function. \<open>lnf n\<close> is \<open>int(math.Floor(math.Log(float64(n))))\<close>, and \<open>arrival\<close> the order
  in which the results of the goroutines pass through the channel.
\<close>

definition worker_ranges :: "uint64 \<Rightarrow> int \<Rightarrow> uint64 \<Rightarrow> (uint64 \<times> uint64) list" where
  "worker_ranges lower w s =
     map (\<lambda>i. (lower + of_nat i * s, lower + of_nat (i + 1) * s)) [0..<nat w]"

definition miner_handle :: "(string \<Rightarrow> uint64 \<Rightarrow> uint64) \<Rightarrow> (nat \<Rightarrow> int) \<Rightarrow>
    ((uint64 \<times> uint64) list \<Rightarrow> (uint64 \<times> uint64) list) \<Rightarrow> BMessage \<Rightarrow> reply" where
  "miner_handle hash lnf arrival m =
    (if BType m \<noteq> Request then Ignores
     else
       let w = lnf (unat (Upper m - Lower m)) in
       if (word_of_int w :: uint64) = 0 then Panics
       else
         let s = (Upper m - Lower m) div word_of_int w;
             rs = map (\<lambda>(l, u). search (hash (Data m)) l u (0, 0)) (worker_ranges (Lower m) w s)
         in if None \<in> set rs then Hangs
            else let best = foldl pick (0, 0) (arrival (map the rs))
                 in Replies (NewResult (fst best) (snd best)))"

text \<open>The body of the loop of \<open>main\<close>, with the hash function of the system.\<close>

definition miner_main_step :: "(nat \<Rightarrow> int) \<Rightarrow> ((uint64 \<times> uint64) list \<Rightarrow> (uint64 \<times> uint64) list) \<Rightarrow>
    BMessage \<Rightarrow> reply" where
  "miner_main_step = miner_handle Hash"

section \<open>The best of a list\<close>

lemma pick_fold:
  assumes "fst b \<noteq> 0" and "\<forall>r \<in> set rs. fst r \<noteq> 0"
  shows "foldl pick b rs \<in> set (b # rs) \<and> (\<forall>r \<in> set (b # rs). fst (foldl pick b rs) \<le> fst r)"
  using assms
proof (induction rs arbitrary: b)
  case (Cons r rs)
  have "fst (pick b r) \<noteq> 0" using Cons.prems by (auto simp: pick_def)
  from Cons.IH [OF this] Cons.prems have
    "foldl pick (pick b r) rs \<in> set (pick b r # rs)"
    "\<forall>x \<in> set (pick b r # rs). fst (foldl pick (pick b r) rs) \<le> fst x" by auto
  moreover have "pick b r \<in> {b, r}" "fst (pick b r) \<le> fst b" "fst (pick b r) \<le> fst r"
    using Cons.prems by (auto simp: pick_def)
  ultimately show ?case by (auto intro: order_trans)
qed simp

lemma pick_best:
  assumes "rs \<noteq> []" and "\<forall>r \<in> set rs. fst r \<noteq> 0"
  shows "foldl pick (0, 0) rs \<in> set rs \<and> (\<forall>r \<in> set rs. fst (foldl pick (0, 0) rs) \<le> fst r)"
proof (cases rs)
  case (Cons r rs')
  have "pick (0, 0) r = r" by (simp add: pick_def)
  then show ?thesis using pick_fold [of r rs'] assms(2) Cons by simp
qed (use assms in simp)

section \<open>The search of a range\<close>

definition nonces :: "uint64 \<Rightarrow> uint64 \<Rightarrow> uint64 list" where
  "nonces l u = map of_nat [unat l..<Suc (unat u)]"

lemma unat_bound: "unat (u :: uint64) < 2 ^ 64"
proof -
  have "unat u < 2 ^ LENGTH(64)" by (rule unsigned_less)
  then show ?thesis by simp
qed

lemma unat_succ: "l < (u :: uint64) \<Longrightarrow> unat (l + 1) = Suc (unat l)"
proof -
  assume "l < u"
  then have "unat l < unat u" by (simp add: word_less_nat_alt)
  moreover have "unat u < 2 ^ 64" by (rule unat_bound)
  ultimately show ?thesis by (simp add: unat_word_ariths)
qed

lemma nonces_step: "l \<le> u \<Longrightarrow> u < - 1 \<Longrightarrow> nonces l u = l # nonces (l + 1) u"
proof -
  assume "l \<le> u" "u < - 1"
  then have "l < - 1" by (rule le_less_trans)
  then have "unat (l + 1) = Suc (unat l)" by (rule unat_succ)
  moreover have "unat l \<le> unat u" using \<open>l \<le> u\<close> by (simp add: word_le_nat_alt)
  ultimately show ?thesis by (simp add: nonces_def upt_conv_Cons del: upt_Suc)
qed

lemma set_nonces: "x \<in> set (nonces l u) \<longleftrightarrow> l \<le> x \<and> x \<le> u"
proof -
  have "x \<in> of_nat ` {unat l..<Suc (unat u)} \<longleftrightarrow> unat l \<le> unat x \<and> unat x \<le> unat u"
  proof
    assume "x \<in> of_nat ` {unat l..<Suc (unat u)}"
    then obtain n where n: "x = of_nat n" "unat l \<le> n" "n \<le> unat u" by auto
    then have "n < 2 ^ 64" using unat_bound [of u] by simp
    with n show "unat l \<le> unat x \<and> unat x \<le> unat u"
      by (simp add: unat_of_nat take_bit_nat_eq_self)
  next
    assume "unat l \<le> unat x \<and> unat x \<le> unat u"
    then show "x \<in> of_nat ` {unat l..<Suc (unat u)}"
      by (intro image_eqI [of _ _ "unat x"]) auto
  qed
  then show ?thesis by (simp add: nonces_def word_le_nat_alt del: upt_Suc)
qed

lemma search_nonces:
  assumes "u < - 1"
  shows "search h l u best = Some (foldl pick best (map (\<lambda>n. (h n, n)) (nonces l u)))"
proof (induction "Suc (unat u) - unat l" arbitrary: l best)
  case 0
  then have "\<not> l \<le> u" "nonces l u = []" by (simp_all add: word_le_nat_alt nonces_def)
  then show ?case by (simp add: search.simps)
next
  case (Suc k)
  then have le: "l \<le> u" by (simp add: word_le_nat_alt)
  then have "l < - 1" using assms by (rule le_less_trans)
  then have "unat (l + 1) = Suc (unat l)" by (rule unat_succ)
  then have "search h (l + 1) u b = Some (foldl pick b (map (\<lambda>n. (h n, n)) (nonces (l + 1) u)))" for b
    using Suc by simp
  then show ?case using le nonces_step [OF le assms] by (simp add: search.simps [of h l])
qed

lemma search_returns_bound: "search h l u best = Some r \<Longrightarrow> u \<noteq> - 1"
proof (rule search.raw_induct [of "\<lambda>h l u b r. u \<noteq> - 1" h l u best r])
  fix rec h nonce upper b r
  assume rec: "\<And>h l u b r. rec h l u b = Some r \<Longrightarrow> u \<noteq> - 1"
    and eq: "(if nonce \<le> upper then rec h (nonce + 1) upper (pick b (h nonce, nonce)) else Some b) = Some r"
  show "upper \<noteq> - 1"
  proof (cases "nonce \<le> upper")
    case True
    then show ?thesis using rec eq by simp
  next
    case False
    then show ?thesis by auto
  qed
qed

lemma search_best:
  assumes "u < - 1" and "l \<le> u" and "\<forall>x. l \<le> x \<and> x \<le> u \<longrightarrow> h x \<noteq> 0"
  shows "\<exists>x. search h l u (0, 0) = Some (h x, x) \<and> l \<le> x \<and> x \<le> u \<and> (\<forall>y. l \<le> y \<and> y \<le> u \<longrightarrow> h x \<le> h y)"
proof -
  let ?rs = "map (\<lambda>n. (h n, n)) (nonces l u)"
  have "?rs \<noteq> []" using assms(2) set_nonces [of l l u] by auto
  moreover have "\<forall>r \<in> set ?rs. fst r \<noteq> 0" using assms(3) by (auto simp: set_nonces)
  ultimately have "foldl pick (0, 0) ?rs \<in> set ?rs" "\<forall>r \<in> set ?rs. fst (foldl pick (0, 0) ?rs) \<le> fst r"
    using pick_best by blast+
  then show ?thesis using search_nonces [OF assms(1), of h l "(0, 0)"] by (auto simp: set_nonces)
qed

section \<open>The parts of the range\<close>

lemma unat_offset:
  assumes "unat l + k * unat s < 2 ^ 64"
  shows "unat (l + of_nat k * s) = unat l + k * unat (s :: uint64)"
proof -
  have "unat (of_nat k * s) = k * unat s"
  proof (cases "unat s = 0")
    case True
    then have "s = 0" by (simp add: unat_eq_zero)
    then show ?thesis by simp
  next
    case False
    then have "k \<le> k * unat s" by simp
    then have "k < 2 ^ 64" using assms by linarith
    then have "unat (of_nat k :: uint64) = k" by (simp add: unat_of_nat take_bit_nat_eq_self)
    then show ?thesis using assms by (simp add: unat_word_ariths)
  qed
  then show ?thesis using assms by (simp add: unat_word_ariths)
qed

text \<open>
  Consecutive parts share their bound; together they are the numbers from the lower bound
  to the end of the last part.
\<close>

lemma in_some_part:
  assumes "0 < w" and "a \<le> x" and "x \<le> a + w * s"
  shows "\<exists>i < w. a + i * s \<le> x \<and> x \<le> a + Suc i * (s :: nat)"
proof (cases "x = a + w * s")
  case True
  then show ?thesis using assms(1) by (intro exI [of _ "w - 1"]) (cases w, auto)
next
  case False
  let ?i = "(x - a) div s"
  have lt: "x - a < w * s" using assms False by linarith
  then have s: "0 < s" by (cases s) auto
  have i: "?i < w" using lt by (simp add: less_mult_imp_div_less)
  have "?i * s \<le> x - a" "x - a < Suc ?i * s"
    using s dividend_less_div_times [of s "x - a"] by (simp_all add: div_times_less_eq_dividend)
  then have "a + ?i * s \<le> x" "x \<le> a + Suc ?i * s" using assms(2) by linarith+
  with i show ?thesis by blast
qed

text \<open>The number of parts and their length, for a request of \<open>n\<close> numbers more than one.\<close>

lemma part_length:
  fixes lower upper :: uint64
  assumes "lower \<le> upper" and "n = unat (upper - lower)" and "0 < w" and "w \<le> n"
  shows "unat ((upper - lower) div of_nat w) = n div w" and "unat lower + w * (n div w) \<le> unat upper"
    and "unat upper = unat lower + n"
proof -
  have "w < 2 ^ 64" using assms(2,4) unat_bound [of "upper - lower"] by simp
  then have "unat (of_nat w :: uint64) = w" by (simp add: unat_of_nat take_bit_nat_eq_self)
  then show "unat ((upper - lower) div of_nat w) = n div w"
    using assms(2) by (simp add: unat_div_distrib)
  show up: "unat upper = unat lower + n"
    using assms(1,2) by (simp add: unat_sub word_le_nat_alt)
  show "unat lower + w * (n div w) \<le> unat upper" by (simp add: up)
qed

lemma worker_ranges_set:
  assumes "unat lower + w * unat s < 2 ^ 64"
  shows "(l, u) \<in> set (worker_ranges lower (int w) s) \<Longrightarrow>
      \<exists>i < w. unat l = unat lower + i * unat s \<and> unat u = unat lower + Suc i * unat s"
    and "i < w \<Longrightarrow> \<exists>l u. (l, u) \<in> set (worker_ranges lower (int w) s) \<and>
      unat l = unat lower + i * unat s \<and> unat u = unat lower + Suc i * unat s"
proof -
  have off: "unat (lower + of_nat i * s) = unat lower + i * unat s" if "i \<le> w" for i
  proof (rule unat_offset)
    have "i * unat s \<le> w * unat s" using that by simp
    then show "unat lower + i * unat s < 2 ^ 64" using assms by linarith
  qed
  show "(l, u) \<in> set (worker_ranges lower (int w) s) \<Longrightarrow>
      \<exists>i < w. unat l = unat lower + i * unat s \<and> unat u = unat lower + Suc i * unat s"
    using off [of "Suc _"] off by (force simp: worker_ranges_def)
  show "\<exists>l u. (l, u) \<in> set (worker_ranges lower (int w) s) \<and>
      unat l = unat lower + i * unat s \<and> unat u = unat lower + Suc i * unat s" if i: "i < w"
    using i off [of "Suc i"] off [of i]
    by (intro exI [of _ "lower + of_nat i * s"] exI [of _ "lower + of_nat (i + 1) * s"])
      (auto simp: worker_ranges_def)
qed

lemma results_best:
  assumes "\<forall>p \<in> set ps. \<exists>x. f p = Some (h x, x) \<and> x \<in> cover p \<and> (\<forall>y \<in> cover p. h x \<le> h y)"
    and "ps \<noteq> []" and "\<forall>p \<in> set ps. \<forall>x \<in> cover p. h x \<noteq> (0 :: uint64)"
    and "mset rs = mset (map (\<lambda>p. the (f p)) ps)"
  shows "\<exists>x \<in> (\<Union>p \<in> set ps. cover p). foldl pick (0, 0) rs = (h x, x) \<and>
    (\<forall>y \<in> (\<Union>p \<in> set ps. cover p). h x \<le> h y)"
proof -
  have rs: "set rs = (\<lambda>p. the (f p)) ` set ps" using mset_eq_setD [OF assms(4)] by simp
  have res: "\<exists>p x. p \<in> set ps \<and> r = (h x, x) \<and> x \<in> cover p" if r: "r \<in> set rs" for r
  proof -
    obtain p where p: "p \<in> set ps" "r = the (f p)" using r rs by auto
    then obtain x where "f p = Some (h x, x)" "x \<in> cover p" using assms(1) by blast
    with p show ?thesis by auto
  qed
  have nz: "\<forall>r \<in> set rs. fst r \<noteq> 0"
  proof
    fix r assume "r \<in> set rs"
    from res [OF this] obtain p x where "p \<in> set ps" "r = (h x, x)" "x \<in> cover p" by blast
    then show "fst r \<noteq> 0" using assms(3) by auto
  qed
  have "rs \<noteq> []" using rs assms(2) by auto
  from pick_best [OF this nz] have best: "foldl pick (0, 0) rs \<in> set rs"
    "\<forall>r \<in> set rs. fst (foldl pick (0, 0) rs) \<le> fst r" by blast+
  from res [OF best(1)] obtain p x where x: "p \<in> set ps" "foldl pick (0, 0) rs = (h x, x)" "x \<in> cover p" by blast
  have "h x \<le> h y" if y: "q \<in> set ps" "y \<in> cover q" for q y
  proof -
    obtain z where z: "f q = Some (h z, z)" "\<forall>y \<in> cover q. h z \<le> h y" using assms(1) y(1) by blast
    have "(h z, z) \<in> set rs" using rs y(1) z(1) by force
    then have "h x \<le> h z" using best(2) x(2) by force
    also have "h z \<le> h y" using z(2) y(2) by blast
    finally show ?thesis .
  qed
  with x show ?thesis by blast
qed

text \<open>The parts of a request: they lie in its range and cover all of it but a tail.\<close>

definition mining_request :: "uint64 \<Rightarrow> uint64 \<Rightarrow> nat \<Rightarrow> nat \<Rightarrow> bool" where
  "mining_request lower upper n w \<longleftrightarrow> lower \<le> upper \<and> n = unat (upper - lower) \<and> 0 < w \<and> w \<le> n"

abbreviation part_size :: "uint64 \<Rightarrow> uint64 \<Rightarrow> nat \<Rightarrow> uint64" where
  "part_size lower upper w \<equiv> (upper - lower) div of_nat w"

abbreviation parts_of :: "uint64 \<Rightarrow> uint64 \<Rightarrow> nat \<Rightarrow> (uint64 \<times> uint64) list" where
  "parts_of lower upper w \<equiv> worker_ranges lower (int w) (part_size lower upper w)"

lemma mining_request_parts:
  assumes "mining_request lower upper n w"
  shows "unat (part_size lower upper w) = n div w" "unat lower + w * (n div w) \<le> unat upper"
    "unat upper = unat lower + n"
  using part_length [of lower upper n w] assms by (auto simp: mining_request_def)

lemma tail_short:
  assumes "mining_request lower upper n w"
  shows "unat upper < unat lower + w * (n div w) + w"
  using mining_request_parts(3) [OF assms] assms mod_less_divisor [of w n] mult_div_mod_eq [of w n]
  unfolding mining_request_def by linarith

lemma parts_fit:
  assumes "mining_request lower upper n w"
  shows "unat lower + w * unat (part_size lower upper w) < 2 ^ 64"
  unfolding mining_request_parts(1) [OF assms]
  using mining_request_parts(2) [OF assms] unat_bound [of upper] by (rule le_less_trans)

lemma part_end: "i < w \<Longrightarrow> Suc i * (n div w) \<le> w * (n div w :: nat)"
  by (intro mult_le_mono1) simp

lemma part_inside:
  assumes "mining_request lower upper n w" and "(l, u) \<in> set (parts_of lower upper w)"
  shows "l \<le> u" "lower \<le> l" "u \<le> upper"
proof -
  obtain i where i: "i < w" "unat l = unat lower + i * (n div w)" "unat u = unat lower + Suc i * (n div w)"
    using worker_ranges_set(1) [OF parts_fit [OF assms(1)] assms(2)] mining_request_parts(1) [OF assms(1)]
    by auto
  then show "l \<le> u" "lower \<le> l" "u \<le> upper"
    using part_end [OF i(1), of n] mining_request_parts(2) [OF assms(1)]
    unfolding word_le_nat_alt by auto
qed

lemma parts_cover:
  assumes "mining_request lower upper n w"
  shows "(\<exists>(l, u) \<in> set (parts_of lower upper w). l \<le> y \<and> y \<le> u) \<longleftrightarrow>
     lower \<le> y \<and> unat y \<le> unat lower + w * (n div w)"
proof
  assume "\<exists>(l, u) \<in> set (parts_of lower upper w). l \<le> y \<and> y \<le> u"
  then obtain l u where lu: "(l, u) \<in> set (parts_of lower upper w)" "l \<le> y" "y \<le> u" by auto
  obtain i where i: "i < w" "unat u = unat lower + Suc i * (n div w)"
    using worker_ranges_set(1) [OF parts_fit [OF assms] lu(1)] mining_request_parts(1) [OF assms] by auto
  have "unat y \<le> unat u" using lu(3) by (simp add: word_le_nat_alt)
  also have "\<dots> \<le> unat lower + w * (n div w)" using part_end [OF i(1), of n] i(2) by linarith
  finally show "lower \<le> y \<and> unat y \<le> unat lower + w * (n div w)"
    using part_inside(2) [OF assms lu(1)] lu(2) by (auto intro: order_trans)
next
  assume "lower \<le> y \<and> unat y \<le> unat lower + w * (n div w)"
  then obtain i where i: "i < w" "unat lower + i * (n div w) \<le> unat y"
      "unat y \<le> unat lower + Suc i * (n div w)"
    using in_some_part [of w "unat lower" "unat y" "n div w"] assms
    by (auto simp: word_le_nat_alt mining_request_def)
  obtain l u where "(l, u) \<in> set (parts_of lower upper w)"
      "unat l = unat lower + i * (n div w)" "unat u = unat lower + Suc i * (n div w)"
    using worker_ranges_set(2) [OF parts_fit [OF assms] i(1)] mining_request_parts(1) [OF assms] by auto
  then show "\<exists>(l, u) \<in> set (parts_of lower upper w). l \<le> y \<and> y \<le> u"
    using i(2,3) by (intro bexI [of _ "(l, u)"]) (simp_all add: word_le_nat_alt)
qed

lemma part_found:
  assumes "mining_request lower upper n w" and "upper < - 1"
    and "\<And>x. lower \<le> x \<Longrightarrow> x \<le> upper \<Longrightarrow> h x \<noteq> 0" and "(l, u) \<in> set (parts_of lower upper w)"
  shows "\<exists>x. search h l u (0, 0) = Some (h x, x) \<and> l \<le> x \<and> x \<le> u \<and> (\<forall>y. l \<le> y \<and> y \<le> u \<longrightarrow> h x \<le> h y)"
proof (rule search_best)
  note lu = part_inside [OF assms(1,4)]
  show "l \<le> u" "u < - 1" using lu(1,3) assms(2) by (auto intro: le_less_trans)
  show "\<forall>x. l \<le> x \<and> x \<le> u \<longrightarrow> h x \<noteq> 0" using assms(3) lu order_trans by blast
qed

lemma w_word: "mining_request lower upper n w \<Longrightarrow> (of_nat w :: uint64) \<noteq> 0"
proof -
  assume mr: "mining_request lower upper n w"
  then have "w < 2 ^ 64" using unat_bound [of "upper - lower"] by (simp add: mining_request_def)
  then have "unat (of_nat w :: uint64) = w" by (simp add: unat_of_nat take_bit_nat_eq_self)
  then show ?thesis using mr by (auto simp: mining_request_def)
qed

lemma miner_reply:
  assumes "BType m = Request" and "Lower m \<le> Upper m" and "Upper m < - 1"
    and "n = unat (Upper m - Lower m)" and "lnf n = int w" and "0 < w" and "w \<le> n"
    and "\<And>rs. mset (arrival rs) = mset rs"
    and "\<And>x. Lower m \<le> x \<Longrightarrow> x \<le> Upper m \<Longrightarrow> hash (Data m) x \<noteq> 0"
  shows "\<exists>x. miner_handle hash lnf arrival m = Replies (NewResult (hash (Data m) x) x) \<and>
    Lower m \<le> x \<and> unat x \<le> unat (Lower m) + w * (n div w) \<and>
    (\<forall>y. Lower m \<le> y \<and> unat y \<le> unat (Lower m) + w * (n div w) \<longrightarrow> hash (Data m) x \<le> hash (Data m) y) \<and>
    unat (Lower m) + w * (n div w) \<le> unat (Upper m) \<and>
    unat (Upper m) < unat (Lower m) + w * (n div w) + w"
proof -
  have mr: "mining_request (Lower m) (Upper m) n w" using assms(2,4,6,7) by (simp add: mining_request_def)
  let ?h = "hash (Data m)" and ?ps = "parts_of (Lower m) (Upper m) w"
  let ?f = "\<lambda>p. search ?h (fst p) (snd p) (0, 0)" and ?cover = "\<lambda>p. {x. fst p \<le> x \<and> x \<le> snd p}"
  have found: "\<exists>x. ?f p = Some (?h x, x) \<and> x \<in> ?cover p \<and> (\<forall>y \<in> ?cover p. ?h x \<le> ?h y)"
    and nonzero: "\<forall>x \<in> ?cover p. ?h x \<noteq> 0" if p: "p \<in> set ?ps" for p
  proof -
    have "(fst p, snd p) \<in> set ?ps" using p by simp
    from part_found [OF mr assms(3) assms(9) this] part_inside [OF mr this] assms(9)
    show "\<exists>x. ?f p = Some (?h x, x) \<and> x \<in> ?cover p \<and> (\<forall>y \<in> ?cover p. ?h x \<le> ?h y)"
      "\<forall>x \<in> ?cover p. ?h x \<noteq> 0" by (auto intro: order_trans)
  qed
  have "?ps \<noteq> []" using assms(6) by (simp add: worker_ranges_def)
  with results_best [of ?ps ?f ?h ?cover "arrival (map (\<lambda>p. the (?f p)) ?ps)"] found nonzero assms(8)
  obtain x where x: "x \<in> (\<Union>p \<in> set ?ps. ?cover p)"
      "foldl pick (0, 0) (arrival (map (\<lambda>p. the (?f p)) ?ps)) = (?h x, x)"
      "\<forall>y \<in> (\<Union>p \<in> set ?ps. ?cover p). ?h x \<le> ?h y" by blast
  have cover: "y \<in> (\<Union>p \<in> set ?ps. ?cover p) \<longleftrightarrow> Lower m \<le> y \<and> unat y \<le> unat (Lower m) + w * (n div w)" for y
    using parts_cover [OF mr, of y] by (simp add: case_prod_beta)
  have "None \<notin> set (map ?f ?ps)" using found by fastforce
  then have "miner_handle hash lnf arrival m = Replies (NewResult (?h x) x)"
    using assms(1,4,5) x(2) w_word [OF mr]
    by (simp add: miner_handle_def Let_def comp_def case_prod_beta)
  then show ?thesis
    using x(1,3) cover mining_request_parts(2) [OF mr] tail_short [OF mr] by blast
qed

text \<open>
  What a miner replies, whatever the hash function. For a request with a proper range whose logarithm \<open>w\<close> is
  positive, and when no searched hash is 0, the miner replies, in whatever order its \<open>w\<close>
  goroutines finish, a nonce from the range with its hash, and no number from the lower
  bound to \<open>lower + w * ((upper - lower) div w)\<close> has a smaller hash. The numbers after that
  end, fewer than \<open>w\<close>, are not searched.
\<close>

theorem miner_reply_minimal:
  assumes "BType m = Request" and "Lower m \<le> Upper m" and "Upper m < - 1"
    and "n = unat (Upper m - Lower m)" and "lnf n = int w" and "0 < w" and "w \<le> n"
    and "\<And>rs. mset (arrival rs) = mset rs"
    and "\<And>x. Lower m \<le> x \<Longrightarrow> x \<le> Upper m \<Longrightarrow> hash (Data m) x \<noteq> 0"
  shows "\<exists>x. miner_handle hash lnf arrival m = Replies (NewResult (hash (Data m) x) x) \<and>
    Lower m \<le> x \<and> unat x \<le> unat (Lower m) + w * (n div w) \<and>
    (\<forall>y. Lower m \<le> y \<and> unat y \<le> unat (Lower m) + w * (n div w) \<longrightarrow> hash (Data m) x \<le> hash (Data m) y) \<and>
    unat (Lower m) + w * (n div w) \<le> unat (Upper m) \<and>
    unat (Upper m) < unat (Lower m) + w * (n div w) + w"
  using assms by (rule miner_reply)

text \<open>
  The best nonce can be missed. When \<open>w\<close> does not divide the length of the range and
  the upper bound has the smallest hash of all, the miner replies some other nonce with a
  larger hash.
\<close>

theorem miner_misses_upper_bound:
  assumes "BType m = Request" and "Lower m \<le> Upper m" and "Upper m < - 1"
    and "n = unat (Upper m - Lower m)" and "lnf n = int w" and "0 < w" and "w \<le> n"
    and "\<And>rs. mset (arrival rs) = mset rs"
    and "\<And>x. Lower m \<le> x \<Longrightarrow> x \<le> Upper m \<Longrightarrow> hash (Data m) x \<noteq> 0"
    and "n mod w \<noteq> 0"
    and "\<And>x. Lower m \<le> x \<Longrightarrow> x < Upper m \<Longrightarrow> hash (Data m) (Upper m) < hash (Data m) x"
  shows "\<exists>x. miner_handle hash lnf arrival m = Replies (NewResult (hash (Data m) x) x) \<and>
    hash (Data m) (Upper m) < hash (Data m) x"
proof -
  have mr: "mining_request (Lower m) (Upper m) n w" using assms(2,4,6,7) by (simp add: mining_request_def)
  have "w * (n div w) < n" using assms(10) mult_div_mod_eq [of w n] by linarith
  then have "x < Upper m" if "unat x \<le> unat (Lower m) + w * (n div w)" for x
    using that mining_request_parts(3) [OF mr] by (simp add: word_less_nat_alt)
  then show ?thesis
    using miner_reply [of m n lnf w arrival hash, OF assms(1-9)] assms(11) by blast
qed

text \<open>
  A short range crashes the miner. The logarithm of 1 and of 2 rounds down to 0, and
  the miner divides by it: a request whose bounds differ by 1 or 2 ends in a panic.
\<close>

theorem miner_panics_on_short_range:
  assumes "BType m = Request" and "lnf 1 = 0" and "lnf 2 = 0"
    and "Upper m = Lower m + 1 \<or> Upper m = Lower m + 2"
  shows "miner_main_step lnf arrival m = Panics"
  using assms by (auto simp: miner_main_step_def miner_handle_def)

section \<open>Witnesses\<close>

definition demo_request :: BMessage where
  "demo_request = NewRequest ''m'' 0 9"

lemma demo_request_fields:
  "BType demo_request = Request" "Lower demo_request = 0" "Upper demo_request = 9" "Data demo_request = ''m''"
  by (simp_all add: demo_request_def NewRequest_def)

lemma demo_upper: "Upper demo_request < - 1" "9 = unat (Upper demo_request - Lower demo_request)"
  by (simp_all add: demo_request_fields)

theorem miner_reply_minimal_witness:
  "\<exists>x. miner_handle (\<lambda>d x. x + 1) (\<lambda>n. 2) rev demo_request = Replies (NewResult (x + 1) x) \<and> x \<le> 8"
proof -
  have nz: "x + 1 \<noteq> 0" if "x \<le> (9 :: uint64)" for x
  proof -
    have "unat x \<le> 9" using that by (simp add: word_le_nat_alt)
    then have "unat (x + 1) = unat x + 1" by (simp add: unat_word_ariths)
    then show ?thesis by auto
  qed
  note reply = miner_reply_minimal [of demo_request 9 "\<lambda>n. 2" 2 rev "\<lambda>d x. x + 1", OF _ _ demo_upper]
  from reply obtain x where "miner_handle (\<lambda>d x. x + 1) (\<lambda>n. 2) rev demo_request = Replies (NewResult (x + 1) x)"
      "unat x \<le> 8"
    using nz by (auto simp: demo_request_fields)
  then show ?thesis by (auto simp: word_le_nat_alt)
qed

theorem miner_misses_upper_bound_witness:
  "\<exists>x. miner_handle (\<lambda>d x. 100 - x) (\<lambda>n. 2) rev demo_request = Replies (NewResult (100 - x) x) \<and> 91 < 100 - x"
proof -
  have sub: "unat (100 - x) = 100 - unat x" if "x \<le> (9 :: uint64)" for x
    using that unat_sub [of x 100] by (simp add: word_le_nat_alt)
  have "\<exists>x. miner_handle (\<lambda>d x. 100 - x) (\<lambda>n. 2) rev demo_request = Replies (NewResult (100 - x) x) \<and>
      100 - Upper demo_request < 100 - x"
  proof (rule miner_misses_upper_bound [of demo_request 9 "\<lambda>n. 2" 2 rev "\<lambda>d x. 100 - x"])
    show "100 - x \<noteq> 0" if "x \<le> Upper demo_request" for x
      using sub [of x] that by (auto simp: demo_request_fields word_le_nat_alt)
    show "100 - Upper demo_request < 100 - x" if "x < Upper demo_request" for x
      using sub [of x] that by (simp add: demo_request_fields word_less_nat_alt word_le_nat_alt)
  qed (use demo_upper in \<open>simp_all add: demo_request_fields\<close>)
  then show ?thesis by (simp add: demo_request_fields)
qed

theorem miner_panics_on_short_range_witness:
  "miner_main_step (\<lambda>n. if n < 3 then 0 else 1) rev (NewRequest ''m'' 0 2) = Panics"
  by (rule miner_panics_on_short_range) (simp_all add: NewRequest_def)

end
