(* ===== verification/Bitcoin_Server.thy ===== *)
theory Bitcoin_Server
  imports Bitcoin_Miner
begin

text \<open>
  The mining server (\<open>bitcoin/server/server.go\<close>): its state, the goroutine \<open>receive\<close> and
  every case of the select loop \<open>schedule\<close>, with the requests it splits, hands to miners,
  takes back from lost miners and answers.
\<close>

section \<open>State\<close>

record task =
  lost :: bool
  minHash :: uint64
  minNonce :: uint64
  t_miners :: int

record request =
  r_id :: int
  r_lower :: uint64
  r_upper :: uint64
  r_data :: string

record result =
  res_id :: int
  res_nonce :: uint64
  res_hash :: uint64

record miner =
  clientID :: int
  m_data :: string
  m_upper :: uint64
  m_lower :: uint64

record bserver =
  joins :: "int list"
  requests :: "request list"
  results :: "result list"
  errors :: "int list"
  freeMiners :: "int list"
  miners :: "(int, miner) gomap"
  pendingRequests :: "request list"
  tasks :: "(int, task) gomap"
  trigger :: nat

definition startServer :: bserver where
  "startServer = \<lparr>joins = [], requests = [], results = [], errors = [], freeMiners = [], miners = [],
     pendingRequests = [], tasks = [], trigger = 0\<rparr>"

text \<open>
  A case of the select loop ends normally with messages written, dereferences a nil
  pointer, or blocks on a channel that only the blocked goroutine itself would empty.
\<close>

datatype outcome = Next bserver "(int \<times> BMessage) list" | NilDeref | Stuck

definition chan_cap :: nat where
  "chan_cap = 1024"

definition pull_trigger :: "bserver \<Rightarrow> (int \<times> BMessage) list \<Rightarrow> outcome" where
  "pull_trigger s ws = (if trigger s = chan_cap then Stuck else Next (s\<lparr>trigger := trigger s + 1\<rparr>) ws)"

definition Go_min :: "uint64 \<Rightarrow> uint64 \<Rightarrow> uint64" where
  "Go_min a b = (if b > a then a else b)"

section \<open>receive\<close>

text \<open>What \<open>Read\<close> yields: the error of a lost connection, or a message with its sender.\<close>

datatype incoming = Lost int | Got int BMessage

definition receive :: "incoming \<Rightarrow> bserver \<Rightarrow> bserver option" where
  "receive x s = (case x of
       Lost i \<Rightarrow> if length (errors s) < chan_cap then Some (s\<lparr>errors := errors s @ [i]\<rparr>) else None
     | Got i m \<Rightarrow> (case BType m of
           Join \<Rightarrow> if length (joins s) < chan_cap then Some (s\<lparr>joins := joins s @ [i]\<rparr>) else None
         | Request \<Rightarrow> if length (requests s) < chan_cap
             then Some (s\<lparr>requests := requests s @
               [\<lparr>r_id = i, r_lower = Lower m, r_upper = Upper m, r_data = Data m\<rparr>]\<rparr>) else None
         | Result \<Rightarrow> if length (results s) < chan_cap
             then Some (s\<lparr>results := results s @ [\<lparr>res_id = i, res_nonce = Nonce m, res_hash = BHash m\<rparr>]\<rparr>)
             else None
         | BOther _ \<Rightarrow> Some s))"

section \<open>schedule\<close>

text \<open>
  The case of a client's request. \<open>flog10 n\<close> is \<open>int(math.Floor(math.Log10(float64(n))))\<close>
  and \<open>fceil n k\<close> is \<open>uint64(math.Ceil(float64(n) / float64(k)))\<close>.
\<close>

definition stride_of :: "(nat \<Rightarrow> nat) \<Rightarrow> request \<Rightarrow> bserver \<Rightarrow> nat" where
  "stride_of flog10 r s =
    (let stride = (if r_upper r > 10000 then flog10 (unat (r_upper r)) else 1) in
     if length (freeMiners s) > 0 \<and> stride < length (freeMiners s) then length (freeMiners s) else stride)"

definition pieces_of :: "(nat \<Rightarrow> nat \<Rightarrow> uint64) \<Rightarrow> nat \<Rightarrow> request \<Rightarrow> request list" where
  "pieces_of fceil stride r =
    (let step = fceil (unat (r_upper r)) stride in
     map (\<lambda>i. \<lparr>r_id = r_id r, r_lower = of_nat i * step,
        r_upper = Go_min (r_upper r) (of_nat (i + 1) * step), r_data = r_data r\<rparr>) [0..<stride])"

definition on_request :: "(nat \<Rightarrow> nat) \<Rightarrow> (nat \<Rightarrow> nat \<Rightarrow> uint64) \<Rightarrow> request \<Rightarrow> bserver \<Rightarrow> outcome" where
  "on_request flog10 fceil r s =
    (let stride = stride_of flog10 r s;
         t = \<lparr>lost = False, minHash = 0, minNonce = 0, t_miners = int stride\<rparr> in
     pull_trigger (s\<lparr>tasks := gm_set (r_id r) t (tasks s),
        pendingRequests := pendingRequests s @ pieces_of fceil stride r\<rparr>) [])"

text \<open>The case of a trigger; \<open>werr\<close> says to which connections \<open>Write\<close> fails.\<close>

definition on_trigger :: "(int \<Rightarrow> bool) \<Rightarrow> bserver \<Rightarrow> outcome" where
  "on_trigger werr s = (case (freeMiners s, pendingRequests s) of
       (mid # fs, r # rs) \<Rightarrow>
         (case gm_get (tasks s) (r_id r) of
            None \<Rightarrow> NilDeref
          | Some t \<Rightarrow>
              if lost t then Next (s\<lparr>pendingRequests := rs\<rparr>) []
              else if werr mid then
                (if length (errors s) < chan_cap then Next (s\<lparr>errors := errors s @ [mid]\<rparr>) [] else Stuck)
              else Next (s\<lparr>pendingRequests := rs, freeMiners := fs,
                  miners := gm_set mid \<lparr>clientID = r_id r, m_data = r_data r, m_upper = r_upper r,
                    m_lower = r_lower r\<rparr> (miners s)\<rparr>)
                [(mid, NewRequest (r_data r) (r_lower r) (r_upper r))])
     | _ \<Rightarrow> Next s [])"

definition on_join :: "int \<Rightarrow> bserver \<Rightarrow> outcome" where
  "on_join i s = pull_trigger (s\<lparr>freeMiners := i # freeMiners s,
     miners := gm_set i \<lparr>clientID = 0, m_data = [], m_upper = 0, m_lower = 0\<rparr> (miners s)\<rparr>) []"

definition on_result :: "result \<Rightarrow> bserver \<Rightarrow> outcome" where
  "on_result r s = (case gm_get (miners s) (res_id r) of
       None \<Rightarrow> Next s []
     | Some mn \<Rightarrow>
         if clientID mn = 0 then Next s []
         else (case gm_get (tasks s) (clientID mn) of
             None \<Rightarrow> NilDeref
           | Some t0 \<Rightarrow>
               let best = pick (minHash t0, minNonce t0) (res_hash r, res_nonce r);
                   t = t0\<lparr>t_miners := t_miners t0 - 1, minHash := fst best, minNonce := snd best\<rparr>;
                   fin = (t_miners t = 0);
                   ws = (if fin \<and> \<not> lost t then [(clientID mn, NewResult (minHash t) (minNonce t))] else []);
                   ts = (if fin then gm_del (clientID mn) (tasks s) else gm_set (clientID mn) t (tasks s))
               in pull_trigger (s\<lparr>tasks := ts, miners := gm_set (res_id r) (mn\<lparr>clientID := 0\<rparr>) (miners s),
                    freeMiners := freeMiners s @ [res_id r]\<rparr>) ws))"

text \<open>
  The loop that removes dead miners from the list of free ones. \<open>Remove\<close> takes the element
  out of the list, so \<open>me.Next()\<close> is nil afterwards and the loop ends with the first removal.
\<close>

fun remove_dead :: "(int, miner) gomap \<Rightarrow> int list \<Rightarrow> int list" where
  "remove_dead ms [] = []"
| "remove_dead ms (i # is) = (if gm_get ms i = None then is else i # remove_dead ms is)"

definition on_error :: "int \<Rightarrow> bserver \<Rightarrow> outcome" where
  "on_error e s = (case gm_get (miners s) e of
       Some mn \<Rightarrow>
         let free = (let ms = gm_del e (miners s) in
               Next (s\<lparr>miners := ms, freeMiners := remove_dead ms (freeMiners s)\<rparr>) []) in
         if clientID mn = 0 then free
         else (case gm_get (tasks s) (clientID mn) of
             None \<Rightarrow> NilDeref
           | Some t \<Rightarrow>
               if lost t then free
               else pull_trigger (s\<lparr>pendingRequests :=
                   \<lparr>r_id = clientID mn, r_lower = m_lower mn, r_upper = m_upper mn, r_data = m_data mn\<rparr> #
                   pendingRequests s,
                   miners := gm_del e (miners s)\<rparr>) [])
     | None \<Rightarrow> (case gm_get (tasks s) e of
           None \<Rightarrow> Next s []
         | Some t \<Rightarrow> Next (s\<lparr>tasks := gm_set e (t\<lparr>lost := True\<rparr>) (tasks s)\<rparr>) []))"

text \<open>One iteration of the loop: the event says which ready channel the select takes.\<close>

datatype bs_event = EvReceive incoming | EvRequest | EvTrigger "int \<Rightarrow> bool" | EvJoin | EvResult | EvError

definition schedule :: "(nat \<Rightarrow> nat) \<Rightarrow> (nat \<Rightarrow> nat \<Rightarrow> uint64) \<Rightarrow> bs_event \<Rightarrow> bserver \<Rightarrow> outcome option" where
  "schedule flog10 fceil e s = (case e of
       EvReceive i \<Rightarrow> map_option (\<lambda>t. Next t []) (receive i s)
     | EvRequest \<Rightarrow> (case requests s of [] \<Rightarrow> None
         | r # rs \<Rightarrow> Some (on_request flog10 fceil r (s\<lparr>requests := rs\<rparr>)))
     | EvTrigger werr \<Rightarrow> if trigger s = 0 then None
         else Some (on_trigger werr (s\<lparr>trigger := trigger s - 1\<rparr>))
     | EvJoin \<Rightarrow> (case joins s of [] \<Rightarrow> None | i # is \<Rightarrow> Some (on_join i (s\<lparr>joins := is\<rparr>)))
     | EvResult \<Rightarrow> (case results s of [] \<Rightarrow> None | r # rs \<Rightarrow> Some (on_result r (s\<lparr>results := rs\<rparr>)))
     | EvError \<Rightarrow> (case errors s of [] \<Rightarrow> None | i # is \<Rightarrow> Some (on_error i (s\<lparr>errors := is\<rparr>))))"

section \<open>Splitting a request\<close>

lemma pieces_length [simp]: "length (pieces_of fceil k r) = k"
  by (simp add: pieces_of_def Let_def)

lemma pieces_id: "p \<in> set (pieces_of fceil k r) \<Longrightarrow> r_id p = r_id r \<and> r_data p = r_data r"
  by (auto simp: pieces_of_def Let_def)

lemma pieces_upper: "p \<in> set (pieces_of fceil k r) \<Longrightarrow> r_upper p \<le> r_upper r"
  by (auto simp: pieces_of_def Let_def Go_min_def)

lemma pieces_cover:
  assumes "0 < k" and "unat (r_upper r) \<le> k * unat (fceil (unat (r_upper r)) k)"
    and "k * unat (fceil (unat (r_upper r)) k) < 2 ^ 64" and "x \<le> r_upper r"
  shows "\<exists>p \<in> set (pieces_of fceil k r). r_lower p \<le> x \<and> x \<le> r_upper p"
proof -
  let ?s = "fceil (unat (r_upper r)) k"
  have "unat x \<le> 0 + k * unat ?s" using assms(2,4) by (simp add: word_le_nat_alt)
  then obtain i where i: "i < k" "i * unat ?s \<le> unat x" "unat x \<le> Suc i * unat ?s"
    using in_some_part [OF assms(1), of 0 "unat x" "unat ?s"] by auto
  have off: "unat (of_nat j * ?s) = j * unat ?s" if "j \<le> k" for j
  proof -
    have "j * unat ?s \<le> k * unat ?s" using that by (rule mult_le_mono1)
    then have "j * unat ?s < 2 ^ 64" using assms(3) by (rule le_less_trans)
    then have "unat (0 :: uint64) + j * unat ?s < 2 ^ 64" by simp
    from unat_offset [OF this] show ?thesis by simp
  qed
  have "of_nat i * ?s \<le> x" "x \<le> of_nat (i + 1) * ?s"
    using i off [of i] off [of "i + 1"] by (simp_all add: word_le_nat_alt)
  then show ?thesis
    using assms(4) i(1) by (intro bexI [of _ "pieces_of fceil k r ! i"])
      (auto simp: pieces_of_def Let_def Go_min_def)
qed

section \<open>Accounting for the pieces\<close>

text \<open>
  History variables: the pieces of every request that was split, and every result that was
  accepted, with the client and the piece it was for.
\<close>

record ghost =
  goal :: "(int, request list) gomap"
  log :: "(int \<times> request \<times> uint64 \<times> uint64) list"

definition piece_of :: "miner \<Rightarrow> request" where
  "piece_of mn = \<lparr>r_id = clientID mn, r_lower = m_lower mn, r_upper = m_upper mn, r_data = m_data mn\<rparr>"

definition pend :: "bserver \<Rightarrow> int \<Rightarrow> request multiset" where
  "pend s c = filter_mset (\<lambda>r. r_id r = c) (mset (pendingRequests s))"

definition busy :: "bserver \<Rightarrow> int \<Rightarrow> request multiset" where
  "busy s c = filter_mset (\<lambda>r. r_id r = c) (image_mset piece_of (gm_vals (miners s)))"

definition log_of :: "ghost \<Rightarrow> int \<Rightarrow> (request \<times> uint64 \<times> uint64) list" where
  "log_of g c = map snd (filter (\<lambda>e. fst e = c) (log g))"

definition answered :: "ghost \<Rightarrow> int \<Rightarrow> request multiset" where
  "answered g c = mset (map fst (log_of g c))"

text \<open>The pieces of a client that are pending or with a miner.\<close>

definition open_pieces :: "bserver \<Rightarrow> int \<Rightarrow> request multiset" where
  "open_pieces s c = pend s c + busy s c"

text \<open>
  The account of one client's task: what was answered (\<open>A\<close>) and is open (\<open>P\<close>) makes up all
  pieces, or less when the client is lost and pieces are dropped; the task's counter is the
  number of pieces without an answer, and its best pair is the best of the answers.
\<close>

definition acc_ok :: "request list \<Rightarrow> request multiset \<Rightarrow> request multiset \<Rightarrow> (uint64 \<times> uint64) list \<Rightarrow>
    task \<Rightarrow> bool" where
  "acc_ok ps A P rs t \<longleftrightarrow> A + P \<subseteq># mset ps \<and>
     int (size A) + t_miners t = int (length ps) \<and> 0 < t_miners t \<and>
     (\<not> lost t \<longrightarrow> A + P = mset ps) \<and> (minHash t, minNonce t) = foldl pick (0, 0) rs"

definition task_ok :: "bserver \<Rightarrow> ghost \<Rightarrow> int \<Rightarrow> task \<Rightarrow> bool" where
  "task_ok s g c t \<longleftrightarrow> (\<exists>ps. gm_get (goal g) c = Some ps \<and>
     acc_ok ps (answered g c) (open_pieces s c) (map snd (log_of g c)) t)"

definition free_ok :: "bserver \<Rightarrow> bool" where
  "free_ok s \<longleftrightarrow> gm_wf (miners s) \<and> distinct (freeMiners s) \<and>
     (\<forall>i \<in> set (freeMiners s). \<exists>mn. gm_get (miners s) i = Some mn \<and> clientID mn = 0)"

definition client_ok :: "bserver \<Rightarrow> ghost \<Rightarrow> int \<Rightarrow> bool" where
  "client_ok s g c \<longleftrightarrow> (case gm_get (tasks s) c of
     None \<Rightarrow> open_pieces s c = {#} | Some t \<Rightarrow> task_ok s g c t)"

definition work_ok :: "bserver \<Rightarrow> ghost \<Rightarrow> bool" where
  "work_ok s g \<longleftrightarrow> free_ok s \<and> (\<forall>c. c \<noteq> 0 \<longrightarrow> client_ok s g c) \<and>
     pend s 0 = {#} \<and> gm_get (tasks s) 0 = None \<and> (\<forall>c. gm_get (goal g) c = None \<longrightarrow> log_of g c = [])"

definition ghost_step :: "(nat \<Rightarrow> nat) \<Rightarrow> (nat \<Rightarrow> nat \<Rightarrow> uint64) \<Rightarrow> bs_event \<Rightarrow> bserver \<Rightarrow> ghost \<Rightarrow> ghost" where
  "ghost_step flog10 fceil e s g = (case e of
       EvRequest \<Rightarrow> (case requests s of [] \<Rightarrow> g
         | r # _ \<Rightarrow> g\<lparr>goal := gm_set (r_id r) (pieces_of fceil (stride_of flog10 r s) r) (goal g)\<rparr>)
     | EvResult \<Rightarrow> (case results s of [] \<Rightarrow> g
         | r # _ \<Rightarrow> (case gm_get (miners s) (res_id r) of None \<Rightarrow> g
             | Some mn \<Rightarrow> if clientID mn = 0 then g
                 else g\<lparr>log := log g @ [(clientID mn, piece_of mn, res_hash r, res_nonce r)]\<rparr>))
     | _ \<Rightarrow> g)"

text \<open>
  The protocol of the connections, which the server does not enforce: a connection that sends a
  request sends one only, a connection joins once, and a request is split into a positive number
  of pieces, which the logarithm of its bound decides. Connection numbers are positive and never
  reused, so this is what the client and the miner programs do for bounds that give a positive
  stride; what happens otherwise is shown below.
\<close>

definition well_behaved :: "(nat \<Rightarrow> nat) \<Rightarrow> bs_event \<Rightarrow> bserver \<Rightarrow> ghost \<Rightarrow> bool" where
  "well_behaved flog10 e s g \<longleftrightarrow> (case e of
       EvRequest \<Rightarrow> (case requests s of [] \<Rightarrow> True
         | r # _ \<Rightarrow> r_id r \<noteq> 0 \<and> gm_get (goal g) (r_id r) = None \<and> 0 < stride_of flog10 r s)
     | EvJoin \<Rightarrow> (case joins s of [] \<Rightarrow> True | i # _ \<Rightarrow> gm_get (miners s) i = None)
     | _ \<Rightarrow> True)"

text \<open>A client whose task, pieces and answers stay as they are stays accounted for.\<close>

lemma client_ok_same:
  assumes "client_ok s g c" and "gm_get (tasks t) c = gm_get (tasks s) c"
    and "open_pieces t c = open_pieces s c" and "gm_get (goal g') c = gm_get (goal g) c"
    and "log_of g' c = log_of g c"
  shows "client_ok t g' c"
  using assms(1) unfolding client_ok_def task_ok_def answered_def assms(2-) .

lemma work_ok_client: "work_ok s g \<Longrightarrow> c \<noteq> 0 \<Longrightarrow> client_ok s g c"
  by (simp add: work_ok_def)

text \<open>Only the accounts of the clients in question have to be looked at.\<close>

lemma work_okI:
  assumes "work_ok s g" and "free_ok t" and "pend t 0 = {#}" and "gm_get (tasks t) 0 = None"
    and "\<And>d. gm_get (goal g') d = None \<Longrightarrow> log_of g' d = []"
    and "c \<noteq> 0 \<Longrightarrow> client_ok t g' c"
    and "\<And>d. d \<noteq> 0 \<Longrightarrow> d \<noteq> c \<Longrightarrow> gm_get (tasks t) d = gm_get (tasks s) d \<and>
      open_pieces t d = open_pieces s d \<and> gm_get (goal g') d = gm_get (goal g) d \<and> log_of g' d = log_of g d"
  shows "work_ok t g'"
proof -
  have "client_ok t g' d" if d: "d \<noteq> 0" for d
  proof (cases "d = c")
    case True
    then show ?thesis using assms(6) d by simp
  next
    case False
    note e = assms(7) [OF d False]
    show ?thesis
      by (rule client_ok_same [OF work_ok_client [OF assms(1) d]]) (rule e [THEN conjunct1] e [THEN conjunct2, THEN conjunct1]
          e [THEN conjunct2, THEN conjunct2, THEN conjunct1] e [THEN conjunct2, THEN conjunct2, THEN conjunct2])+
  qed
  then show ?thesis unfolding work_ok_def using assms(2-5) by blast
qed

text \<open>Pieces with miners after a change of the map of miners.\<close>

definition busy_in :: "(int, miner) gomap \<Rightarrow> int \<Rightarrow> request multiset" where
  "busy_in ms c = filter_mset (\<lambda>r. r_id r = c) (image_mset piece_of (gm_vals ms))"

definition plus_if :: "bool \<Rightarrow> 'a \<Rightarrow> 'a multiset \<Rightarrow> 'a multiset" where
  "plus_if b x M = (if b then add_mset x M else M)"

lemma busy_busy_in: "busy s c = busy_in (miners s) c"
  by (simp add: busy_def busy_in_def)

lemma r_id_piece [simp]: "r_id (piece_of mn) = clientID mn"
  by (simp add: piece_of_def)

lemma busy_in_new:
  "gm_get ms k = None \<Longrightarrow> busy_in (gm_set k v ms) c = plus_if (clientID v = c) (piece_of v) (busy_in ms c)"
  by (simp add: busy_in_def gm_vals_new plus_if_def)

lemma busy_in_set:
  assumes "gm_wf ms" and "gm_get ms k = Some u"
  shows "plus_if (clientID u = c) (piece_of u) (busy_in (gm_set k v ms) c) =
    plus_if (clientID v = c) (piece_of v) (busy_in ms c)"
proof -
  have "filter_mset (\<lambda>r. r_id r = c) (image_mset piece_of (add_mset u (gm_vals (gm_set k v ms)))) =
      filter_mset (\<lambda>r. r_id r = c) (image_mset piece_of (add_mset v (gm_vals ms)))"
    by (simp only: gm_vals_set [OF assms])
  then show ?thesis by (simp add: busy_in_def plus_if_def)
qed

lemma busy_in_del:
  assumes "gm_wf ms" and "gm_get ms k = Some u"
  shows "busy_in ms c = plus_if (clientID u = c) (piece_of u) (busy_in (gm_del k ms) c)"
  by (simp add: busy_in_def gm_vals_del [OF assms] plus_if_def)

lemma busy_in_member: "gm_get ms k = Some mn \<Longrightarrow> piece_of mn \<in># busy_in ms (clientID mn)"
  by (auto simp: busy_in_def gm_vals_def dest!: map_of_SomeD)
    (metis image_eqI imageI snd_conv)

section \<open>Each case keeps the accounts\<close>

lemma work_ok_queues:
  assumes "work_ok s g" and "freeMiners t = freeMiners s" and "miners t = miners s"
    and "pendingRequests t = pendingRequests s" and "tasks t = tasks s"
  shows "work_ok t g"
  using assms(1) unfolding work_ok_def free_ok_def client_ok_def task_ok_def open_pieces_def pend_def
    busy_def assms(2-) .

lemma work_ok_pull:
  assumes "pull_trigger s ws = Next t ws'" and "work_ok s g"
  shows "work_ok t g" "ws' = ws"
proof -
  have t: "t = s\<lparr>trigger := trigger s + 1\<rparr>" "ws' = ws"
    using assms(1) by (auto simp: pull_trigger_def split: if_splits)
  then show "work_ok t g" by (intro work_ok_queues [OF assms(2)]) simp_all
  show "ws' = ws" by (rule t(2))
qed

lemma pend_pieces:
  "filter_mset (\<lambda>p. r_id p = c) (mset (pieces_of fceil k r)) =
     (if c = r_id r then mset (pieces_of fceil k r) else {#})"
proof -
  have "filter (\<lambda>p. r_id p = c) (pieces_of fceil k r) = (if c = r_id r then pieces_of fceil k r else [])"
    using pieces_id [of _ fceil k r] by (auto simp: filter_id_conv filter_empty_conv)
  from arg_cong [OF this, of mset] show ?thesis by (simp split: if_splits)
qed

lemma work_ok_request:
  assumes "work_ok s g" and "r_id r \<noteq> 0" and "gm_get (goal g) (r_id r) = None"
    and "0 < stride_of flog10 r s" and "on_request flog10 fceil r s = Next t ws"
  shows "work_ok t (g\<lparr>goal := gm_set (r_id r) (pieces_of fceil (stride_of flog10 r s) r) (goal g)\<rparr>)"
proof -
  let ?k = "stride_of flog10 r s" and ?c = "r_id r"
  let ?ps = "pieces_of fceil ?k r" and ?t = "\<lparr>lost = False, minHash = 0, minNonce = 0, t_miners = int ?k\<rparr>"
  let ?g = "g\<lparr>goal := gm_set ?c ?ps (goal g)\<rparr>"
  let ?s = "s\<lparr>tasks := gm_set ?c ?t (tasks s), pendingRequests := pendingRequests s @ ?ps\<rparr>"
  have cl: "client_ok s g ?c" using work_ok_client [OF assms(1,2)] .
  have "gm_get (tasks s) ?c = None"
    using cl assms(3) by (cases "gm_get (tasks s) ?c") (auto simp: client_ok_def task_ok_def)
  then have none: "open_pieces s ?c = {#}" using cl by (simp add: client_ok_def)
  have log: "log_of ?g c = log_of g c" for c by (simp add: log_of_def)
  have nolog: "log_of g ?c = []" using assms(1,3) by (simp add: work_ok_def)
  have pend: "pend ?s c = pend s c + (if c = ?c then mset ?ps else {#})" for c
    using pend_pieces [of c fceil ?k r] by (simp add: pend_def)
  have opn: "open_pieces ?s c = open_pieces s c + (if c = ?c then mset ?ps else {#})" for c
    using pend [of c] by (simp add: open_pieces_def busy_def)
  have "work_ok ?s ?g"
  proof (rule work_okI [OF assms(1), of _ _ ?c])
    show "free_ok ?s" "gm_get (tasks ?s) 0 = None" "pend ?s 0 = {#}"
      using assms(1,2) pend [of 0] by (simp_all add: work_ok_def free_ok_def)
    show "client_ok ?s ?g ?c"
      using assms(4) none opn [of ?c] nolog log [of ?c]
      by (simp add: client_ok_def task_ok_def acc_ok_def answered_def)
    show "log_of ?g d = []" if "gm_get (goal ?g) d = None" for d
      using that assms(1) log [of d] by (simp add: work_ok_def split: if_splits)
    show "gm_get (tasks ?s) d = gm_get (tasks s) d \<and> open_pieces ?s d = open_pieces s d \<and>
        gm_get (goal ?g) d = gm_get (goal g) d \<and> log_of ?g d = log_of g d" if "d \<noteq> ?c" for d
      using that opn [of d] log [of d] by simp
  qed
  then show ?thesis
    using work_ok_pull [of ?s "[]" t ws ?g] assms(5) by (simp add: on_request_def Let_def)
qed

lemma work_ok_task:
  assumes "work_ok s g" and "gm_get (tasks s) c = Some t"
  shows "c \<noteq> 0" "task_ok s g c t"
proof -
  show c: "c \<noteq> 0" using assms by (auto simp: work_ok_def)
  show "task_ok s g c t" using work_ok_client [OF assms(1) c] assms(2) by (simp add: client_ok_def)
qed

lemma open_task:
  assumes "work_ok s g" and "c \<noteq> 0" and "open_pieces s c \<noteq> {#}"
  shows "\<exists>t. gm_get (tasks s) c = Some t"
  using work_ok_client [OF assms(1,2)] assms(3) by (cases "gm_get (tasks s) c") (simp_all add: client_ok_def)

lemma pending_task:
  assumes "work_ok s g" and "pendingRequests s = r # rs"
  shows "\<exists>t. gm_get (tasks s) (r_id r) = Some t"
proof (rule open_task [OF assms(1)])
  have "r \<in># pend s (r_id r)" using assms(2) by (simp add: pend_def)
  then show "r_id r \<noteq> 0" "open_pieces s (r_id r) \<noteq> {#}"
    using assms(1) by (auto simp: work_ok_def open_pieces_def)
qed

lemma busy_task:
  assumes "work_ok s g" and "gm_get (miners s) k = Some mn" and "clientID mn \<noteq> 0"
  shows "\<exists>t. gm_get (tasks s) (clientID mn) = Some t"
proof (rule open_task [OF assms(1,3)])
  show "open_pieces s (clientID mn) \<noteq> {#}"
    using busy_in_member [OF assms(2)] by (auto simp: open_pieces_def busy_busy_in)
qed

lemma free_miner:
  assumes "work_ok s g" and "i \<in> set (freeMiners s)"
  shows "\<exists>mn. gm_get (miners s) i = Some mn \<and> clientID mn = 0"
  using assms by (simp add: work_ok_def free_ok_def)

text \<open>A pending piece leaves the front of the list.\<close>

lemma pend_tl:
  assumes "pendingRequests s = r # rs" and "pendingRequests t = rs"
  shows "pend s c = plus_if (r_id r = c) r (pend t c)"
  using assms by (simp add: pend_def plus_if_def)

lemma acc_ok_drop: "acc_ok ps A P rs t \<Longrightarrow> lost t \<Longrightarrow> P' \<subseteq># P \<Longrightarrow> acc_ok ps A P' rs t"
  unfolding acc_ok_def by (meson subset_mset.add_left_mono subset_mset.order_trans)

lemma work_ok_drop_lost:
  assumes "work_ok s g" and "pendingRequests s = r # rs" and "gm_get (tasks s) (r_id r) = Some t" and "lost t"
  shows "work_ok (s\<lparr>pendingRequests := rs\<rparr>) g"
proof (rule work_okI [OF assms(1), of _ _ "r_id r"])
  let ?s = "s\<lparr>pendingRequests := rs\<rparr>"
  have pend: "pend s c = plus_if (r_id r = c) r (pend ?s c)" for c using pend_tl [OF assms(2)] by simp
  have busy: "busy ?s c = busy s c" for c by (simp add: busy_def)
  have "open_pieces ?s (r_id r) \<subseteq># open_pieces s (r_id r)"
    using pend [of "r_id r"] busy by (simp add: open_pieces_def plus_if_def)
  then show "client_ok ?s g (r_id r)"
    using work_ok_task(2) [OF assms(1,3)] assms(3,4) acc_ok_drop by (auto simp: client_ok_def task_ok_def)
  show "gm_get (tasks ?s) d = gm_get (tasks s) d \<and> open_pieces ?s d = open_pieces s d \<and>
      gm_get (goal g) d = gm_get (goal g) d \<and> log_of g d = log_of g d" if "d \<noteq> r_id r" for d
    using that pend [of d] busy by (simp add: open_pieces_def plus_if_def)
  show "pend ?s 0 = {#}" using pend [of 0] assms(1) by (auto simp: work_ok_def plus_if_def split: if_splits)
qed (use assms(1) in \<open>auto simp: work_ok_def free_ok_def\<close>)

lemma work_ok_assign:
  assumes "work_ok s g" and "pendingRequests s = r # rs" and "freeMiners s = mid # fs"
    and "gm_get (tasks s) (r_id r) = Some t"
  shows "work_ok (s\<lparr>pendingRequests := rs, freeMiners := fs,
    miners := gm_set mid \<lparr>clientID = r_id r, m_data = r_data r, m_upper = r_upper r, m_lower = r_lower r\<rparr>
      (miners s)\<rparr>) g"
proof -
  let ?mn = "\<lparr>clientID = r_id r, m_data = r_data r, m_upper = r_upper r, m_lower = r_lower r\<rparr>"
  let ?s = "s\<lparr>pendingRequests := rs, freeMiners := fs, miners := gm_set mid ?mn (miners s)\<rparr>"
  have free: "gm_wf (miners s)" "distinct (mid # fs)"
    "\<forall>i \<in> set fs. \<exists>mn. gm_get (miners s) i = Some mn \<and> clientID mn = 0"
    using assms(1,3) by (auto simp: work_ok_def free_ok_def)
  obtain u where u: "gm_get (miners s) mid = Some u" "clientID u = 0"
    using free_miner [OF assms(1)] assms(3) by auto
  have r0: "r_id r \<noteq> 0" using work_ok_task(1) [OF assms(1,4)] .
  have "piece_of ?mn = r" by (simp add: piece_of_def)
  then have busy: "busy ?s c = plus_if (r_id r = c) r (busy s c)" if "c \<noteq> 0" for c
    using busy_in_set [OF free(1) u(1), of c ?mn] that u(2) by (simp add: busy_busy_in plus_if_def)
  have pend: "pend s c = plus_if (r_id r = c) r (pend ?s c)" for c using pend_tl [OF assms(2)] by simp
  have opn: "open_pieces ?s c = open_pieces s c" if "c \<noteq> 0" for c
    using pend [of c] busy [OF that] by (simp add: open_pieces_def plus_if_def)
  show ?thesis
  proof (rule work_okI [OF assms(1), of _ _ 0])
    show "free_ok ?s" using free u by (auto simp: free_ok_def)
    show "pend ?s 0 = {#}" using pend [of 0] assms(1) r0 by (simp add: plus_if_def work_ok_def)
  qed (use assms(1) opn in \<open>auto simp: work_ok_def\<close>)
qed

lemma work_ok_trigger:
  assumes "work_ok s g" and "on_trigger werr s = Next t ws"
  shows "work_ok t g"
proof (cases "freeMiners s = [] \<or> pendingRequests s = []")
  case True
  then have "t = s" using assms(2) by (auto simp: on_trigger_def split: list.splits)
  then show ?thesis using assms(1) by simp
next
  case False
  then obtain mid fs r rs where q: "freeMiners s = mid # fs" "pendingRequests s = r # rs"
    by (cases "freeMiners s"; cases "pendingRequests s") auto
  obtain tk where tk: "gm_get (tasks s) (r_id r) = Some tk" using pending_task [OF assms(1) q(2)] by blast
  have "work_ok (s\<lparr>errors := errors s @ [mid]\<rparr>) g" by (rule work_ok_queues [OF assms(1)]) simp_all
  then show ?thesis
    using assms(2) q tk work_ok_drop_lost [OF assms(1) q(2) tk] work_ok_assign [OF assms(1) q(2,1) tk]
    by (auto simp: on_trigger_def split: if_splits)
qed

lemma work_ok_join:
  assumes "work_ok s g" and "gm_get (miners s) i = None" and "on_join i s = Next t ws"
  shows "work_ok t g"
proof -
  let ?mn = "\<lparr>clientID = 0, m_data = [], m_upper = 0, m_lower = 0\<rparr>"
  let ?s = "s\<lparr>freeMiners := i # freeMiners s, miners := gm_set i ?mn (miners s)\<rparr>"
  have "busy ?s c = busy s c" if "c \<noteq> 0" for c
    using busy_in_new [OF assms(2), of ?mn c] that by (simp add: busy_busy_in plus_if_def)
  then have opn: "open_pieces ?s c = open_pieces s c" if "c \<noteq> 0" for c
    using that by (simp add: open_pieces_def pend_def)
  have "work_ok ?s g"
  proof (rule work_okI [OF assms(1), of _ _ 0])
    have "i \<notin> set (freeMiners s)" using free_miner [OF assms(1), of i] assms(2) by auto
    then show "free_ok ?s" using assms(1) by (auto simp: work_ok_def free_ok_def)
  qed (use assms(1) opn in \<open>auto simp: work_ok_def pend_def\<close>)
  then show ?thesis using work_ok_pull [of ?s "[]"] assms(3) by (simp add: on_join_def)
qed

lemma acc_ok_answer:
  assumes "acc_ok ps A (add_mset p P) rs t" and "best = pick (minHash t, minNonce t) r"
    and "t' = t\<lparr>t_miners := t_miners t - 1, minHash := fst best, minNonce := snd best\<rparr>"
  shows "if t_miners t' = 0 then P = {#} \<and> mset ps = add_mset p A
    else acc_ok ps (add_mset p A) P (rs @ [r]) t'"
proof -
  have sub: "add_mset p A + P \<subseteq># mset ps" using assms(1) by (simp add: acc_ok_def)
  have len: "int (size A) + t_miners t = int (length ps)" "0 < t_miners t" using assms(1) by (auto simp: acc_ok_def)
  have "P = {#} \<and> mset ps = add_mset p A" if "t_miners t' = 0"
  proof -
    have one: "t_miners t = 1" using that assms(3) by simp
    have "size (add_mset p A + P) \<le> size (mset ps)" using sub by (rule size_mset_mono)
    moreover have length: "length ps = Suc (size A)" using len(1) one by linarith
    ultimately have P: "P = {#}" by simp
    have "size (mset ps) = size (add_mset p A)" using length by simp
    moreover have "add_mset p A \<subseteq># mset ps" using sub P by simp
    ultimately have "mset ps = add_mset p A" using mset_subset_size subset_mset.le_imp_less_or_eq by fastforce
    with P show ?thesis by blast
  qed
  moreover have "acc_ok ps (add_mset p A) P (rs @ [r]) t'" if "t_miners t' \<noteq> 0"
    using assms that by (auto simp: acc_ok_def)
  ultimately show ?thesis by simp
qed

lemma log_of_snoc: "log_of (g\<lparr>log := log g @ [(c, e)]\<rparr>) d = (if d = c then log_of g c @ [e] else log_of g d)"
  by (simp add: log_of_def)

lemma on_result_accept:
  assumes "gm_get (miners s) (res_id r) = Some mn" and "clientID mn \<noteq> 0"
    and "gm_get (tasks s) (clientID mn) = Some t0"
    and "best = pick (minHash t0, minNonce t0) (res_hash r, res_nonce r)"
    and "t1 = t0\<lparr>t_miners := t_miners t0 - 1, minHash := fst best, minNonce := snd best\<rparr>"
  shows "on_result r s = pull_trigger
    (s\<lparr>tasks := (if t_miners t1 = 0 then gm_del (clientID mn) (tasks s) else gm_set (clientID mn) t1 (tasks s)),
       miners := gm_set (res_id r) (mn\<lparr>clientID := 0\<rparr>) (miners s),
       freeMiners := freeMiners s @ [res_id r]\<rparr>)
    (if t_miners t1 = 0 \<and> \<not> lost t0 then [(clientID mn, NewResult (fst best) (snd best))] else [])"
  using assms(1-3) unfolding assms(4,5) by (simp add: on_result_def Let_def)

lemma work_ok_result:
  assumes "work_ok s g" and "gm_get (miners s) (res_id r) = Some mn" and "clientID mn \<noteq> 0"
    and "on_result r s = Next t ws"
  shows "work_ok t (g\<lparr>log := log g @ [(clientID mn, piece_of mn, res_hash r, res_nonce r)]\<rparr>)"
proof -
  let ?c = "clientID mn" and ?r = "(res_hash r, res_nonce r)"
  let ?g = "g\<lparr>log := log g @ [(?c, piece_of mn, ?r)]\<rparr>"
  obtain t0 where t0: "gm_get (tasks s) ?c = Some t0" using busy_task [OF assms(1-3)] by blast
  define best where "best = pick (minHash t0, minNonce t0) ?r"
  define t1 where "t1 = t0\<lparr>t_miners := t_miners t0 - 1, minHash := fst best, minNonce := snd best\<rparr>"
  define ts where "ts = (if t_miners t1 = 0 then gm_del ?c (tasks s) else gm_set ?c t1 (tasks s))"
  define s1 where "s1 = s\<lparr>tasks := ts, miners := gm_set (res_id r) (mn\<lparr>clientID := 0\<rparr>) (miners s),
      freeMiners := freeMiners s @ [res_id r]\<rparr>"
  have wf: "gm_wf (miners s)" using assms(1) by (simp add: work_ok_def free_ok_def)
  have busy: "busy s d = plus_if (?c = d) (piece_of mn) (busy s1 d)" if "d \<noteq> 0" for d
    using busy_in_set [OF wf assms(2), of d "mn\<lparr>clientID := 0\<rparr>"] that
    by (simp add: busy_busy_in s1_def plus_if_def)
  have opn: "open_pieces s d = plus_if (?c = d) (piece_of mn) (open_pieces s1 d)" if "d \<noteq> 0" for d
    using busy [OF that] by (simp add: open_pieces_def pend_def s1_def plus_if_def)
  obtain ps where ps: "gm_get (goal g) ?c = Some ps"
      "acc_ok ps (answered g ?c) (add_mset (piece_of mn) (open_pieces s1 ?c)) (map snd (log_of g ?c)) t0"
    using work_ok_task(2) [OF assms(1) t0] opn [OF assms(3)] by (auto simp: task_ok_def plus_if_def)
  note acc = acc_ok_answer [OF ps(2) best_def t1_def]
  have "work_ok s1 ?g"
  proof (rule work_okI [OF assms(1), of _ _ ?c])
    show "client_ok s1 ?g ?c"
      using acc ps(1) log_of_snoc [of g ?c "(piece_of mn, ?r)" ?c]
      by (auto simp: client_ok_def task_ok_def answered_def s1_def ts_def split: if_splits)
    show "free_ok s1"
    proof -
      have "res_id r \<notin> set (freeMiners s)" using free_miner [OF assms(1), of "res_id r"] assms(2,3) by auto
      then show ?thesis using assms(1) by (auto simp: work_ok_def free_ok_def s1_def)
    qed
    show "gm_get (tasks s1) d = gm_get (tasks s) d \<and> open_pieces s1 d = open_pieces s d \<and>
        gm_get (goal ?g) d = gm_get (goal g) d \<and> log_of ?g d = log_of g d" if "d \<noteq> 0" "d \<noteq> ?c" for d
      using that opn [of d] log_of_snoc [of g ?c "(piece_of mn, ?r)" d]
      by (simp add: s1_def ts_def plus_if_def)
    show "log_of ?g d = []" if "gm_get (goal ?g) d = None" for d
      using that ps(1) assms(1) log_of_snoc [of g ?c "(piece_of mn, ?r)" d] by (auto simp: work_ok_def)
  qed (use assms(1,3) in \<open>auto simp: work_ok_def pend_def s1_def ts_def\<close>)
  moreover have "\<exists>ws0. pull_trigger s1 ws0 = Next t ws"
    using assms(4) unfolding on_result_accept [OF assms(2,3) t0 best_def t1_def] s1_def ts_def by blast
  ultimately show ?thesis using work_ok_pull(1) by blast
qed

lemma remove_dead_alive: "\<forall>i \<in> set is. gm_get ms i \<noteq> None \<Longrightarrow> remove_dead ms is = is"
  by (induction "is") auto

lemma remove_dead_one:
  "\<forall>i \<in> set is. i \<noteq> e \<longrightarrow> gm_get ms i \<noteq> None \<Longrightarrow> gm_get ms e = None \<Longrightarrow> remove_dead ms is = remove1 e is"
  by (induction "is") auto

lemma work_ok_miner_gone:
  assumes "work_ok s g" and "gm_get (miners s) e = Some mn"
    and "clientID mn \<noteq> 0 \<longrightarrow> (\<exists>t. gm_get (tasks s) (clientID mn) = Some t \<and> lost t)"
  shows "work_ok (s\<lparr>miners := gm_del e (miners s),
    freeMiners := remove_dead (gm_del e (miners s)) (freeMiners s)\<rparr>) g"
proof -
  let ?ms = "gm_del e (miners s)" and ?c = "clientID mn"
  let ?s = "s\<lparr>miners := ?ms, freeMiners := remove_dead ?ms (freeMiners s)\<rparr>"
  have wf: "gm_wf (miners s)" and dist: "distinct (freeMiners s)"
    and idle: "\<forall>i \<in> set (freeMiners s). \<exists>mn. gm_get (miners s) i = Some mn \<and> clientID mn = 0"
    using assms(1) by (simp_all add: work_ok_def free_ok_def)
  have rem: "remove_dead ?ms (freeMiners s) = remove1 e (freeMiners s)"
    using idle by (intro remove_dead_one) auto
  have busy: "busy s d = plus_if (?c = d) (piece_of mn) (busy ?s d)" for d
    using busy_in_del [OF wf assms(2), of d] by (simp add: busy_busy_in)
  have opn: "open_pieces s d = plus_if (?c = d) (piece_of mn) (open_pieces ?s d)" for d
    using busy [of d] by (simp add: open_pieces_def pend_def plus_if_def)
  show ?thesis
  proof (rule work_okI [OF assms(1), of _ _ ?c])
    show "free_ok ?s" using wf dist idle by (auto simp: free_ok_def rem)
    show "client_ok ?s g ?c" if c: "?c \<noteq> 0"
    proof -
      obtain t where t: "gm_get (tasks s) ?c = Some t" "lost t" using assms(3) c by blast
      have "open_pieces ?s ?c \<subseteq># open_pieces s ?c" using opn [of ?c] by (simp add: plus_if_def)
      then show ?thesis
        using work_ok_task(2) [OF assms(1) t(1)] t acc_ok_drop by (auto simp: client_ok_def task_ok_def)
    qed
    show "gm_get (tasks ?s) d = gm_get (tasks s) d \<and> open_pieces ?s d = open_pieces s d \<and>
        gm_get (goal g) d = gm_get (goal g) d \<and> log_of g d = log_of g d" if "d \<noteq> ?c" for d
      using that opn [of d] by (simp add: plus_if_def)
  qed (use assms(1) in \<open>auto simp: work_ok_def pend_def\<close>)
qed

lemma work_ok_requeue:
  assumes "work_ok s g" and "gm_get (miners s) e = Some mn" and "clientID mn \<noteq> 0"
  shows "work_ok (s\<lparr>pendingRequests := piece_of mn # pendingRequests s, miners := gm_del e (miners s)\<rparr>) g"
proof -
  let ?s = "s\<lparr>pendingRequests := piece_of mn # pendingRequests s, miners := gm_del e (miners s)\<rparr>"
  have wf: "gm_wf (miners s)" using assms(1) by (simp add: work_ok_def free_ok_def)
  have "busy s d = plus_if (clientID mn = d) (piece_of mn) (busy ?s d)" for d
    using busy_in_del [OF wf assms(2), of d] by (simp add: busy_busy_in)
  then have opn: "open_pieces ?s d = open_pieces s d" for d
    by (simp add: open_pieces_def pend_def plus_if_def)
  show ?thesis
  proof (rule work_okI [OF assms(1), of _ _ 0])
    have "e \<notin> set (freeMiners s)" using free_miner [OF assms(1), of e] assms(2,3) by auto
    then show "free_ok ?s" using assms(1) by (auto simp: work_ok_def free_ok_def)
  qed (use assms(1,3) opn in \<open>auto simp: work_ok_def pend_def\<close>)
qed

lemma work_ok_client_gone:
  assumes "work_ok s g" and "gm_get (tasks s) e = Some t"
  shows "work_ok (s\<lparr>tasks := gm_set e (t\<lparr>lost := True\<rparr>) (tasks s)\<rparr>) g"
proof (rule work_okI [OF assms(1), of _ _ e])
  let ?s = "s\<lparr>tasks := gm_set e (t\<lparr>lost := True\<rparr>) (tasks s)\<rparr>"
  have opn: "open_pieces ?s d = open_pieces s d" for d by (simp add: open_pieces_def pend_def busy_def)
  show "client_ok ?s g e"
    using work_ok_task(2) [OF assms] opn by (auto simp: client_ok_def task_ok_def acc_ok_def)
  show "gm_get (tasks ?s) d = gm_get (tasks s) d \<and> open_pieces ?s d = open_pieces s d \<and>
      gm_get (goal g) d = gm_get (goal g) d \<and> log_of g d = log_of g d" if "d \<noteq> e" for d
    using that opn by simp
qed (use assms work_ok_task(1) [OF assms] in \<open>auto simp: work_ok_def free_ok_def pend_def\<close>)

lemma work_ok_error:
  assumes "work_ok s g" and "on_error e s = Next t ws"
  shows "work_ok t g"
proof (cases "gm_get (miners s) e")
  case None
  show ?thesis
  proof (cases "gm_get (tasks s) e")
    case (Some tk)
    with None assms(2) work_ok_client_gone [OF assms(1) Some] show ?thesis by (simp add: on_error_def)
  qed (use None assms in \<open>simp add: on_error_def\<close>)
next
  case (Some mn)
  show ?thesis
  proof (cases "clientID mn = 0")
    case True
    with Some assms(2) work_ok_miner_gone [OF assms(1) Some] show ?thesis by (simp add: on_error_def Let_def)
  next
    case False
    then obtain tk where tk: "gm_get (tasks s) (clientID mn) = Some tk" using busy_task [OF assms(1) Some] by blast
    show ?thesis
    proof (cases "lost tk")
      case True
      with Some False tk assms(2) work_ok_miner_gone [OF assms(1) Some] show ?thesis
        by (simp add: on_error_def Let_def)
    next
      case False
      then have "pull_trigger (s\<lparr>pendingRequests := piece_of mn # pendingRequests s,
          miners := gm_del e (miners s)\<rparr>) [] = Next t ws"
        using Some \<open>clientID mn \<noteq> 0\<close> tk assms(2) by (simp add: on_error_def Let_def piece_of_def)
      then show ?thesis
        using work_ok_pull(1) work_ok_requeue [OF assms(1) Some \<open>clientID mn \<noteq> 0\<close>] by blast
    qed
  qed
qed

section \<open>Runs of the server\<close>

text \<open>A step of the server that ends normally, with the history variables.\<close>

definition bs_step :: "(nat \<Rightarrow> nat) \<Rightarrow> (nat \<Rightarrow> nat \<Rightarrow> uint64) \<Rightarrow> bserver \<times> ghost \<Rightarrow> bs_event \<Rightarrow>
    bserver \<times> ghost \<Rightarrow> bool" where
  "bs_step flog10 fceil x e y \<longleftrightarrow> well_behaved flog10 e (fst x) (snd x) \<and>
     (\<exists>ws. schedule flog10 fceil e (fst x) = Some (Next (fst y) ws)) \<and>
     snd y = ghost_step flog10 fceil e (fst x) (snd x)"

definition bs_init :: "bserver \<times> ghost \<Rightarrow> bool" where
  "bs_init x \<longleftrightarrow> x = (startServer, \<lparr>goal = [], log = []\<rparr>)"

lemma work_ok_init: "work_ok startServer \<lparr>goal = [], log = []\<rparr>"
  by (simp add: work_ok_def startServer_def free_ok_def client_ok_def open_pieces_def pend_def busy_def log_of_def)

lemma stride_of_queue: "stride_of flog10 r (s\<lparr>requests := rs\<rparr>) = stride_of flog10 r s"
  by (simp add: stride_of_def Let_def)

lemma work_ok_result_event:
  assumes "work_ok s g" and "results s = r # rs" and "on_result r (s\<lparr>results := rs\<rparr>) = Next t ws"
  shows "work_ok t (ghost_step flog10 fceil EvResult s g)"
proof -
  have ok: "work_ok (s\<lparr>results := rs\<rparr>) g" by (rule work_ok_queues [OF assms(1)]) simp_all
  show ?thesis
  proof (cases "\<exists>mn. gm_get (miners s) (res_id r) = Some mn \<and> clientID mn \<noteq> 0")
    case True
    then show ?thesis using work_ok_result [OF ok _ _ assms(3)] assms(2) by (auto simp: ghost_step_def)
  next
    case False
    then have "t = s\<lparr>results := rs\<rparr>" using assms(3) by (auto simp: on_result_def split: option.splits)
    then show ?thesis using False ok assms(2) by (auto simp: ghost_step_def split: option.splits)
  qed
qed

lemma work_ok_schedule:
  assumes "work_ok s g" and "well_behaved flog10 e s g" and "schedule flog10 fceil e s = Some (Next t ws)"
  shows "work_ok t (ghost_step flog10 fceil e s g)"
proof (cases e)
  case (EvReceive i)
  then obtain t' where t': "receive i s = Some t'" "t = t'" using assms(3) by (auto simp: schedule_def)
  have "work_ok t g" using t'
    by (intro work_ok_queues [OF assms(1)])
      (auto simp: receive_def split: incoming.splits BMsgType.splits if_splits)
  then show ?thesis using EvReceive by (simp add: ghost_step_def)
next
  case EvRequest
  then obtain r rs where r: "requests s = r # rs" "on_request flog10 fceil r (s\<lparr>requests := rs\<rparr>) = Next t ws"
    using assms(3) by (auto simp: schedule_def split: list.splits)
  have "work_ok (s\<lparr>requests := rs\<rparr>) g" by (rule work_ok_queues [OF assms(1)]) simp_all
  then show ?thesis
    using work_ok_request [OF _ _ _ _ r(2), of g] assms(2) EvRequest r(1)
    by (simp add: ghost_step_def well_behaved_def stride_of_queue)
next
  case (EvTrigger werr)
  then have "on_trigger werr (s\<lparr>trigger := trigger s - 1\<rparr>) = Next t ws"
    using assms(3) by (simp add: schedule_def split: if_splits)
  moreover have "work_ok (s\<lparr>trigger := trigger s - 1\<rparr>) g" by (rule work_ok_queues [OF assms(1)]) simp_all
  ultimately show ?thesis using work_ok_trigger EvTrigger by (simp add: ghost_step_def)
next
  case EvJoin
  then obtain i "is" where i: "joins s = i # is" "on_join i (s\<lparr>joins := is\<rparr>) = Next t ws"
    using assms(3) by (auto simp: schedule_def split: list.splits)
  moreover have "work_ok (s\<lparr>joins := is\<rparr>) g" by (rule work_ok_queues [OF assms(1)]) simp_all
  ultimately show ?thesis using work_ok_join [OF _ _ i(2)] assms(2) EvJoin
    by (simp add: ghost_step_def well_behaved_def)
next
  case EvResult
  then obtain r rs where r: "results s = r # rs" "on_result r (s\<lparr>results := rs\<rparr>) = Next t ws"
    using assms(3) by (auto simp: schedule_def split: list.splits)
  with assms(1) EvResult show ?thesis using work_ok_result_event by blast
next
  case EvError
  then obtain i "is" where i: "errors s = i # is" "on_error i (s\<lparr>errors := is\<rparr>) = Next t ws"
    using assms(3) by (auto simp: schedule_def split: list.splits)
  moreover have "work_ok (s\<lparr>errors := is\<rparr>) g" by (rule work_ok_queues [OF assms(1)]) simp_all
  ultimately show ?thesis using work_ok_error EvError by (simp add: ghost_step_def)
qed

interpretation bitcoin: inductive_invariant bs_init "bs_step flog10 fceil" "\<lambda>x. work_ok (fst x) (snd x)"
  for flog10 fceil
  by unfold_locales (auto simp: bs_init_def bs_step_def work_ok_init intro: work_ok_schedule)

text \<open>
  C30: with well-behaved connections no piece of a request is lost and the scheduler does not
  crash. As long as every connection sends at most one request and at most one join, and every
  request is split into a positive number of pieces (\<open>well_behaved\<close>, a condition on the steps
  \<open>bs_step\<close> that the server itself does not check), in every reachable state the answered, pending
  and assigned pieces of a live client's task are together all pieces of its request, each once;
  the task's counter is the number of unanswered ones; free miners are idle; and no case of the
  select loop dereferences a nil pointer.
\<close>

theorem scheduler_accounts:
  assumes "reach bs_init (bs_step flog10 fceil) (s, g)"
  shows "(\<forall>c t. gm_get (tasks s) c = Some t \<longrightarrow>
      (\<exists>ps. gm_get (goal g) c = Some ps \<and> int (size (answered g c)) + t_miners t = int (length ps) \<and>
        (\<not> lost t \<longrightarrow> answered g c + pend s c + busy s c = mset ps))) \<and>
    (\<forall>i \<in> set (freeMiners s). \<exists>mn. gm_get (miners s) i = Some mn \<and> clientID mn = 0) \<and>
    (\<forall>e. schedule flog10 fceil e s \<noteq> Some NilDeref)"
proof -
  have ok: "work_ok s g" using bitcoin.reach_inv [OF assms] by simp
  have "\<exists>ps. gm_get (goal g) c = Some ps \<and> int (size (answered g c)) + t_miners t = int (length ps) \<and>
      (\<not> lost t \<longrightarrow> answered g c + pend s c + busy s c = mset ps)" if "gm_get (tasks s) c = Some t" for c t
    using work_ok_task(2) [OF ok that] by (auto simp: task_ok_def acc_ok_def open_pieces_def add.assoc)
  moreover have nonil: False if "gm_get (miners s) k = Some mn" "gm_get (tasks s) (clientID mn) = None"
      "clientID mn \<noteq> 0" for k mn
    using busy_task [OF ok that(1,3)] that(2) by simp
  moreover have "schedule flog10 fceil e s \<noteq> Some NilDeref" for e
  proof (cases e)
    case (EvTrigger werr)
    let ?s = "s\<lparr>trigger := trigger s - 1\<rparr>"
    have "on_trigger werr ?s \<noteq> NilDeref"
      using pending_task [OF ok] by (auto simp: on_trigger_def split: list.splits option.splits)
    then show ?thesis using EvTrigger by (simp add: schedule_def)
  next
    case EvResult
    then show ?thesis
      by (auto simp: schedule_def on_result_def pull_trigger_def Let_def split: list.splits option.splits
          dest: nonil)
  next
    case EvError
    then show ?thesis
      by (auto simp: schedule_def on_error_def pull_trigger_def Let_def split: list.splits option.splits
          dest: nonil)
  qed (auto simp: schedule_def on_request_def on_join_def pull_trigger_def Let_def split: list.splits)
  ultimately show ?thesis using free_miner [OF ok] by blast
qed

text \<open>When a result completes a task, every piece has been answered and the best pair is sent.\<close>

lemma reply_account:
  assumes "work_ok s g" and "schedule flog10 fceil EvResult s = Some (Next t ws)" and "(c, m) \<in> set ws"
    and "g' = ghost_step flog10 fceil EvResult s g"
  shows "\<exists>ps. gm_get (goal g) c = Some ps \<and> mset (map fst (log_of g' c)) = mset ps \<and>
    m = NewResult (fst (foldl pick (0, 0) (map snd (log_of g' c)))) (snd (foldl pick (0, 0) (map snd (log_of g' c))))"
proof -
  obtain r rs where r: "results s = r # rs" "on_result r (s\<lparr>results := rs\<rparr>) = Next t ws"
    using assms(2) by (auto simp: schedule_def split: list.splits)
  let ?s = "s\<lparr>results := rs\<rparr>" and ?r = "(res_hash r, res_nonce r)"
  have ok: "work_ok ?s g" by (rule work_ok_queues [OF assms(1)]) simp_all
  have "\<exists>mn. gm_get (miners ?s) (res_id r) = Some mn \<and> clientID mn \<noteq> 0"
  proof (rule ccontr)
    assume "\<not> ?thesis"
    then have "ws = []" using r(2) by (auto simp: on_result_def split: option.splits)
    then show False using assms(3) by simp
  qed
  then obtain mn where mn: "gm_get (miners ?s) (res_id r) = Some mn" "clientID mn \<noteq> 0" by blast
  obtain t0 where t0: "gm_get (tasks ?s) (clientID mn) = Some t0" using busy_task [OF ok mn] by blast
  define best where "best = pick (minHash t0, minNonce t0) ?r"
  define t1 where "t1 = t0\<lparr>t_miners := t_miners t0 - 1, minHash := fst best, minNonce := snd best\<rparr>"
  have ws: "t_miners t1 = 0" "c = clientID mn" "m = NewResult (fst best) (snd best)"
    using r(2) assms(3) unfolding on_result_accept [OF mn t0 best_def t1_def]
    by (auto simp: pull_trigger_def split: if_splits)
  have g': "log_of g' c = log_of g c @ [(piece_of mn, ?r)]"
    using assms(4) r(1) mn ws(2) log_of_snoc [of g c "(piece_of mn, ?r)" c] by (simp add: ghost_step_def)
  have "piece_of mn \<in># open_pieces ?s c"
    using busy_in_member [OF mn(1)] ws(2) by (simp add: open_pieces_def busy_busy_in)
  then obtain P where P: "open_pieces ?s c = add_mset (piece_of mn) P" by (meson mset_add)
  obtain ps where ps: "gm_get (goal g) c = Some ps"
      "acc_ok ps (answered g c) (add_mset (piece_of mn) P) (map snd (log_of g c)) t0"
    using work_ok_task(2) [OF ok t0] P ws(2) by (auto simp: task_ok_def)
  have "mset ps = add_mset (piece_of mn) (answered g c)"
    using acc_ok_answer [OF ps(2) best_def t1_def] ws(1) by simp
  moreover have "best = foldl pick (0, 0) (map snd (log_of g' c))"
    using ps(2) by (simp add: g' best_def acc_ok_def)
  ultimately show ?thesis using ps(1) ws(3) g' by (auto simp: answered_def)
qed

lemma client_reply_best:
  assumes "reach bs_init (bs_step flog10 fceil) (s, g)"
    and "schedule flog10 fceil EvResult s = Some (Next t ws)" and "(c, m) \<in> set ws"
    and "gm_get (goal g) c = Some (pieces_of fceil k r)"
    and "0 < k" and "unat (r_upper r) \<le> k * unat (fceil (unat (r_upper r)) k)"
    and "k * unat (fceil (unat (r_upper r)) k) < 2 ^ 64"
    and "\<And>p h x. (p, h, x) \<in> set (log_of (ghost_step flog10 fceil EvResult s g) c) \<Longrightarrow>
      r_lower p \<le> x \<and> x \<le> r_upper p \<and> h = hash x \<and> h \<noteq> 0 \<and>
      (\<forall>y. r_lower p \<le> y \<and> y \<le> r_upper p \<longrightarrow> h \<le> hash y)"
  shows "\<exists>x. m = NewResult (hash x) x \<and> x \<le> r_upper r \<and> (\<forall>y. y \<le> r_upper r \<longrightarrow> hash x \<le> hash y)"
proof -
  define lg where "lg = log_of (ghost_step flog10 fceil EvResult s g) c"
  have ok: "work_ok s g" using bitcoin.reach_inv [OF assms(1)] by simp
  have acc: "mset (map fst lg) = mset (pieces_of fceil k r)"
    "m = NewResult (fst (foldl pick (0, 0) (map snd lg))) (snd (foldl pick (0, 0) (map snd lg)))"
    using reply_account [OF ok assms(2,3) refl] assms(4) by (auto simp: lg_def)
  have pieces: "fst ` set lg = set (pieces_of fceil k r)" using mset_eq_setD [OF acc(1)] by simp
  note ans = assms(8) [folded lg_def]
  have "map snd lg \<noteq> []" using arg_cong [OF acc(1), of size] assms(5) by auto
  moreover have "\<forall>e \<in> set (map snd lg). fst e \<noteq> 0"
  proof
    fix e assume "e \<in> set (map snd lg)"
    then obtain p where "(p, fst e, snd e) \<in> set lg" by auto
    then show "fst e \<noteq> 0" using ans by blast
  qed
  ultimately have best: "foldl pick (0, 0) (map snd lg) \<in> set (map snd lg)"
    "\<forall>e \<in> set (map snd lg). fst (foldl pick (0, 0) (map snd lg)) \<le> fst e"
    using pick_best [of "map snd lg"] by blast+
  obtain e where e: "e \<in> set lg" "foldl pick (0, 0) (map snd lg) = snd e"
    using best(1) unfolding set_map by (rule imageE) blast
  obtain p h x where "e = (p, h, x)" by (rule prod_cases3)
  with e have px: "(p, h, x) \<in> set lg" "foldl pick (0, 0) (map snd lg) = (h, x)" by simp_all
  have right: "x \<le> r_upper p" "h = hash x" using ans [OF px(1)] by blast+
  have "p \<in> set (pieces_of fceil k r)" unfolding pieces [symmetric] using imageI [OF px(1), of fst] by simp
  then have "x \<le> r_upper r" using pieces_upper right(1) order_trans by blast
  moreover have "hash x \<le> hash y" if y: "y \<le> r_upper r" for y
  proof -
    obtain q where q: "q \<in> set (pieces_of fceil k r)" "r_lower q \<le> y" "y \<le> r_upper q"
      using pieces_cover [of k r fceil y, OF assms(5-7) y] by blast
    then obtain e' where e': "e' \<in> set lg" "fst e' = q" unfolding pieces [symmetric] by blast
    obtain h' x' where "snd e' = (h', x')" by (rule prod.exhaust)
    with e' have e: "(q, h', x') \<in> set lg" by (metis prod.collapse)
    have "h' \<le> hash y" using ans [OF e] q(2,3) by blast
    moreover have "(h', x') \<in> set (map snd lg)" unfolding set_map using imageI [OF e, of snd] by simp
    then have "fst (h, x) \<le> fst (h', x')" using best(2) unfolding px(2) by blast
    then have "h \<le> h'" by simp
    ultimately show ?thesis using right(2) by simp
  qed
  moreover have "m = NewResult (hash x) x" using acc(2) unfolding px(2) right(2) by simp
  ultimately show ?thesis by blast
qed

text \<open>
  The client gets the best nonce. Let the scheduler answer a client whose request was
  split into \<open>k\<close> pieces of length \<open>step\<close> with \<open>k * step\<close> at least the requested bound. If
  every accepted result is right for its piece, that is, a nonce of the piece with the
  smallest hash in the piece, which is not 0, then the answer is a nonce up to the bound
  with the smallest hash of all numbers from 0 to the bound, whatever miners joined, were
  lost and finished in whatever order.
\<close>

theorem client_reply_minimal:
  assumes "reach bs_init (bs_step flog10 fceil) (s, g)"
    and "schedule flog10 fceil EvResult s = Some (Next t ws)" and "(c, m) \<in> set ws"
    and "gm_get (goal g) c = Some (pieces_of fceil k r)"
    and "0 < k" and "unat (r_upper r) \<le> k * unat (fceil (unat (r_upper r)) k)"
    and "k * unat (fceil (unat (r_upper r)) k) < 2 ^ 64"
    and "\<And>p h x. (p, h, x) \<in> set (log_of (ghost_step flog10 fceil EvResult s g) c) \<Longrightarrow>
      r_lower p \<le> x \<and> x \<le> r_upper p \<and> h = hash x \<and> h \<noteq> 0 \<and>
      (\<forall>y. r_lower p \<le> y \<and> y \<le> r_upper p \<longrightarrow> h \<le> hash y)"
  shows "\<exists>x. m = NewResult (hash x) x \<and> x \<le> r_upper r \<and> (\<forall>y. y \<le> r_upper r \<longrightarrow> hash x \<le> hash y)"
  using assms by (rule client_reply_best)

text \<open>
  An idle miner too many gets a reversed range. When more free miners wait than the
  request has numbers, so that the pieces have length 1, some piece has its lower bound
  above its upper bound.
\<close>

theorem too_many_miners_reverse_range:
  assumes "r_upper r \<le> 10000" and "unat (r_upper r) + 1 < length (freeMiners s)"
    and "length (freeMiners s) < 2 ^ 64"
    and "fceil (unat (r_upper r)) (length (freeMiners s)) = 1"
  shows "\<exists>p \<in> set (pieces_of fceil (stride_of flog10 r s) r). r_upper p < r_lower p"
proof -
  let ?k = "length (freeMiners s)"
  define i where "i = unat (r_upper r) + 1"
  have "stride_of flog10 r s = ?k" using assms(1,2) by (auto simp: stride_of_def Let_def)
  moreover have "i < ?k" using assms(2) by (simp add: i_def)
  moreover have "unat (of_nat i :: uint64) = i"
    using \<open>i < ?k\<close> assms(3) by (simp add: unat_of_nat take_bit_nat_eq_self)
  then have "r_upper r < of_nat i" by (simp add: word_less_nat_alt) (simp add: i_def)
  then have "Go_min (r_upper r) x < of_nat i" for x
    by (auto simp: Go_min_def intro: le_less_trans)
  ultimately show ?thesis
    using assms(4) by (intro bexI [of _ "pieces_of fceil ?k r ! i"]) (auto simp: pieces_of_def Let_def)
qed

text \<open>Running a list of events until one does not end normally.\<close>

fun bs_run :: "(nat \<Rightarrow> nat) \<Rightarrow> (nat \<Rightarrow> nat \<Rightarrow> uint64) \<Rightarrow> bs_event list \<Rightarrow> bserver \<Rightarrow> outcome option" where
  "bs_run flog10 fceil [] s = Some (Next s [])"
| "bs_run flog10 fceil (e # es) s = (case schedule flog10 fceil e s of
     Some (Next t ws) \<Rightarrow> bs_run flog10 fceil es t | x \<Rightarrow> x)"

text \<open>
  C39: a client that sends two requests crashes the server. With one miner and two requests
  of the same client up to 10000, the second replaces the task of the first; the first
  result completes and deletes it, and the next trigger dereferences a nil pointer.
\<close>

theorem second_request_crashes:
  assumes "u \<le> 10000" and "v \<le> 10000"
  shows "bs_run flog10 fceil
    [EvReceive (Got 1 NewJoin), EvJoin,
     EvReceive (Got 2 (NewRequest d 0 u)), EvRequest, EvReceive (Got 2 (NewRequest d 0 v)), EvRequest,
     EvTrigger (\<lambda>_. False), EvReceive (Got 1 (NewResult h n)), EvResult, EvTrigger (\<lambda>_. False)]
    startServer = Some NilDeref"
proof -
  have "\<not> 10000 < u" "\<not> 10000 < v" using assms by auto
  then show ?thesis
    by (simp add: startServer_def schedule_def receive_def chan_cap_def NewJoin_def NewRequest_def
        NewResult_def on_join_def pull_trigger_def on_request_def stride_of_def pieces_of_def
        on_trigger_def on_result_def Let_def)
qed

section \<open>Witnesses\<close>

theorem second_request_crashes_witness:
  "bs_run (\<lambda>_. 4) (\<lambda>n k. of_nat n)
    [EvReceive (Got 1 NewJoin), EvJoin,
     EvReceive (Got 2 (NewRequest ''m'' 0 9)), EvRequest, EvReceive (Got 2 (NewRequest ''m'' 0 9)), EvRequest,
     EvTrigger (\<lambda>_. False), EvReceive (Got 1 (NewResult 3 4)), EvResult, EvTrigger (\<lambda>_. False)]
    startServer = Some NilDeref"
  by (rule second_request_crashes) simp_all

theorem too_many_miners_reverse_range_witness:
  "\<exists>p \<in> set (pieces_of (\<lambda>n k. 1) (stride_of (\<lambda>_. 4)
      \<lparr>r_id = 2, r_lower = 0, r_upper = 1, r_data = ''m''\<rparr> (startServer\<lparr>freeMiners := [3, 4, 5]\<rparr>))
      \<lparr>r_id = 2, r_lower = 0, r_upper = 1, r_data = ''m''\<rparr>). r_upper p < r_lower p"
  by (rule too_many_miners_reverse_range) simp_all

text \<open>A run with one miner and one client up to the answer.\<close>

definition bs_exec :: "bs_event \<Rightarrow> bserver \<times> ghost \<Rightarrow> ((bserver \<times> ghost) \<times> (int \<times> BMessage) list) option" where
  "bs_exec e x = (if well_behaved (\<lambda>_. 4) e (fst x) (snd x) then
     (case schedule (\<lambda>_. 4) (\<lambda>n k. of_nat n) e (fst x) of
        Some (Next t ws) \<Rightarrow> Some ((t, ghost_step (\<lambda>_. 4) (\<lambda>n k. of_nat n) e (fst x) (snd x)), ws)
      | _ \<Rightarrow> None) else None)"

lemma bs_exec_steps:
  assumes "run_opt bs_exec es x = Some y"
  shows "steps (bs_step (\<lambda>_. 4) (\<lambda>n k. of_nat n)) x es y"
  using run_opt_steps [OF assms]
proof (induction rule: steps.induct)
  case (steps_Cons s e t es u)
  then have "bs_step (\<lambda>_. 4) (\<lambda>n k. of_nat n) s e t"
    by (auto simp: bs_exec_def bs_step_def split: if_splits option.splits outcome.splits)
  with steps_Cons show ?case by (blast intro: steps.steps_Cons)
qed (rule steps_Nil)

definition demo_piece :: request where
  "demo_piece = \<lparr>r_id = 2, r_lower = 0, r_upper = 5, r_data = ''m''\<rparr>"

definition demo_state :: "bserver \<times> ghost" where
  "demo_state =
    (\<lparr>joins = [], requests = [], results = [\<lparr>res_id = 1, res_nonce = 0, res_hash = 1\<rparr>], errors = [],
      freeMiners = [], miners = [(1, \<lparr>clientID = 2, m_data = ''m'', m_upper = 5, m_lower = 0\<rparr>)],
      pendingRequests = [], tasks = [(2, \<lparr>lost = False, minHash = 0, minNonce = 0, t_miners = 1\<rparr>)], trigger = 1\<rparr>,
     \<lparr>goal = [(2, [demo_piece])], log = []\<rparr>)"

lemma demo_state_reach: "reach bs_init (bs_step (\<lambda>_. 4) (\<lambda>n k. of_nat n)) demo_state"
proof -
  have "run_opt bs_exec [EvReceive (Got 1 NewJoin), EvJoin, EvReceive (Got 2 (NewRequest ''m'' 0 5)), EvRequest,
      EvTrigger (\<lambda>_. False), EvReceive (Got 1 (NewResult 1 0))]
      (startServer, \<lparr>goal = [], log = []\<rparr>) = Some demo_state"
    by (simp add: bs_exec_def well_behaved_def ghost_step_def demo_state_def demo_piece_def startServer_def
        schedule_def receive_def chan_cap_def NewJoin_def NewRequest_def NewResult_def on_join_def
        pull_trigger_def on_request_def stride_of_def pieces_of_def on_trigger_def Go_min_def Let_def)
  from reach_steps [OF bs_exec_steps [OF this] reach_init] show ?thesis by (simp add: bs_init_def)
qed

lemma demo_answer:
  "\<exists>t. schedule (\<lambda>_. 4) (\<lambda>n k. of_nat n) EvResult (fst demo_state) = Some (Next t [(2, NewResult 1 0)])"
  "log_of (ghost_step (\<lambda>_. 4) (\<lambda>n k. of_nat n) EvResult (fst demo_state) (snd demo_state)) 2 = [(demo_piece, 1, 0)]"
  "gm_get (goal (snd demo_state)) 2 = Some (pieces_of (\<lambda>n k. of_nat n) 1 demo_piece)"
  by (simp_all add: demo_state_def demo_piece_def schedule_def on_result_def pick_def pull_trigger_def
      chan_cap_def ghost_step_def log_of_def piece_of_def pieces_of_def Go_min_def Let_def)

theorem scheduler_accounts_witness:
  "\<forall>e. schedule (\<lambda>_. 4) (\<lambda>n k. of_nat n) e (fst demo_state) \<noteq> Some NilDeref"
  using scheduler_accounts [of "\<lambda>_. 4" "\<lambda>n k. of_nat n" "fst demo_state" "snd demo_state"] demo_state_reach
  by simp

theorem client_reply_minimal_witness:
  "\<exists>x. NewResult 1 0 = NewResult (x + 1) x \<and> x \<le> 5 \<and> (\<forall>y. y \<le> 5 \<longrightarrow> x + 1 \<le> y + (1 :: uint64))"
proof -
  obtain t where t: "schedule (\<lambda>_. 4) (\<lambda>n k. of_nat n) EvResult (fst demo_state) = Some (Next t [(2, NewResult 1 0)])"
    using demo_answer(1) by blast
  have small: "1 \<le> y + (1 :: uint64)" if "y \<le> 5" for y
  proof -
    have "unat y \<le> 5" using that by (simp add: word_le_nat_alt)
    then have "unat (y + 1) = unat y + 1" by (simp add: unat_word_ariths)
    then show ?thesis by (simp add: word_le_nat_alt)
  qed
  have "\<exists>x. NewResult 1 0 = NewResult (x + 1) x \<and> x \<le> r_upper demo_piece \<and>
      (\<forall>y. y \<le> r_upper demo_piece \<longrightarrow> x + 1 \<le> y + 1)"
  proof (rule client_reply_minimal [where g = "snd demo_state" and c = 2 and k = 1 and r = demo_piece
        and hash = "\<lambda>x. x + 1", OF _ t _ demo_answer(3)])
    show "reach bs_init (bs_step (\<lambda>_. 4) (\<lambda>n k. of_nat n)) (fst demo_state, snd demo_state)"
      using demo_state_reach by simp
    show "r_lower p \<le> x \<and> x \<le> r_upper p \<and> h = x + 1 \<and> h \<noteq> 0 \<and>
        (\<forall>y. r_lower p \<le> y \<and> y \<le> r_upper p \<longrightarrow> h \<le> y + 1)"
      if "(p, h, x) \<in> set (log_of (ghost_step (\<lambda>_. 4) (\<lambda>n k. of_nat n) EvResult (fst demo_state) (snd demo_state)) 2)"
      for p h x
      using that small by (simp add: demo_answer(2) demo_piece_def)
  qed (simp_all add: demo_piece_def)
  then show ?thesis by (simp add: demo_piece_def)
qed

end
