(* ===== verification/Bitcoin_Wire.thy ===== *)
theory Bitcoin_Wire
  imports Bitcoin_Server Json_Roundtrip
begin

text \<open>
  The messages of the mining system on the wire, the programs at its ends and the point where
  they meet: \<open>json.Marshal\<close> and \<open>json.Unmarshal\<close> of \<open>bitcoin.Message\<close>, the client
  (\<open>bitcoin/client/client.go\<close>) and \<open>receive\<close> of the server on the bytes it reads.
\<close>

section \<open>Messages as JSON\<close>

definition btype_code :: "BMsgType \<Rightarrow> int" where
  "btype_code t = (case t of Join \<Rightarrow> 0 | Request \<Rightarrow> 1 | Result \<Rightarrow> 2 | BOther i \<Rightarrow> i)"

definition code_btype :: "int \<Rightarrow> BMsgType" where
  "code_btype i = (if i = 0 then Join else if i = 1 then Request else if i = 2 then Result else BOther i)"

definition bmessage_zero :: BMessage where
  "bmessage_zero = \<lparr>BType = Join, Data = [], Lower = 0, Upper = 0, BHash = 0, Nonce = 0\<rparr>"

definition bfield_names :: "string list" where
  "bfield_names = [''Type'', ''Data'', ''Lower'', ''Upper'', ''Hash'', ''Nonce'']"

definition store_word :: "json \<Rightarrow> uint64 \<Rightarrow> uint64 \<times> bool" where
  "store_word j old = (let (i, e) = store_uint64 j (uint old) in (word_of_int i, e))"

definition put_bmessage :: "string \<Rightarrow> json \<Rightarrow> BMessage \<Rightarrow> BMessage \<times> bool" where
  "put_bmessage f j m =
     (if f = ''Type'' then (let (i, e) = store_int64 j (btype_code (BType m)) in (m\<lparr>BType := code_btype i\<rparr>, e))
      else if f = ''Data'' then (let (s, e) = store_string j (Data m) in (m\<lparr>Data := s\<rparr>, e))
      else if f = ''Lower'' then (let (w, e) = store_word j (Lower m) in (m\<lparr>Lower := w\<rparr>, e))
      else if f = ''Upper'' then (let (w, e) = store_word j (Upper m) in (m\<lparr>Upper := w\<rparr>, e))
      else if f = ''Hash'' then (let (w, e) = store_word j (BHash m) in (m\<lparr>BHash := w\<rparr>, e))
      else if f = ''Nonce'' then (let (w, e) = store_word j (Nonce m) in (m\<lparr>Nonce := w\<rparr>, e))
      else (m, False))"

definition unmarshal_bmessage :: "bytes \<Rightarrow> BMessage \<times> bool" where
  "unmarshal_bmessage b = unmarshal bfield_names put_bmessage b bmessage_zero"

definition marshal_bmessage :: "BMessage \<Rightarrow> bytes" where
  "marshal_bmessage m = marshal_object [(''Type'', Itoa (btype_code (BType m))), (''Data'', quote_string (Data m)),
     (''Lower'', Utoa (Lower m)), (''Upper'', Utoa (Upper m)), (''Hash'', Utoa (BHash m)), (''Nonce'', Utoa (Nonce m))]"

section \<open>The programs\<close>

text \<open>\<open>strconv.ParseUint(s, 10, 64)\<close>.\<close>

definition ParseUint :: "string \<Rightarrow> uint64 option" where
  "ParseUint s = (case atou s of None \<Rightarrow> None | Some n \<Rightarrow> if n < 2 ^ 64 then Some (of_nat n) else None)"

text \<open>
  \<open>main\<close> of the client up to its request (\<open>os.Args\<close> is never empty): it ends with a line of output, or connects to the
  host and writes the bytes of a request.
\<close>

datatype client_start = Exits string | Requests string bytes

definition client_main_start :: "string list \<Rightarrow> client_start" where
  "client_main_start args =
    (if length args \<noteq> 4 then Exits (''Usage: ./'' @ args ! 0 @ '' <hostport> <message> <maxNonce>'')
     else (case ParseUint (args ! 3) of
         None \<Rightarrow> Exits (args ! 3 @ '' is not a number.'' @ [CHR 0x0A])
       | Some maxNonce \<Rightarrow> Requests (args ! 1) (marshal_bmessage (NewRequest (args ! 2) 0 maxNonce))))"

definition printResult :: "uint64 \<Rightarrow> uint64 \<Rightarrow> string" where
  "printResult hash nonce = ''Result '' @ Utoa hash @ '' '' @ Utoa nonce @ [CHR 0x0A]"

definition printDisconnected :: string where
  "printDisconnected = ''Disconnected'' @ [CHR 0x0A]"

text \<open>The rest of it: what it waits for, and what it prints. A message that does not decode is not noticed.\<close>

datatype client_wait = Reply bytes | Timeout | ReadError

definition client_main_finish :: "client_wait \<Rightarrow> string" where
  "client_main_finish e = (case e of
       Reply b \<Rightarrow> (let m = fst (unmarshal_bmessage b) in printResult (BHash m) (Nonce m))
     | Timeout \<Rightarrow> printDisconnected
     | ReadError \<Rightarrow> printDisconnected)"

text \<open>\<open>receive\<close> of the server ignores the error of \<open>json.Unmarshal\<close>.\<close>

definition receive_bytes :: "int \<Rightarrow> bytes \<Rightarrow> bserver \<Rightarrow> bserver option" where
  "receive_bytes i b s = receive (Got i (fst (unmarshal_bmessage b))) s"

section \<open>Round trip\<close>

definition bmessage_ok :: "BMessage \<Rightarrow> bool" where
  "bmessage_ok m \<longleftrightarrow> code_btype (btype_code (BType m)) = BType m \<and>
     - (2 ^ 63) \<le> btype_code (BType m) \<and> btype_code (BType m) \<le> 2 ^ 63 - 1 \<and> valid_utf8 (Data m)"

definition bmembers :: "BMessage \<Rightarrow> (string \<times> json) list" where
  "bmembers m = [(''Type'', JNumber (Itoa (btype_code (BType m)))), (''Data'', JString (json_text (Data m))),
     (''Lower'', JNumber (Utoa (Lower m))), (''Upper'', JNumber (Utoa (Upper m))),
     (''Hash'', JNumber (Utoa (BHash m))), (''Nonce'', JNumber (Utoa (Nonce m)))]"

lemma Utoa_Itoa: "Utoa w = Itoa (uint w)"
  by (simp add: Utoa_def Itoa_def)

lemma store_word_Utoa: "store_word (JNumber (Utoa w)) old = (w, False)"
proof -
  have "uint w \<le> 2 ^ 64 - 1" using uint_lt2p [of w] by simp
  then have "store_uint64 (JNumber (Itoa (uint w))) (uint old) = (uint w, False)" by (intro store_int_Itoa) simp_all
  then show ?thesis by (simp add: store_word_def Utoa_Itoa)
qed

lemma plain_bnames: "list_all (list_all plain_char) bfield_names"
  by (simp add: bfield_names_def plain_char_def byte_def)

lemma put_all_bmessage:
  assumes "bmessage_ok m"
  shows "put_all put_bmessage (bmembers m) bmessage_zero = (m, False)"
  using assms by (cases m)
    (simp add: bmembers_def put_bmessage_def bmessage_zero_def bmessage_ok_def store_int_Itoa store_string_quote store_word_Utoa)

lemma unmarshal_marshal_bmessage:
  assumes "bmessage_ok m"
  shows "unmarshal_bmessage (marshal_bmessage m) = (m, False)"
proof -
  have "unmarshal_bmessage (marshal_bmessage m) = put_all put_bmessage (bmembers m) bmessage_zero"
    unfolding unmarshal_bmessage_def marshal_bmessage_def
    by (rule unmarshal_object)
      (use plain_bnames in \<open>simp_all add: bmembers_def writes_member_def writes_Itoa writes_string Utoa_Itoa bfield_names_def\<close>)
  then show ?thesis using put_all_bmessage [OF assms] by simp
qed

text \<open>
  Messages of the mining system survive marshalling. Unmarshalling the JSON text of a
  message whose data is valid UTF-8 yields the message without an error; numbers are exact over
  the whole range of \<open>uint64\<close>.
\<close>

theorem bitcoin_message_roundtrip:
  assumes "bmessage_ok m"
  shows "unmarshal_bmessage (marshal_bmessage m) = (m, False)"
  by (rule unmarshal_marshal_bmessage [OF assms])

theorem bitcoin_message_roundtrip_witness:
  "unmarshal_bmessage (marshal_bmessage (NewResult (- 1) 7)) = (NewResult (- 1) 7, False) \<and>
   Upper (NewRequest ''a<b'' 0 (- 1)) = - 1"
proof -
  have "bmessage_ok (NewResult (- 1) 7)"
    by (simp add: bmessage_ok_def NewResult_def btype_code_def code_btype_def valid_utf8_def)
  from bitcoin_message_roundtrip [OF this] show ?thesis by (simp add: NewRequest_def)
qed

lemma request_ok: "valid_utf8 d \<Longrightarrow> bmessage_ok (NewRequest d l u)"
  by (simp add: bmessage_ok_def NewRequest_def btype_code_def code_btype_def)

lemma result_ok: "bmessage_ok (NewResult h n)"
  by (simp add: bmessage_ok_def NewResult_def btype_code_def code_btype_def valid_utf8_def)

text \<open>
  C37: the client and the server understand each other. For a valid message text and a number
  below \<open>2 ^ 64\<close> the client connects to the given host and writes bytes from which \<open>receive\<close>
  queues exactly the request for that text from 0 to that number, and for the bytes of an
  answer the client prints the hash and the nonce of it.
\<close>

theorem client_request_reaches_scheduler:
  assumes "atou num = Some k" and "k < 2 ^ 64" and "valid_utf8 msg" and "length (requests s) < chan_cap"
  shows "\<exists>b. client_main_start [prog, host, msg, num] = Requests host b \<and>
    receive_bytes i b s =
      Some (s\<lparr>requests := requests s @ [\<lparr>r_id = i, r_lower = 0, r_upper = of_nat k, r_data = msg\<rparr>]\<rparr>) \<and>
    client_main_finish (Reply (marshal_bmessage (NewResult h n))) = printResult h n"
proof -
  let ?m = "NewRequest msg 0 (of_nat k)"
  have "client_main_start [prog, host, msg, num] = Requests host (marshal_bmessage ?m)"
    using assms(1,2) by (simp add: client_main_start_def ParseUint_def)
  moreover have "receive_bytes i (marshal_bmessage ?m) s =
      Some (s\<lparr>requests := requests s @ [\<lparr>r_id = i, r_lower = 0, r_upper = of_nat k, r_data = msg\<rparr>]\<rparr>)"
    unfolding receive_bytes_def unmarshal_marshal_bmessage [OF request_ok [OF assms(3)]] fst_conv
    using assms(4) by (simp add: receive_def NewRequest_def)
  moreover have "client_main_finish (Reply (marshal_bmessage (NewResult h n))) = printResult h n"
    by (simp add: client_main_finish_def unmarshal_marshal_bmessage [OF result_ok]) (simp add: NewResult_def)
  ultimately show ?thesis by blast
qed

theorem client_request_reaches_scheduler_witness:
  "\<exists>b. client_main_start [''client'', ''localhost:6060'', ''msg'', ''9999''] = Requests ''localhost:6060'' b \<and>
     receive_bytes 1 b startServer =
       Some (startServer\<lparr>requests := [\<lparr>r_id = 1, r_lower = 0, r_upper = 9999, r_data = ''msg''\<rparr>]\<rparr>)"
proof -
  have "atou ''9999'' = Some 9999" by (simp add: atou_def is_digit_def digit_val_def)
  moreover have "valid_utf8 ''msg''" by (intro valid_utf8_ascii) (simp add: byte_def)
  moreover have "requests startServer = []" by (simp add: startServer_def)
  ultimately show ?thesis
    using client_request_reaches_scheduler [of "''9999''" 9999 "''msg''" startServer "''client''" "''localhost:6060''" 1 0 0]
    by (auto simp: chan_cap_def)
qed

text \<open>
  Anything is a join. Bytes that are not a JSON value, or are one that is not an object,
  leave the message zero, whose type is \<open>Join\<close>; the error is ignored, so \<open>receive\<close> registers
  the sender as a miner.
\<close>

theorem garbage_is_join:
  assumes "case json_parse b of None \<Rightarrow> True | Some (JObject ms) \<Rightarrow> False | _ \<Rightarrow> True"
    and "length (joins s) < chan_cap"
  shows "receive_bytes i b s = Some (s\<lparr>joins := joins s @ [i]\<rparr>)"
proof -
  have "fst (unmarshal_bmessage b) = bmessage_zero"
    using assms(1) by (auto simp: unmarshal_bmessage_def unmarshal_def store_object_def split: option.splits json.splits)
  then show ?thesis using assms(2) by (simp add: receive_bytes_def receive_def bmessage_zero_def)
qed

theorem garbage_is_join_witness:
  "receive_bytes 5 ''hello'' startServer = Some (startServer\<lparr>joins := [5]\<rparr>)"
proof -
  have "json_parse ''hello'' = None"
    by (simp add: json_parse_def skip_ws_def is_ws_def jnumber_def number_abs_def number_int_def digits1_def
        is_digit_def eval_nat_numeral)
  then show ?thesis
    using garbage_is_join [of "''hello''" startServer 5] by (simp add: startServer_def chan_cap_def)
qed

end
