(* ===== verification/Kv_Server.thy ===== *)
theory Kv_Server
  imports Dsys_Prelude
begin

text \<open>
  The key-value server of the first project (\<open>p1/server.go\<close>, \<open>p1/kv.go\<close>, \<open>p1/client.go\<close>,
  \<open>p1/request.go\<close>) and the concurrent list it keeps its clients in (\<open>clist/clist.go\<close>).
\<close>

section \<open>The concurrent list\<close>

text \<open>
  Every method but \<open>Iter\<close> runs with the mutex held, so it is one step on the list. \<open>Iter\<close>
  holds the mutex until its consumer has taken all elements, so its consumer sees the list
  as it is at one moment.
\<close>

type_synonym 'a ConcurrentList = "'a list"

definition clist_New :: "'a ConcurrentList" where
  "clist_New = []"

definition PushBack :: "'a ConcurrentList \<Rightarrow> 'a \<Rightarrow> 'a ConcurrentList" where
  "PushBack cl v = cl @ [v]"

definition Len :: "'a ConcurrentList \<Rightarrow> nat" where
  "Len cl = length cl"

fun clist_Remove :: "'a ConcurrentList \<Rightarrow> 'a \<Rightarrow> 'a ConcurrentList \<times> 'a option" where
  "clist_Remove [] v = ([], None)"
| "clist_Remove (e # cl) v = (if e = v then (cl, Some e)
     else let (cl', r) = clist_Remove cl v in (e # cl', r))"

definition Iter :: "'a ConcurrentList \<Rightarrow> 'a list" where
  "Iter cl = cl"

section \<open>The store\<close>

type_synonym kvstore = "(string, bytes) gomap"

definition createDB :: kvstore where
  "createDB = []"

definition kv_set :: "string \<Rightarrow> bytes \<Rightarrow> kvstore \<Rightarrow> kvstore" where
  "kv_set key value st = gm_set key value st"

text \<open>A missing key yields the nil slice, which prints as the empty one.\<close>

definition kv_get :: "string \<Rightarrow> kvstore \<Rightarrow> bytes" where
  "kv_get key st = (case gm_get st key of None \<Rightarrow> [] | Some v \<Rightarrow> v)"

section \<open>State\<close>

record kv_request =
  command :: string
  key :: string
  val :: bytes

text \<open>
  A client: its connection as a number, the bytes that have arrived and are not yet read,
  the two channels, and what has been written to the connection.
\<close>

record kv_client =
  conn :: nat
  inbuf :: bytes
  req :: "kv_request list"
  res :: "kv_request list"
  written :: bytes

text \<open>
  The control points of \<open>dispatch\<close>: the top of its loop, the first iteration over the
  clients that remain with the responses so far, the scheduling point between the
  iterations, and the second one. During an iteration \<open>Iter\<close> holds the mutex of the list.
\<close>

datatype dispatch_pc = DTop | DCollect "nat list" "kv_request list"
  | DYield "kv_request list" | DSend "nat list" "kv_request list"

fun iterating :: "dispatch_pc \<Rightarrow> bool" where
  "iterating (DCollect cs rs) = True"
| "iterating (DSend cs rs) = True"
| "iterating _ = False"

text \<open>The server with its listener (open or not), and the objects its goroutines share.\<close>

record keyValueServer =
  ln :: bool
  kv_clients :: "nat ConcurrentList"
  info :: "(nat, kv_client) gomap"
  store :: kvstore
  disp :: dispatch_pc

definition kv_cap :: nat where
  "kv_cap = 500"

definition kv_New :: keyValueServer where
  "kv_New = \<lparr>ln = False, kv_clients = clist_New, info = [], store = createDB, disp = DTop\<rparr>"

text \<open>\<open>Start\<close> fails when the port cannot be listened on, and changes nothing then.\<close>

definition Start :: "bool \<Rightarrow> keyValueServer \<Rightarrow> keyValueServer option" where
  "Start listens s = (if listens then Some (s\<lparr>ln := True, store := createDB, disp := DTop\<rparr>) else None)"

definition kv_Close :: "keyValueServer \<Rightarrow> keyValueServer" where
  "kv_Close s = s\<lparr>ln := False\<rparr>"

definition Count :: "keyValueServer \<Rightarrow> nat" where
  "Count s = Len (kv_clients s)"

section \<open>listen, sender and receiver\<close>

definition kv_listen :: "nat \<Rightarrow> keyValueServer \<Rightarrow> keyValueServer" where
  "kv_listen c s = s\<lparr>kv_clients := PushBack (kv_clients s) c,
     info := gm_set c \<lparr>conn = c, inbuf = [], req = [], res = [], written = []\<rparr> (info s)\<rparr>"

definition response :: "kv_request \<Rightarrow> bytes" where
  "response r = key r @ '','' @ val r @ [CHR 0x0A]"

definition kv_sender :: "kv_client \<Rightarrow> kv_client option" where
  "kv_sender c = (case res c of [] \<Rightarrow> None
     | r # rs \<Rightarrow> Some (c\<lparr>res := rs, written := written c @ response r\<rparr>))"

text \<open>\<open>reader.ReadBytes(d)\<close>: the bytes before the delimiter and the rest, if it occurs.\<close>

definition ReadBytes :: "char \<Rightarrow> bytes \<Rightarrow> (bytes \<times> bytes) option" where
  "ReadBytes d s = (case dropWhile (\<lambda>c. c \<noteq> d) s of
     [] \<Rightarrow> None | _ # rest \<Rightarrow> Some (takeWhile (\<lambda>c. c \<noteq> d) s, rest))"

text \<open>
  One iteration of \<open>receiver\<close> on the bytes of the connection: the request it queues, if
  any, and the bytes it leaves, or \<open>None\<close> when it has to wait or meets the end.
\<close>

definition kv_parse :: "bytes \<Rightarrow> (kv_request option \<times> bytes) option" where
  "kv_parse s = (case ReadBytes CHR '','' s of
       None \<Rightarrow> None
     | Some (cmd, s1) \<Rightarrow>
         if cmd = ''get'' then
           (case ReadBytes CHR 0x0A s1 of
              None \<Rightarrow> None
            | Some (k, s2) \<Rightarrow> Some (Some \<lparr>command = ''get'', key = k, val = []\<rparr>, s2))
         else if cmd = ''set'' then
           (case ReadBytes CHR '','' s1 of
              None \<Rightarrow> None
            | Some (k, s2) \<Rightarrow> (case ReadBytes CHR 0x0A s2 of
                 None \<Rightarrow> None
               | Some (v, s3) \<Rightarrow> Some (Some \<lparr>command = ''set'', key = k, val = v\<rparr>, s3)))
         else Some (None, s1))"

definition kv_receiver :: "kv_client \<Rightarrow> kv_client option" where
  "kv_receiver c = (case kv_parse (inbuf c) of
       None \<Rightarrow> None
     | Some (None, rest) \<Rightarrow> Some (c\<lparr>inbuf := rest\<rparr>)
     | Some (Some r, rest) \<Rightarrow>
         if length (req c) < kv_cap then Some (c\<lparr>inbuf := rest, req := req c @ [r]\<rparr>) else None)"

text \<open>The receiver returns when the connection ends, and its deferred call removes the client.\<close>

definition kv_receiver_exit :: "nat \<Rightarrow> keyValueServer \<Rightarrow> keyValueServer" where
  "kv_receiver_exit c s = s\<lparr>kv_clients := fst (clist_Remove (kv_clients s) c)\<rparr>"

section \<open>dispatch\<close>

text \<open>One request: a get is answered from the store, a set changes it.\<close>

definition serve :: "kv_request \<Rightarrow> kvstore \<times> kv_request list \<Rightarrow> kvstore \<times> kv_request list" where
  "serve r sr = (let sr1 = (if command r = ''get''
        then (fst sr, snd sr @ [\<lparr>command = [], key = key r, val = kv_get (key r) (fst sr)\<rparr>]) else sr)
     in if command r = ''set'' then (kv_set (key r) (val r) (fst sr1), snd sr1) else sr1)"

text \<open>The response loop for one client: a response is dropped when the channel is full.\<close>

definition offer :: "kv_request list \<Rightarrow> kv_client \<Rightarrow> kv_client" where
  "offer rs cl = foldl (\<lambda>cl r. if length (res cl) < kv_cap then cl\<lparr>res := res cl @ [r]\<rparr> else cl) cl rs"

definition offer_to :: "nat \<Rightarrow> kv_request list \<Rightarrow> (nat, kv_client) gomap \<Rightarrow> (nat, kv_client) gomap" where
  "offer_to c rs m = (case gm_get m c of None \<Rightarrow> m | Some cl \<Rightarrow> gm_set c (offer rs cl) m)"

text \<open>
  One step of \<open>dispatch\<close>: it starts an iteration, looks at one client, or ends an iteration.
\<close>

definition collect_from :: "nat \<Rightarrow> nat list \<Rightarrow> kv_request list \<Rightarrow> keyValueServer \<Rightarrow> keyValueServer" where
  "collect_from c cs rs s = (case gm_get (info s) c of
       None \<Rightarrow> s\<lparr>disp := DCollect cs rs\<rparr>
     | Some cl \<Rightarrow> (case req cl of
         [] \<Rightarrow> s\<lparr>disp := DCollect cs rs\<rparr>
       | r # q \<Rightarrow> (let (st, rs') = serve r (store s, rs) in
           s\<lparr>info := gm_set c (cl\<lparr>req := q\<rparr>) (info s), store := st, disp := DCollect cs rs'\<rparr>)))"

definition dispatch :: "keyValueServer \<Rightarrow> keyValueServer" where
  "dispatch s = (case disp s of
       DTop \<Rightarrow> s\<lparr>disp := DCollect (Iter (kv_clients s)) []\<rparr>
     | DCollect [] rs \<Rightarrow> s\<lparr>disp := (if rs = [] then DTop else DYield rs)\<rparr>
     | DCollect (c # cs) rs \<Rightarrow> collect_from c cs rs s
     | DYield rs \<Rightarrow> s\<lparr>disp := DSend (Iter (kv_clients s)) rs\<rparr>
     | DSend [] rs \<Rightarrow> s\<lparr>disp := DTop\<rparr>
     | DSend (c # cs) rs \<Rightarrow> s\<lparr>info := offer_to c rs (info s), disp := DSend cs rs\<rparr>)"

section \<open>Parsing\<close>

definition render :: "kv_request \<Rightarrow> bytes" where
  "render r = (if command r = ''get'' then ''get,'' @ key r @ [CHR 0x0A]
     else ''set,'' @ key r @ '','' @ val r @ [CHR 0x0A])"

definition well_formed :: "kv_request \<Rightarrow> bool" where
  "well_formed r \<longleftrightarrow>
     command r = ''get'' \<and> val r = [] \<and> CHR 0x0A \<notin> set (key r) \<or>
     command r = ''set'' \<and> CHR '','' \<notin> set (key r) \<and> CHR 0x0A \<notin> set (val r)"

lemma ReadBytes_hit:
  assumes "d \<notin> set a"
  shows "ReadBytes d (a @ d # b) = Some (a, b)"
proof -
  have "\<forall>c \<in> set a. c \<noteq> d" using assms by auto
  then have "takeWhile (\<lambda>c. c \<noteq> d) (a @ d # b) = a" "dropWhile (\<lambda>c. c \<noteq> d) (a @ d # b) = d # b"
    by (simp_all add: takeWhile_tail)
  then show ?thesis by (simp add: ReadBytes_def)
qed

lemma kv_parse_render:
  assumes "well_formed r"
  shows "kv_parse (render r @ rest) = Some (Some r, rest)"
proof (cases "command r = ''get''")
  case True
  then have r: "r = \<lparr>command = ''get'', key = key r, val = []\<rparr>" and k: "CHR 0x0A \<notin> set (key r)"
    using assms by (auto simp: well_formed_def)
  have "ReadBytes CHR '','' (render r @ rest) = Some (''get'', key r @ CHR 0x0A # rest)"
    using ReadBytes_hit [of "CHR '',''" "''get''" "key r @ CHR 0x0A # rest"] True by (simp add: render_def)
  then show ?thesis using ReadBytes_hit [OF k, of rest] r by (simp add: kv_parse_def)
next
  case False
  then have c: "command r = ''set''" and k: "CHR '','' \<notin> set (key r)" and v: "CHR 0x0A \<notin> set (val r)"
    using assms by (auto simp: well_formed_def)
  have "ReadBytes CHR '','' (render r @ rest) = Some (''set'', key r @ CHR '','' # val r @ CHR 0x0A # rest)"
    using ReadBytes_hit [of "CHR '',''" "''set''" "key r @ CHR '','' # val r @ CHR 0x0A # rest"] False
    by (simp add: render_def)
  then show ?thesis
    using ReadBytes_hit [OF k, of "val r @ CHR 0x0A # rest"] ReadBytes_hit [OF v, of rest] c
    by (simp add: kv_parse_def)
qed

text \<open>
  C32: requests are parsed as they were written. When the bytes of a connection start with
  well-formed requests and the channel has room for them, the receiver queues exactly these
  requests in their order and leaves the rest of the bytes.
\<close>

theorem kv_receiver_roundtrip:
  assumes "list_all well_formed rs" and "inbuf c = concat (map render rs) @ rest"
    and "length (req c) + length rs \<le> kv_cap"
  shows "repeat_opt (length rs) kv_receiver c = Some (c\<lparr>inbuf := rest, req := req c @ rs\<rparr>)"
  using assms
proof (induction rs arbitrary: c)
  case (Cons r rs)
  have "kv_parse (inbuf c) = Some (Some r, concat (map render rs) @ rest)"
    using kv_parse_render [of r "concat (map render rs) @ rest"] Cons.prems(1,2) by simp
  then have "kv_receiver c = Some (c\<lparr>inbuf := concat (map render rs) @ rest, req := req c @ [r]\<rparr>)"
    using Cons.prems(3) by (simp add: kv_receiver_def)
  then show ?case
    using Cons.IH [of "c\<lparr>inbuf := concat (map render rs) @ rest, req := req c @ [r]\<rparr>"] Cons.prems by simp
qed (cases c, simp)

theorem kv_receiver_roundtrip_witness:
  "\<exists>c. repeat_opt 2 kv_receiver \<lparr>conn = 0, inbuf = ''set,a,1'' @ [CHR 0x0A] @ ''get,a'' @ [CHR 0x0A] @ ''ge'',
       req = [], res = [], written = []\<rparr> = Some c \<and>
     req c = [\<lparr>command = ''set'', key = ''a'', val = ''1''\<rparr>, \<lparr>command = ''get'', key = ''a'', val = []\<rparr>]"
proof -
  let ?rs = "[\<lparr>command = ''set'', key = ''a'', val = ''1''\<rparr>, \<lparr>command = ''get'', key = ''a'', val = []\<rparr>]"
  let ?c = "\<lparr>conn = 0, inbuf = ''set,a,1'' @ [CHR 0x0A] @ ''get,a'' @ [CHR 0x0A] @ ''ge'',
    req = [], res = [], written = []\<rparr>"
  have "repeat_opt (length ?rs) kv_receiver ?c = Some (?c\<lparr>inbuf := ''ge'', req := req ?c @ ?rs\<rparr>)"
    by (rule kv_receiver_roundtrip) (simp_all add: well_formed_def render_def kv_cap_def)
  then show ?thesis by (simp add: numeral_2_eq_2)
qed

section \<open>The sequential specification\<close>

text \<open>A store is a function of the history of requests: the value of the last set.\<close>

definition last_set :: "kv_request list \<Rightarrow> string \<Rightarrow> bytes" where
  "last_set h k = foldl (\<lambda>v r. if command r = ''set'' \<and> key r = k then val r else v) [] h"

fun answers :: "kv_request list \<Rightarrow> kv_request list \<Rightarrow> kv_request list" where
  "answers h [] = []"
| "answers h (r # rs) = (if command r = ''get'' then [\<lparr>command = [], key = key r, val = last_set h (key r)\<rparr>] else [])
     @ answers (h @ [r]) rs"

lemma answers_append: "answers h (xs @ ys) = answers h xs @ answers (h @ xs) ys"
  by (induction xs arbitrary: h) auto

lemma serve_answer:
  assumes "\<And>k. kv_get k (fst sr) = last_set h k"
  shows "snd (serve r sr) = snd sr @ answers h [r]" and "kv_get k (fst (serve r sr)) = last_set (h @ [r]) k"
  using assms by (auto simp: serve_def last_set_def kv_get_def kv_set_def)

lemma serve_all:
  assumes "\<And>k. kv_get k (fst sr) = last_set h k"
  shows "snd (foldl (\<lambda>sr r. serve r sr) sr rs) = snd sr @ answers h rs \<and>
    (\<forall>k. kv_get k (fst (foldl (\<lambda>sr r. serve r sr) sr rs)) = last_set (h @ rs) k)"
  using assms
proof (induction rs arbitrary: sr h)
  case (Cons r rs)
  have "\<And>k. kv_get k (fst (serve r sr)) = last_set (h @ [r]) k" using serve_answer(2) [OF Cons.prems] .
  from Cons.IH [OF this] show ?case using serve_answer(1) [OF Cons.prems] by simp
qed simp

section \<open>Runs of the server\<close>

text \<open>
  The goroutines interleave: accepting a connection, bytes arriving, an iteration of a
  receiver or sender, the end of a connection, a step of \<open>dispatch\<close>, and \<open>Close\<close>. A
  receiver runs as long as its client is in the list, and returns when no delimiter is left
  in the bytes of the connection. The list changes only while no iteration holds its mutex.
  History variables: the requests queued by the receivers, the requests served and the
  responses, all in order.
\<close>

record kv_world =
  srv :: keyValueServer
  queued :: "(nat \<times> kv_request) list"
  served :: "(nat \<times> kv_request) list"
  responses :: "kv_request list"

datatype kv_event = KAccept nat | KBytes nat bytes | KReceiver nat | KSender nat | KExit nat | KDispatch | KClose

definition kv_client_step :: "nat \<Rightarrow> (kv_client \<Rightarrow> kv_client option) \<Rightarrow> kv_world \<Rightarrow> kv_world option" where
  "kv_client_step c f w = (case gm_get (info (srv w)) c of None \<Rightarrow> None
     | Some cl \<Rightarrow> (case f cl of None \<Rightarrow> None
         | Some cl' \<Rightarrow> Some (w\<lparr>srv := (srv w)\<lparr>info := gm_set c cl' (info (srv w))\<rparr>,
             queued := queued w @ map (Pair c) (drop (length (req cl)) (req cl'))\<rparr>)))"

text \<open>What the next step of \<open>dispatch\<close> takes from a queue.\<close>

definition taken :: "keyValueServer \<Rightarrow> (nat \<times> kv_request) list" where
  "taken s = (case disp s of DCollect (c # cs) rs \<Rightarrow>
       (case gm_get (info s) c of None \<Rightarrow> [] | Some cl \<Rightarrow> map (Pair c) (take 1 (req cl)))
     | _ \<Rightarrow> [])"

definition collected :: "keyValueServer \<Rightarrow> kv_request list" where
  "collected s = (case disp s of DCollect cs rs \<Rightarrow> rs | _ \<Rightarrow> [])"

definition receiver_done :: "nat \<Rightarrow> keyValueServer \<Rightarrow> bool" where
  "receiver_done c s \<longleftrightarrow> c \<in> set (kv_clients s) \<and> \<not> iterating (disp s) \<and>
     (case gm_get (info s) c of None \<Rightarrow> False | Some cl \<Rightarrow> kv_parse (inbuf cl) = None)"

fun kv_exec :: "kv_event \<Rightarrow> kv_world \<Rightarrow> kv_world option" where
  "kv_exec (KAccept c) w = (if ln (srv w) \<and> gm_get (info (srv w)) c = None \<and> \<not> iterating (disp (srv w))
     then Some (w\<lparr>srv := kv_listen c (srv w)\<rparr>) else None)"
| "kv_exec (KBytes c bs) w = kv_client_step c (\<lambda>cl. Some (cl\<lparr>inbuf := inbuf cl @ bs\<rparr>)) w"
| "kv_exec (KReceiver c) w = (if c \<in> set (kv_clients (srv w)) then kv_client_step c kv_receiver w else None)"
| "kv_exec (KSender c) w = kv_client_step c kv_sender w"
| "kv_exec (KExit c) w = (if receiver_done c (srv w) then Some (w\<lparr>srv := kv_receiver_exit c (srv w)\<rparr>) else None)"
| "kv_exec KDispatch w = Some (w\<lparr>srv := dispatch (srv w), served := served w @ taken (srv w),
     responses := responses w @ drop (length (collected (srv w))) (collected (dispatch (srv w)))\<rparr>)"
| "kv_exec KClose w = Some (w\<lparr>srv := kv_Close (srv w)\<rparr>)"

definition kv_step :: "kv_world \<Rightarrow> kv_event \<Rightarrow> kv_world \<Rightarrow> bool" where
  "kv_step w e w' \<longleftrightarrow> kv_exec e w = Some w'"

definition kv_world_of :: "keyValueServer \<Rightarrow> kv_world" where
  "kv_world_of s = \<lparr>srv = s, queued = [], served = [], responses = []\<rparr>"

definition kv_init :: "kv_world \<Rightarrow> bool" where
  "kv_init w \<longleftrightarrow> (\<exists>s. Start True kv_New = Some s \<and> w = kv_world_of s)"

definition of_client :: "nat \<Rightarrow> (nat \<times> kv_request) list \<Rightarrow> kv_request list" where
  "of_client c xs = map snd (filter (\<lambda>x. fst x = c) xs)"

definition kv_waiting :: "keyValueServer \<Rightarrow> nat \<Rightarrow> kv_request list" where
  "kv_waiting s c = (case gm_get (info s) c of None \<Rightarrow> [] | Some cl \<Rightarrow> req cl)"

definition kv_inv :: "kv_world \<Rightarrow> bool" where
  "kv_inv w \<longleftrightarrow> distinct (kv_clients (srv w)) \<and>
     (\<forall>c \<in> set (kv_clients (srv w)). gm_get (info (srv w)) c \<noteq> None) \<and>
     (\<forall>k. kv_get k (store (srv w)) = last_set (map snd (served w)) k) \<and>
     responses w = answers [] (map snd (served w)) \<and>
     (\<forall>c. of_client c (queued w) = of_client c (served w) @ kv_waiting (srv w) c)"

lemma of_client_append [simp]: "of_client c (xs @ ys) = of_client c xs @ of_client c ys"
  by (simp add: of_client_def)

lemma of_client_Nil [simp]: "of_client c [] = []"
  by (simp add: of_client_def)

lemma of_client_pair [simp]: "of_client c (map (Pair d) rs) = (if c = d then rs else [])"
  by (auto simp: of_client_def comp_def)

lemma of_client_Cons: "of_client c ((d, r) # xs) = (if c = d then [r] else []) @ of_client c xs"
  by (simp add: of_client_def)

lemma clist_Remove_remove1: "fst (clist_Remove cl v) = remove1 v cl"
  by (induction cl) (auto simp: case_prod_beta Let_def)

lemma offer_take: "length (res cl) \<le> kv_cap \<Longrightarrow> offer rs cl = cl\<lparr>res := take kv_cap (res cl @ rs)\<rparr>"
proof (induction rs arbitrary: cl)
  case (Cons r rs)
  have step: "offer (r # rs) cl = offer rs (if length (res cl) < kv_cap then cl\<lparr>res := res cl @ [r]\<rparr> else cl)"
    by (simp add: offer_def)
  show ?case
  proof (cases "length (res cl) < kv_cap")
    case True
    then show ?thesis using Cons.IH [of "cl\<lparr>res := res cl @ [r]\<rparr>"] step by simp
  next
    case False
    then show ?thesis using Cons.IH [of cl] Cons.prems step by simp
  qed
qed (cases cl, simp add: offer_def)

lemma offer_req [simp]: "req (offer rs cl) = req cl"
  by (induction rs arbitrary: cl) (simp_all add: offer_def)

lemma offer_to_get: "gm_get (offer_to c rs m) d = map_option (\<lambda>cl. if d = c then offer rs cl else cl) (gm_get m d)"
  by (cases "gm_get m d") (auto simp: offer_to_def split: option.splits)

lemma offer_to_req: "map_option req (gm_get (offer_to c rs m) d) = map_option req (gm_get m d)"
  by (cases "gm_get m d") (simp_all add: offer_to_get)

text \<open>A step of one client that only extends its queue by what the history records.\<close>

lemma kv_inv_client:
  assumes "kv_inv w" and "kv_client_step c f w = Some w'"
    and "\<And>cl cl'. f cl = Some cl' \<Longrightarrow> \<exists>rs. req cl' = req cl @ rs"
  shows "kv_inv w'"
proof -
  obtain cl cl' where cl: "gm_get (info (srv w)) c = Some cl" "f cl = Some cl'"
      "w' = w\<lparr>srv := (srv w)\<lparr>info := gm_set c cl' (info (srv w))\<rparr>,
             queued := queued w @ map (Pair c) (drop (length (req cl)) (req cl'))\<rparr>"
    using assms(2) by (auto simp: kv_client_step_def split: option.splits)
  obtain rs where rs: "req cl' = req cl @ rs" using assms(3) [OF cl(2)] by blast
  have "of_client d (queued w') = of_client d (served w') @ kv_waiting (srv w') d" for d
    using assms(1) cl rs by (simp add: kv_inv_def kv_waiting_def)
  then show ?thesis using assms(1) cl(3) by (auto simp: kv_inv_def)
qed

lemma kv_receiver_req: "kv_receiver cl = Some cl' \<Longrightarrow> \<exists>rs. req cl' = req cl @ rs"
  by (auto simp: kv_receiver_def split: option.splits prod.splits if_splits)

lemma kv_sender_req: "kv_sender cl = Some cl' \<Longrightarrow> \<exists>rs. req cl' = req cl @ rs"
  by (auto simp: kv_sender_def split: list.splits)

text \<open>The invariant depends only on the list, the queues and the store.\<close>

lemma kv_inv_frame:
  assumes "kv_inv w" and "kv_clients s = kv_clients (srv w)" and "store s = store (srv w)"
    and "\<And>c. map_option req (gm_get (info s) c) = map_option req (gm_get (info (srv w)) c)"
  shows "kv_inv (w\<lparr>srv := s\<rparr>)"
proof -
  have "gm_get (info s) c = None \<longleftrightarrow> gm_get (info (srv w)) c = None" for c
    using assms(4) [of c] by (metis option.map_disc_iff)
  moreover have "kv_waiting s c = kv_waiting (srv w) c" for c
    using assms(4) [of c] by (auto simp: kv_waiting_def split: option.splits)
  ultimately show ?thesis using assms(1-3) by (simp add: kv_inv_def)
qed

lemma kv_inv_take:
  assumes inv: "kv_inv w" and pc: "disp (srv w) = DCollect (c # cs) rs"
    and cl: "gm_get (info (srv w)) c = Some cl" "req cl = r # q"
  shows "kv_inv (w\<lparr>srv := collect_from c cs rs (srv w), served := served w @ [(c, r)],
    responses := responses w @ answers (map snd (served w)) [r]\<rparr>)"
    and "collected (collect_from c cs rs (srv w)) = rs @ answers (map snd (served w)) [r]"
proof -
  let ?s = "srv w" and ?h = "map snd (served w)"
  have get: "\<And>k. kv_get k (fst (store ?s, rs)) = last_set ?h k" using inv by (simp add: kv_inv_def)
  note sv = serve_answer(1) [OF get, where r = r] serve_answer(2) [OF get, where r = r]
  have s': "collect_from c cs rs ?s = ?s\<lparr>info := gm_set c (cl\<lparr>req := q\<rparr>) (info ?s),
      store := fst (serve r (store ?s, rs)), disp := DCollect cs (snd (serve r (store ?s, rs)))\<rparr>"
    using cl by (simp add: collect_from_def case_prod_beta)
  show "collected (collect_from c cs rs ?s) = rs @ answers ?h [r]"
    unfolding s' collected_def using sv(1) by simp
  have "of_client d (queued w) = of_client d (served w @ [(c, r)]) @ kv_waiting (collect_from c cs rs ?s) d" for d
    using inv cl unfolding s' by (auto simp: kv_inv_def kv_waiting_def of_client_Cons)
  then show "kv_inv (w\<lparr>srv := collect_from c cs rs ?s, served := served w @ [(c, r)],
      responses := responses w @ answers ?h [r]\<rparr>)"
    using inv sv(2) unfolding s' by (auto simp: kv_inv_def answers_append)
qed

lemma kv_inv_quiet:
  assumes inv: "kv_inv w" and "taken (srv w) = []"
  shows "kv_inv (w\<lparr>srv := dispatch (srv w)\<rparr>)"
    and "drop (length (collected (srv w))) (collected (dispatch (srv w))) = []"
  subgoal
    by (rule kv_inv_frame [OF inv])
      (use assms(2) in \<open>auto simp: dispatch_def taken_def collect_from_def offer_to_req
        split: dispatch_pc.splits list.splits option.splits\<close>)
  subgoal using assms(2)
    by (auto simp: dispatch_def taken_def collect_from_def collected_def
        split: dispatch_pc.splits list.splits option.splits)
  done

lemma kv_inv_dispatch:
  assumes inv: "kv_inv w" and ex: "kv_exec KDispatch w = Some w'"
  shows "kv_inv w'"
proof (cases "taken (srv w) = []")
  case True
  then have "w' = w\<lparr>srv := dispatch (srv w)\<rparr>"
    using ex kv_inv_quiet(2) [OF inv True] by (cases w) auto
  then show ?thesis using kv_inv_quiet(1) [OF inv True] by simp
next
  case False
  then obtain c cs rs cl r q where pc: "disp (srv w) = DCollect (c # cs) rs"
      and cl: "gm_get (info (srv w)) c = Some cl" "req cl = r # q"
    by (auto simp: taken_def split: dispatch_pc.splits list.splits option.splits elim: list.exhaust)
      (metis list.exhaust)
  have "dispatch (srv w) = collect_from c cs rs (srv w)" "taken (srv w) = [(c, r)]" "collected (srv w) = rs"
    using pc cl by (simp_all add: dispatch_def taken_def collected_def)
  then show ?thesis using kv_inv_take [OF inv pc cl] ex by (auto simp: collected_def)
qed

lemma kv_inv_step:
  assumes inv: "kv_inv w" and step: "kv_step w e w'"
  shows "kv_inv w'"
proof (cases e)
  case (KAccept c)
  then have "w' = w\<lparr>srv := kv_listen c (srv w)\<rparr>" and new: "gm_get (info (srv w)) c = None"
    using step by (auto simp: kv_step_def split: if_splits)
  moreover have "c \<notin> set (kv_clients (srv w))" using inv new by (auto simp: kv_inv_def)
  ultimately show ?thesis using inv
    by (auto simp: kv_inv_def kv_listen_def PushBack_def kv_waiting_def)
next
  case (KBytes c bs)
  then show ?thesis using step kv_inv_client [OF inv, of c "\<lambda>cl. Some (cl\<lparr>inbuf := inbuf cl @ bs\<rparr>)" w']
    by (auto simp: kv_step_def)
next
  case (KReceiver c)
  then show ?thesis using step kv_inv_client [OF inv, of c kv_receiver w'] kv_receiver_req
    by (auto simp: kv_step_def split: if_splits)
next
  case (KSender c)
  then show ?thesis using step kv_inv_client [OF inv, of c kv_sender w'] kv_sender_req
    by (auto simp: kv_step_def)
next
  case (KExit c)
  then have "w' = w\<lparr>srv := kv_receiver_exit c (srv w)\<rparr>" using step by (auto simp: kv_step_def split: if_splits)
  then show ?thesis using inv notin_set_remove1 [of _ "kv_clients (srv w)" c]
    by (auto simp: kv_inv_def kv_receiver_exit_def clist_Remove_remove1 kv_waiting_def)
next
  case KDispatch
  then show ?thesis using step kv_inv_dispatch [OF inv] by (simp add: kv_step_def)
next
  case KClose
  then have "w' = w\<lparr>srv := kv_Close (srv w)\<rparr>" using step by (simp add: kv_step_def)
  then show ?thesis using kv_inv_frame [OF inv, of "kv_Close (srv w)"] by (simp add: kv_Close_def)
qed

interpretation kv: inductive_invariant kv_init kv_step kv_inv
proof
  show "kv_inv w" if "kv_init w" for w
    using that by (auto simp: kv_init_def Start_def kv_New_def kv_world_of_def kv_inv_def clist_New_def
        createDB_def kv_get_def last_set_def kv_waiting_def)
  show "kv_inv w'" if "kv_inv w" "kv_step w e w'" for w e w' using kv_inv_step that by blast
qed

text \<open>
  C31: the server is linearizable. In every reachable state the responses are the answers a
  single store gives to the requests in the order in which they were served, the store is the
  one this history leaves, and the requests a client has queued are those of it that were
  served, in the same order, followed by those that wait in its channel: none is lost,
  repeated or overtaken. Accepting, closing connections and \<open>Close\<close> may happen at any time.
\<close>

theorem kv_linearizable:
  assumes "reach kv_init kv_step w"
  shows "responses w = answers [] (map snd (served w)) \<and>
    (\<forall>k. kv_get k (store (srv w)) = last_set (map snd (served w)) k) \<and>
    (\<forall>c. of_client c (queued w) = of_client c (served w) @ kv_waiting (srv w) c)"
  using kv.reach_inv [OF assms] by (simp add: kv_inv_def)

definition kv_run :: "kv_event list \<Rightarrow> kv_world option" where
  "kv_run es = run_opt (\<lambda>e w. map_option (\<lambda>w'. (w', ())) (kv_exec e w)) es (kv_world_of (kv_New\<lparr>ln := True\<rparr>))"

lemma kv_run_reach: "kv_run es = Some w \<Longrightarrow> reach kv_init kv_step w"
proof -
  assume "kv_run es = Some w"
  then have st: "steps kv_step (kv_world_of (kv_New\<lparr>ln := True\<rparr>)) es w"
    using run_opt_steps [of "\<lambda>e w. map_option (\<lambda>w'. (w', ())) (kv_exec e w)"]
    by (simp add: kv_run_def kv_step_def [abs_def])
  have "kv_init (kv_world_of (kv_New\<lparr>ln := True\<rparr>))"
    by (simp add: kv_init_def Start_def kv_New_def)
  then show ?thesis using st by (metis reach.reach_init reach_steps)
qed

theorem kv_linearizable_witness:
  "\<exists>w. kv_run [KAccept 1, KAccept 2, KBytes 1 (''set,a,1'' @ [CHR 0x0A]), KBytes 2 (''get,a'' @ [CHR 0x0A]),
       KReceiver 2, KReceiver 1, KDispatch, KDispatch, KDispatch] = Some w \<and>
     served w = [(1, \<lparr>command = ''set'', key = ''a'', val = ''1''\<rparr>), (2, \<lparr>command = ''get'', key = ''a'', val = []\<rparr>)] \<and>
     responses w = [\<lparr>command = [], key = ''a'', val = ''1''\<rparr>]"
proof -
  let ?es = "[KAccept 1, KAccept 2, KBytes 1 (''set,a,1'' @ [CHR 0x0A]), KBytes 2 (''get,a'' @ [CHR 0x0A]),
       KReceiver 2, KReceiver 1, KDispatch, KDispatch, KDispatch]"
  have "map_option served (kv_run ?es) = Some [(1, \<lparr>command = ''set'', key = ''a'', val = ''1''\<rparr>),
      (2, \<lparr>command = ''get'', key = ''a'', val = []\<rparr>)]"
    by code_simp
  then obtain w where w: "kv_run ?es = Some w"
    and s: "served w = [(1, \<lparr>command = ''set'', key = ''a'', val = ''1''\<rparr>), (2, \<lparr>command = ''get'', key = ''a'', val = []\<rparr>)]"
    by auto
  have "responses w = answers [] (map snd (served w))" using kv_linearizable [OF kv_run_reach [OF w]] by blast
  also have "\<dots> = [\<lparr>command = [], key = ''a'', val = ''1''\<rparr>]" unfolding s by (simp add: last_set_def)
  finally show ?thesis using w s by blast
qed

section \<open>A round of dispatch\<close>

text \<open>The requests a round serves when no client queues one meanwhile: the heads of the queues.\<close>

definition head_of :: "(nat, kv_client) gomap \<Rightarrow> nat \<Rightarrow> kv_request list" where
  "head_of m c = (case gm_get m c of None \<Rightarrow> [] | Some cl \<Rightarrow> take 1 (req cl))"

definition serve_heads :: "nat list \<Rightarrow> (nat, kv_client) gomap \<Rightarrow> kvstore \<times> kv_request list \<Rightarrow> kvstore \<times> kv_request list" where
  "serve_heads cs m sr = foldl (\<lambda>sr r. serve r sr) sr (concat (map (head_of m) cs))"

lemma serve_heads_other: "c \<notin> set cs \<Longrightarrow> serve_heads cs (gm_set c cl m) sr = serve_heads cs m sr"
proof -
  assume "c \<notin> set cs"
  then have "map (head_of (gm_set c cl m)) cs = map (head_of m) cs" by (auto simp: head_of_def)
  then show ?thesis by (simp only: serve_heads_def)
qed

lemma collect_from_head:
  assumes "gm_get (info s) c = Some cl"
  shows "collect_from c cs rs s = s\<lparr>info := (if req cl = [] then info s else gm_set c (cl\<lparr>req := tl (req cl)\<rparr>) (info s)),
    store := fst (serve_heads [c] (info s) (store s, rs)), disp := DCollect cs (snd (serve_heads [c] (info s) (store s, rs)))\<rparr>"
  using assms by (cases s; cases "req cl") (auto simp: collect_from_def serve_heads_def head_of_def case_prod_beta)

lemma serve_heads_Cons: "serve_heads (c # cs) m sr = serve_heads cs m (serve_heads [c] m sr)"
  by (simp add: serve_heads_def)

lemma collect_phase:
  assumes "disp s = DCollect cs rs" and "distinct cs" and "\<And>c. c \<in> set cs \<Longrightarrow> gm_get (info s) c \<noteq> None"
  shows "\<exists>m. (dispatch ^^ length cs) s = s\<lparr>info := m, store := fst (serve_heads cs (info s) (store s, rs)),
      disp := DCollect [] (snd (serve_heads cs (info s) (store s, rs)))\<rparr> \<and>
    (\<forall>c. gm_get m c = map_option (\<lambda>cl. if c \<in> set cs then cl\<lparr>req := tl (req cl)\<rparr> else cl) (gm_get (info s) c))"
  using assms
proof (induction cs arbitrary: s rs)
  case Nil
  then show ?case by (intro exI [of _ "info s"]) (cases s, simp add: serve_heads_def option.map_ident)
next
  case (Cons c cs)
  obtain cl where cl: "gm_get (info s) c = Some cl" using Cons.prems(3) [of c] by auto
  define sr where "sr = serve_heads [c] (info s) (store s, rs)"
  define m where "m = (if req cl = [] then info s else gm_set c (cl\<lparr>req := tl (req cl)\<rparr>) (info s))"
  define t where "t = s\<lparr>info := m, store := fst sr, disp := DCollect cs (snd sr)\<rparr>"
  have step: "dispatch s = t" unfolding t_def m_def sr_def
    using Cons.prems(1) collect_from_head [OF cl] by (simp add: dispatch_def)
  have m: "gm_get m d = map_option (\<lambda>cl. if d = c then cl\<lparr>req := tl (req cl)\<rparr> else cl) (gm_get (info s) d)" for d
    using cl by (cases cl) (auto simp: m_def option.map_ident)
  have "c \<notin> set cs" using Cons.prems(2) by simp
  then have same: "serve_heads cs m sr = serve_heads (c # cs) (info s) (store s, rs)"
    unfolding serve_heads_Cons [of c cs] sr_def [symmetric] by (simp add: m_def serve_heads_other)
  have "\<exists>n. (dispatch ^^ length cs) t = t\<lparr>info := n, store := fst (serve_heads cs (info t) (store t, snd sr)),
      disp := DCollect [] (snd (serve_heads cs (info t) (store t, snd sr)))\<rparr> \<and>
    (\<forall>d. gm_get n d = map_option (\<lambda>cl. if d \<in> set cs then cl\<lparr>req := tl (req cl)\<rparr> else cl) (gm_get (info t) d))"
    by (rule Cons.IH) (use Cons.prems m in \<open>auto simp: t_def\<close>)
  then obtain n where n: "(dispatch ^^ length cs) t = t\<lparr>info := n, store := fst (serve_heads cs m sr),
      disp := DCollect [] (snd (serve_heads cs m sr))\<rparr>"
    "\<And>d. gm_get n d = map_option (\<lambda>cl. if d \<in> set cs then cl\<lparr>req := tl (req cl)\<rparr> else cl) (gm_get m d)"
    by (auto simp: t_def)
  have "(dispatch ^^ length (c # cs)) s = (dispatch ^^ length cs) t"
    by (simp add: funpow_Suc_right step del: funpow.simps)
  moreover have "gm_get n d = map_option (\<lambda>cl. if d \<in> set (c # cs) then cl\<lparr>req := tl (req cl)\<rparr> else cl) (gm_get (info s) d)" for d
    using \<open>c \<notin> set cs\<close> by (cases "gm_get (info s) d") (auto simp: n(2) m)
  ultimately show ?case using n(1) same by (intro exI [of _ n]) (simp add: t_def)
qed

lemma send_phase:
  assumes "disp s = DSend cs rs" and "distinct cs"
  shows "\<exists>m. (dispatch ^^ length cs) s = s\<lparr>info := m, disp := DSend [] rs\<rparr> \<and>
    (\<forall>c. gm_get m c = map_option (\<lambda>cl. if c \<in> set cs then offer rs cl else cl) (gm_get (info s) c))"
  using assms
proof (induction cs arbitrary: s)
  case Nil
  then show ?case by (intro exI [of _ "info s"]) (cases s, simp add: option.map_ident)
next
  case (Cons c cs)
  define t where "t = s\<lparr>info := offer_to c rs (info s), disp := DSend cs rs\<rparr>"
  have "dispatch s = t" using Cons.prems(1) by (simp add: dispatch_def t_def)
  then have "(dispatch ^^ length (c # cs)) s = (dispatch ^^ length cs) t"
    by (simp add: funpow_Suc_right del: funpow.simps)
  moreover obtain m where m: "(dispatch ^^ length cs) t = t\<lparr>info := m, disp := DSend [] rs\<rparr>"
    "\<And>d. gm_get m d = map_option (\<lambda>cl. if d \<in> set cs then offer rs cl else cl) (gm_get (info t) d)"
    using Cons.IH [of t] Cons.prems(2) by (auto simp: t_def)
  moreover have "gm_get m d = map_option (\<lambda>cl. if d \<in> set (c # cs) then offer rs cl else cl) (gm_get (info s) d)" for d
    using Cons.prems(2) by (cases "gm_get (info s) d") (auto simp: m(2) t_def offer_to_get)
  ultimately show ?case by (intro exI [of _ m]) (simp add: t_def)
qed

text \<open>Putting two runs of a function one after the other.\<close>

lemma funpow_then: "(f ^^ m) x = y \<Longrightarrow> (f ^^ n) y = z \<Longrightarrow> (f ^^ (n + m)) x = z"
  by (simp add: funpow_add)

lemma dispatch_simps:
  "disp s = DTop \<Longrightarrow> dispatch s = s\<lparr>disp := DCollect (kv_clients s) []\<rparr>"
  "disp s = DCollect [] rs \<Longrightarrow> dispatch s = s\<lparr>disp := (if rs = [] then DTop else DYield rs)\<rparr>"
  "disp s = DYield rs \<Longrightarrow> dispatch s = s\<lparr>disp := DSend (kv_clients s) rs\<rparr>"
  "disp s = DSend [] rs \<Longrightarrow> dispatch s = s\<lparr>disp := DTop\<rparr>"
  by (simp_all add: dispatch_def Iter_def)

text \<open>
  C33: a round of \<open>dispatch\<close> ends and is fair. Left alone, from the top of its loop it comes
  back there within \<open>2 n + 4\<close> steps for \<open>n\<close> clients, having served the oldest request of every
  client in the order of the list, and having put every response into the channel of every
  client in order, as far as its 500 places last; clients not in the list are untouched.
\<close>

theorem dispatch_round:
  assumes "disp s = DTop" and "distinct (kv_clients s)"
    and "\<forall>c \<in> set (kv_clients s). \<exists>cl. gm_get (info s) c = Some cl \<and> length (res cl) \<le> kv_cap"
  shows "\<exists>n \<le> 2 * Count s + 4. \<exists>m. let sr = serve_heads (kv_clients s) (info s) (store s, []) in
    (dispatch ^^ n) s = s\<lparr>info := m, store := fst sr\<rparr> \<and>
    (\<forall>c. gm_get m c = map_option (\<lambda>cl. if c \<in> set (kv_clients s)
       then cl\<lparr>req := tl (req cl), res := take kv_cap (res cl @ snd sr)\<rparr> else cl) (gm_get (info s) c))"
proof -
  define sr where "sr = serve_heads (kv_clients s) (info s) (store s, [])"
  define k where "k = length (kv_clients s)"
  have start: "(dispatch ^^ 1) s = s\<lparr>disp := DCollect (kv_clients s) []\<rparr>" using dispatch_simps(1) [OF assms(1)] by simp
  obtain m where m: "(dispatch ^^ k) (s\<lparr>disp := DCollect (kv_clients s) []\<rparr>) =
      s\<lparr>info := m, store := fst sr, disp := DCollect [] (snd sr)\<rparr>"
    "\<And>c. gm_get m c = map_option (\<lambda>cl. if c \<in> set (kv_clients s) then cl\<lparr>req := tl (req cl)\<rparr> else cl) (gm_get (info s) c)"
    using collect_phase [of "s\<lparr>disp := DCollect (kv_clients s) []\<rparr>" "kv_clients s" "[]"] assms(2,3)
    by (force simp: sr_def k_def)
  note first = funpow_then [OF start m(1)]
  have s0: "s\<lparr>disp := DTop\<rparr> = s" using assms(1) by (cases s) simp
  show ?thesis
  proof (cases "snd sr = []")
    case True
    have "(dispatch ^^ (1 + (k + 1))) s = s\<lparr>info := m, store := fst sr, disp := DTop\<rparr>"
      by (rule funpow_then [OF first]) (simp add: dispatch_simps(2) True)
    moreover have "gm_get m c = map_option (\<lambda>cl. if c \<in> set (kv_clients s)
        then cl\<lparr>req := tl (req cl), res := take kv_cap (res cl @ snd sr)\<rparr> else cl) (gm_get (info s) c)" for c
      using assms(3) m(2) [of c] True by (cases "gm_get (info s) c") fastforce+
    ultimately show ?thesis using s0 unfolding sr_def [symmetric] Let_def
      by (intro exI [of _ "1 + (k + 1)"] conjI exI [of _ m]) (auto simp: Count_def Len_def k_def assms(1) [symmetric])
  next
    case False
    let ?t = "s\<lparr>info := m, store := fst sr, disp := DSend (kv_clients s) (snd sr)\<rparr>"
    have "(dispatch ^^ 2) (s\<lparr>info := m, store := fst sr, disp := DCollect [] (snd sr)\<rparr>) = ?t"
      using False by (simp add: numeral_2_eq_2 dispatch_simps(2,3))
    note second = funpow_then [OF first this]
    obtain m' where m': "(dispatch ^^ k) ?t = ?t\<lparr>info := m', disp := DSend [] (snd sr)\<rparr>"
      "\<And>c. gm_get m' c = map_option (\<lambda>cl. if c \<in> set (kv_clients s) then offer (snd sr) cl else cl) (gm_get m c)"
      using send_phase [of ?t "kv_clients s" "snd sr"] assms(2) by (auto simp: k_def)
    have "(dispatch ^^ (1 + (k + (2 + (k + 1))))) s = s\<lparr>info := m', store := fst sr, disp := DTop\<rparr>"
      by (rule funpow_then [OF funpow_then [OF second m'(1)]]) (simp add: dispatch_simps(4))
    moreover have "gm_get m' c = map_option (\<lambda>cl. if c \<in> set (kv_clients s)
        then cl\<lparr>req := tl (req cl), res := take kv_cap (res cl @ snd sr)\<rparr> else cl) (gm_get (info s) c)" for c
      using assms(3) m(2) [of c] m'(2) [of c] by (cases "gm_get (info s) c") (auto simp: offer_take)
    ultimately show ?thesis using s0 unfolding sr_def [symmetric] Let_def
      by (intro exI [of _ "1 + (k + (2 + (k + 1)))"] conjI exI [of _ m'])
        (auto simp: Count_def Len_def k_def assms(1) [symmetric])
  qed
qed

definition kv_example :: keyValueServer where
  "kv_example = \<lparr>ln = True, kv_clients = [1, 2],
     info = [(1, \<lparr>conn = 1, inbuf = [], req = [\<lparr>command = ''set'', key = ''a'', val = ''1''\<rparr>], res = [], written = []\<rparr>),
             (2, \<lparr>conn = 2, inbuf = [], req = [\<lparr>command = ''get'', key = ''a'', val = []\<rparr>], res = [], written = []\<rparr>)],
     store = [], disp = DTop\<rparr>"

theorem dispatch_round_witness:
  "\<exists>n \<le> 8. \<exists>cl. gm_get (info ((dispatch ^^ n) kv_example)) 1 = Some cl \<and>
     req cl = [] \<and> res cl = [\<lparr>command = [], key = ''a'', val = ''1''\<rparr>]"
proof -
  have sr: "serve_heads (kv_clients kv_example) (info kv_example) (store kv_example, []) =
      ([(''a'', ''1'')], [\<lparr>command = [], key = ''a'', val = ''1''\<rparr>])"
    by (simp add: kv_example_def serve_heads_def head_of_def serve_def kv_set_def kv_get_def)
  have "\<exists>n \<le> 2 * Count kv_example + 4. \<exists>m.
      let sr = serve_heads (kv_clients kv_example) (info kv_example) (store kv_example, []) in
      (dispatch ^^ n) kv_example = kv_example\<lparr>info := m, store := fst sr\<rparr> \<and>
      (\<forall>c. gm_get m c = map_option (\<lambda>cl. if c \<in> set (kv_clients kv_example)
         then cl\<lparr>req := tl (req cl), res := take kv_cap (res cl @ snd sr)\<rparr> else cl) (gm_get (info kv_example) c))"
    by (rule dispatch_round) (simp_all add: kv_example_def)
  then obtain n m where n: "n \<le> 2 * Count kv_example + 4"
      "(dispatch ^^ n) kv_example = kv_example\<lparr>info := m, store := [(''a'', ''1'')]\<rparr>"
    and m: "\<forall>c. gm_get m c = map_option (\<lambda>cl. if c \<in> set (kv_clients kv_example)
         then cl\<lparr>req := tl (req cl), res := take kv_cap (res cl @ [\<lparr>command = [], key = ''a'', val = ''1''\<rparr>])\<rparr> else cl)
         (gm_get (info kv_example) c)"
    unfolding sr Let_def fst_conv snd_conv by blast
  have "n \<le> 8" using n(1) by (simp add: Count_def Len_def kv_example_def)
  then show ?thesis using n(2) spec [OF m, of 1] by (intro exI [of _ n]) (simp add: kv_example_def kv_cap_def)
qed

section \<open>Behaviour at the edges\<close>

text \<open>
  An unknown command is not answered and the receiver goes on after the next comma, so the
  line that follows it is lost when it contains no comma before its command ends.
\<close>

lemma unknown_command_swallows_line:
  "repeat_opt 2 kv_receiver \<lparr>conn = 0, inbuf = ''put,a'' @ [CHR 0x0A] @ ''get,b'' @ [CHR 0x0A],
     req = [], res = [], written = []\<rparr> =
   Some \<lparr>conn = 0, inbuf = ''b'' @ [CHR 0x0A], req = [], res = [], written = []\<rparr>"
  by code_simp

text \<open>\<open>Close\<close> only stops new connections: the clients it has are still counted and served.\<close>

lemma Close_keeps_clients:
  "Count (kv_Close s) = Count s \<and> dispatch (kv_Close s) = kv_Close (dispatch s)"
  by (auto simp: kv_Close_def Count_def dispatch_def collect_from_def case_prod_beta Iter_def
      split: dispatch_pc.splits list.splits option.splits)

section \<open>The runners\<close>

text \<open>
  \<open>main\<close> of \<open>srunner.go\<close>, given the error of listening on a port, if any: what it prints, and the
  server that runs while it blocks for ever. \<open>New\<close> never returns nil. \<open>main\<close> of \<open>crunner.go\<close>
  prints one line.
\<close>

definition kv_srunner_main :: "(nat \<Rightarrow> string option) \<Rightarrow> string \<times> keyValueServer option" where
  "kv_srunner_main listen_err = (case listen_err 9999 of
       Some e \<Rightarrow> (''KeyValueServer could not be started: '' @ e @ [CHR 0x0A], None)
     | None \<Rightarrow> (''Started KeyValueServer on port 9999...'' @ [CHR 0x0A], Start True kv_New))"

definition kv_crunner_main :: string where
  "kv_crunner_main = ''Not implemented.'' @ [CHR 0x0A]"

text \<open>The server the runner leaves is one the invariants start from.\<close>

theorem kv_srunner_starts:
  assumes "listen_err 9999 = None"
  shows "\<exists>out s. kv_srunner_main listen_err = (out, Some s) \<and> reach kv_init kv_step (kv_world_of s)"
  using assms by (auto simp: kv_srunner_main_def Start_def kv_init_def intro: reach_init)

end
