(* ===== verification/Midterm.thy ===== *)
theory Midterm
  imports Dsys_Prelude "HOL-Library.Word"
begin

text \<open>
  The program \<open>midterm.go\<close>: \<open>fibonacci\<close> sends numbers into a buffered channel until it has
  sent as many as the channel holds, and closes it; \<open>main\<close> prints them.
\<close>

type_synonym go_int = "64 word"

text \<open>
  The loop with \<open>n\<close> rounds left on a channel with capacity \<open>c\<close>; \<open>None\<close> when a send blocks. An
  \<open>int\<close> has 64 bits and wraps around.
\<close>

fun fib_loop :: "nat \<Rightarrow> nat \<Rightarrow> go_int \<Rightarrow> go_int \<Rightarrow> go_int list \<Rightarrow> go_int list option" where
  "fib_loop c 0 x y buf = Some buf"
| "fib_loop c (Suc n) x y buf = (if length buf < c then fib_loop c n y (x + y) (buf @ [x]) else None)"

definition fibonacci :: "nat \<Rightarrow> go_int list option" where
  "fibonacci c = fib_loop c c 0 1 []"

definition midterm_main :: "string list option" where
  "midterm_main = map_option (map (\<lambda>x. Itoa (sint x))) (fibonacci 6)"

section \<open>The numbers sent\<close>

fun fib :: "nat \<Rightarrow> nat" where
  "fib 0 = 0"
| "fib (Suc 0) = 1"
| "fib (Suc (Suc n)) = fib n + fib (Suc n)"

lemma fib_loop_values:
  "fib_loop (length buf + n) n (of_nat (fib k)) (of_nat (fib (Suc k))) buf =
     Some (buf @ map (\<lambda>i. of_nat (fib i)) [k..<k + n])"
proof (induction n arbitrary: k buf)
  case (Suc n)
  have "of_nat (fib k) + of_nat (fib (Suc k)) = (of_nat (fib (Suc (Suc k))) :: go_int)" by simp
  moreover have "[k..<k + Suc n] = k # [Suc k..<Suc k + n]" by (simp add: upt_conv_Cons)
  ultimately show ?case using Suc [of "buf @ [of_nat (fib k)]" "Suc k"] by (simp del: fib.simps upt_Suc)
qed simp

text \<open>
  The goroutine never blocks: it sends exactly the first \<open>c\<close> Fibonacci numbers, modulo the
  64 bits of an \<open>int\<close>.
\<close>

lemma fibonacci_values: "fibonacci c = Some (map (\<lambda>i. of_nat (fib i)) [0..<c])"
  using fib_loop_values [of "[]" c 0] by (simp add: fibonacci_def)

lemma midterm_output: "midterm_main = Some [''0'', ''1'', ''1'', ''2'', ''3'', ''5'']"
  unfolding midterm_main_def fibonacci_values by code_simp

end
