(* ===== verification/Spec2Isabelle.thy ===== *)
theory Spec2Isabelle
  imports Bufchan Lsp_Echo Lsp_Packets Lsp_Backpressure Mapreduce_Worker Wordcount Bitcoin_Main Kv_Server Midterm
begin

text \<open>
  A verification library for the programs of this repository, which are the projects of a course
  on distributed systems, written in Go.

  \<^bold>\<open>The programs and their models.\<close>

  \<^item> \<open>src/bufchan\<close>, a first-in first-out channel without a bound: \<open>Bufchan\<close>. Its state is the
    list behind the mutex; \<open>bc_step\<close> adds the goroutines that sleep on the condition variable.

  \<^item> \<open>src/project-1\<close>, a key-value server that sends every answer to every client, and the
    concurrent list it keeps its clients in: \<open>Kv_Server\<close>. Every method of the list is one
    critical section. The goroutines (\<open>listen\<close>, a receiver and a sender per client,
    \<open>dispatch\<close>) are events of \<open>kv_exec\<close>; \<open>dispatch\<close> is stepped client by client, and while one
    of its iterations holds the mutex of the list no client is added or removed.

  \<^item> \<open>src/project-2/.../lsp\<close>, a protocol for ordered delivery over UDP. \<open>Lsp_Message\<close> has the
    messages, parameters and status; \<open>Lsp_Endpoint\<close> what the two handlers share (window,
    buffers, delivery loop); \<open>Lsp_Client\<close> and \<open>Lsp_Server\<close> the two programs, one definition for
    each case of each select loop (\<open>client_handler\<close>, \<open>server_handle\<close>, \<open>handleClient\<close>);
    \<open>Lsp_Protocol\<close> puts a client and its connection on a network that loses, repeats and
    reorders packets, \<open>Lsp_Liveness\<close> shows what its messages look like and that it makes
    progress, \<open>Lsp_System\<close> puts the whole server and any number of clients on that network, and
    \<open>Lsp_Backpressure\<close> follows a server whose channels are full. \<open>Lsp_Wire\<close> has \<open>io.go\<close>: the
    bytes of a packet, and \<open>Lsp_Packets\<close> that all messages of the system survive as packets.
    \<open>Lsp_Runner\<close> has the echo programs \<open>srunner\<close> and \<open>crunner\<close>, \<open>Lsp_Echo\<close>
    the echo service over the whole system.

  \<^item> \<open>src/project-2/.../lspnet\<close>, the layer between LSP and the sockets that drops and alters
    packets on purpose: \<open>Lspnet\<close>.

  \<^item> \<open>src/project-2/.../bitcoin\<close>, distributed mining on top of LSP. \<open>Bitcoin_Message\<close> has the
    messages and the hash, \<open>Bitcoin_Miner\<close> the miner, \<open>Bitcoin_Server\<close> the scheduler,
    \<open>Bitcoin_Wire\<close> the JSON form of the messages and the client, \<open>Bitcoin_Main\<close> the programs
    around the loops of the miner and the server.

  \<^item> \<open>src/project-3\<close>, map-reduce. \<open>Mapreduce_Files\<close> has the bytes of the intermediate files,
    \<open>Mapreduce\<close> the operations on files and the sequential run, \<open>Mapreduce_Master\<close> the master and
    the goroutine it has for every worker, \<open>Mapreduce_Registration\<close> the process around the master
    with its registration server, \<open>Mapreduce_Worker\<close> the process of a worker, \<open>Wordcount\<close> the
    application \<open>wc.go\<close>.

  \<^item> \<open>src/midterm.go\<close>: \<open>Midterm\<close>.

  \<open>Dsys_Prelude\<close>, \<open>Utf8\<close>, \<open>Base64\<close>, \<open>Json\<close> and \<open>Json_Roundtrip\<close> have what the programs use of
  Go and its library: maps, decimal conversion, runes, and \<open>encoding/json\<close> with its scanner,
  string literals, number literals and the conversion into structs.

  \<^bold>\<open>How the models are built.\<close> A struct is a record, a channel a list, a Go map an association
  list with distinct keys. An iteration of a goroutine's loop is one step on the state; a step
  that would block is not enabled, which is the value \<open>None\<close>. A panic, a fatal exit and a
  self-deadlock are values (\<open>NilDeref\<close>, \<open>Panics\<close>, \<open>Fatal\<close>, \<open>Stuck\<close>). Runs are described by
  \<open>reach\<close> and \<open>steps\<close> of the prelude, and invariants are proved through its locale
  \<open>inductive_invariant\<close>, which every component interprets on its own step relation. Further
  locales state contracts that several parts share and are interpreted on the model: refinement of labelled
  steps (LSP), epoch counters (LSP client and server), job phases and applications that yield valid text
  (map-reduce), percentage setters (\<open>lspnet\<close>). History variables
  (\<open>goal\<close>, \<open>log\<close>, \<open>queued\<close>, \<open>served\<close>, \<open>responses\<close>, \<open>c_written\<close>, \<open>srv_read\<close> and the like) record what happened and do not influence
  a step.

  \<^bold>\<open>What is shown.\<close>

  \<^item> LSP: for one client and its connection, delivery in order, refinement of a pair of queues with the
    payloads written and delivered as labels, the form of every message, the window, the epochs, and that
    from every state of a connection that is up all that was written can still be delivered. For the server,
    unique and isolated connections. For a server with all its clients, a simulation by the single
    connection, and so delivery in order between the applications and no loss when a client closes in order; with
    the echo programs, that a client reads what it wrote. The round trip of a packet and the size from which packets cannot
    be read; and the cases in which closing (also with a payload still in \<open>s.outgoing\<close>), connecting, idling, a
    full channel or a packet that does not decode goes wrong.

  \<^item> lspnet: headers are never altered, percentages are bounded, and what a negative shortening
    percentage does.

  \<^item> map-reduce: the sequential run computes the reduction of all values of every key, the
    distributed run and the process of the master write the same file, jobs are conserved, runs
    without failing calls end, the registration server stops; and the deadlock after a failing
    reduce call, the worker that survives its shutdown and the registration that comes too late to be answered.
    The word count is exact, sequentially and distributed, on inputs that fill as many splits as
    there are map jobs; a shorter input ends the sequential run with an error.

  \<^item> Mining: for connections that send one request or one join (\<open>well_behaved\<close>, which also
    asks for a positive number of pieces, restricts the steps \<open>bs_step\<close> and is not checked by the
    server) the accounting of the scheduler, the reply of a miner, the answer to the client, and in this theory the three together; the bytes between client, server and miner; and the inputs
    that crash or mislead the server and the miner.

  \<^item> The key-value server: it answers as one sequential store in the order it serves, serves
    every client in order, and a round of \<open>dispatch\<close> ends and reaches every client.

  \<^item> The buffered channel: order, and no lost wake-up.

  \<^bold>\<open>Bounds and choices.\<close> Sequence numbers of LSP are unbounded integers; on the wire they have
  64 bits. The parser of JSON recurses on a number that is twice the length of its input plus
  one; \<open>Json.json_fuel\<close> proves that more makes no difference. The delivery loop, the search
  loops and the decoders are total by a measure. The network keeps every packet ever sent, so a
  packet may arrive never, late or often. The file system is a map from names to bytes; the intermediate files
  hold the text a JSON encoder writes, and \<open>Mapreduce_Files.Decode_all_Encode\<close> proves what is read back.
  A remote call that fails may have written any part of the output of its own job. The \<open>handle\<close> goroutine, the
  receiver and the methods of the LSP server wait at full channels; the goroutine of a connection
  keeps what it wants to send on a full channel all connections share. The LSP client acknowledges a message and
  advances before it waits for room in a full \<open>rmsg\<close>, while it makes no other step. Reading and setting the closing status is one
  step, and so are accepting a connection and counting it in a map-reduce worker. The receive on \<open>DoneChannel\<close> is the last
  step of a master; its process may exit at any time after it. \<open>math.Log\<close>, \<open>math.Log10\<close> and \<open>math.Ceil\<close>, the table of letters above Latin-1, random
  numbers and the answers of the operating system are arguments; what a theorem needs of them is
  in its hypotheses.

  \<^bold>\<open>Not modelled.\<close> Log output; errors of the operating system on files other than a missing one;
  the package \<open>net/rpc\<close> below the outcomes of a call; addresses beyond their text; a client that
  uses the address of an earlier one; the empty package \<open>lsp-ref\<close>.
\<close>

section \<open>Distributed word count\<close>

text \<open>
  C22: the distributed word count is exact on inputs that fill all splits. Start \<open>Run\<close> on an
  input that yields as many split files as there are map jobs; whatever workers register, fail
  and interleave, when \<open>RunMaster\<close> returns, the merged output file lists every word of the text
  the scanner reads once, in byte order, with the number of its occurrences. If the input consists
  of lines of less than 65536 bytes that end in a newline without a carriage return before it,
  these are the words of the input itself; at a longer line the scanner stops.
\<close>

theorem distributed_wordcount_exact:
  assumes "fs f = Some b" and "0 < nmap" and "length (parts nmap b) = nmap"
    and "0 < nreduce" and "nreduce < 2 ^ 32"
    and "length (words table (text_of (scan_lines b))) < 2 ^ 63"
    and "Run_start (InitMapReduce nmap nreduce f master) fs = Inr s0"
    and "steps (mr_step (wc_Map table) wc_Reduce) s0 es s" and "returned s"
  shows "\<exists>fs'. Run_finish s = Inr fs' \<and>
    fs' (out_name f) = Some (wc_result (words table (text_of (scan_lines b)))) \<and>
    (\<forall>ls. b = text_of ls \<and> list_all plain_line ls \<longrightarrow> fs' (out_name f) = Some (wc_result (words table b)))"
proof -
  have "mr_result wc_Reduce (concat (map (wc_Map table) (parts nmap b))) =
      wc_result (words table (text_of (scan_lines b)))"
    using mr_result_words [OF assms(6)] by (simp add: wc_Map_concat words_parts)
  moreover have "text_of (scan_lines b) = b" if "b = text_of ls" "list_all plain_line ls" for ls
    using scan_lines_text that by simp
  ultimately show ?thesis
    using distributed_output [OF wc.utf8_app_axioms assms(1-5,7-9)] by auto
qed

theorem distributed_wordcount_exact_witness:
  "\<exists>s0 es s fs'. Run_start (InitMapReduce 2 3 ''f'' ''m'') [''f'' \<mapsto> song] = Inr s0 \<and>
     steps (mr_step (wc_Map (\<lambda>r. False)) wc_Reduce) s0 es s \<and> returned s \<and> Run_finish s = Inr fs' \<and>
     fs' (out_name ''f'') = Some (text_of [''boat: 1'', ''row: 4'', ''your: 1''])"
proof -
  let ?fs = "[''f'' \<mapsto> song]"
  have fs: "?fs ''f'' = Some song" by simp
  have t: "text_of (scan_lines song) = song" by (simp add: song_scan) (simp add: song_def)
  have plain: "song = text_of [''row row row'', ''your boat'', ''row'']"
      "list_all plain_line [''row row row'', ''your boat'', ''row'']"
    by (simp_all add: song_def plain_line_def MaxScanTokenSize_def)
  obtain s0 es s where st: "Run_start (InitMapReduce 2 3 ''f'' ''m'') ?fs = Inr s0"
      and run: "steps (mr_step (wc_Map (\<lambda>r. False)) wc_Reduce) s0 es s" and ret: "returned s"
    using complete_run [of ?fs "''f''" song 2 3 "''m''" "wc_Map (\<lambda>r. False)" wc_Reduce, OF fs _ song_parts] by auto
  have "\<exists>fs'. Run_finish s = Inr fs' \<and>
      fs' (out_name ''f'') = Some (wc_result (words (\<lambda>r. False) (text_of (scan_lines song)))) \<and>
      (\<forall>ls. song = text_of ls \<and> list_all plain_line ls \<longrightarrow>
        fs' (out_name ''f'') = Some (wc_result (words (\<lambda>r. False) song)))"
    by (rule distributed_wordcount_exact [OF fs _ song_parts _ _ _ st run ret]) (simp_all add: t song_words)
  then obtain fs' where "Run_finish s = Inr fs'" "fs' (out_name ''f'') = Some (wc_result (words (\<lambda>r. False) song))"
    using plain by blast
  then show ?thesis using st run ret unfolding song_counts by blast
qed

section \<open>Mining\<close>

lemma right_piece:
  assumes "miner_handle hash lnf arrival (NewRequest d l u) = Replies (NewResult h x)"
    and "\<And>rs. mset (arrival rs) = mset rs"
    and "l < u" and "u < - 1" and "n = unat (u - l)"
    and "0 < lnf n" and "lnf n \<le> int n" and "int n mod lnf n = 0"
    and "\<And>y. l \<le> y \<Longrightarrow> y \<le> u \<Longrightarrow> hash d y \<noteq> 0"
  shows "l \<le> x \<and> x \<le> u \<and> h = hash d x \<and> h \<noteq> 0 \<and> (\<forall>y. l \<le> y \<and> y \<le> u \<longrightarrow> h \<le> hash d y)"
proof -
  define w where "w = nat (lnf n)"
  have w: "lnf n = int w" "0 < w" "w \<le> n" using assms(6,7) by (simp_all add: w_def)
  have "int (n mod w) = 0" using assms(8) w(1) by (simp add: zmod_int)
  then have dvd: "w * (n div w) = n" using mult_div_mod_eq [of w n] by simp
  have sum: "unat l + n = unat u"
    using assms(3,5) by (simp add: word_less_nat_alt unat_sub word_le_nat_alt)
  obtain z where z: "miner_handle hash lnf arrival (NewRequest d l u) = Replies (NewResult (hash d z) z)"
      "l \<le> z" "unat z \<le> unat u" "\<And>y. l \<le> y \<Longrightarrow> unat y \<le> unat u \<Longrightarrow> hash d z \<le> hash d y"
    using miner_reply [of "NewRequest d l u" n lnf w arrival hash] assms(2-5,9) w dvd sum
      less_imp_le [OF assms(3)] by (auto simp: NewRequest_def)
  then have "h = hash d z" "x = z" using assms(1) by (simp_all add: NewResult_def)
  then show ?thesis using z(2-4) assms(9) by (auto simp: word_le_nat_alt)
qed

text \<open>
  C29: mining from end to end. Let the scheduler answer a client whose request was split into
  \<open>k\<close> pieces that cover it, each with a proper range whose length the number of goroutines of a
  miner divides, and let every accepted result be what some miner replies to the request for
  its piece, in whatever order its goroutines finish. If no hash is 0, the answer is a nonce up
  to the bound with the smallest hash of all, whatever miners joined, were lost and finished
  in whatever order.
\<close>

theorem mining_end_to_end:
  assumes "reach bs_init (bs_step flog10 fceil) (s, g)"
    and "schedule flog10 fceil EvResult s = Some (Next t ws)" and "(c, m) \<in> set ws"
    and "gm_get (goal g) c = Some (pieces_of fceil k r)"
    and "0 < k" and "unat (r_upper r) \<le> k * unat (fceil (unat (r_upper r)) k)"
    and "k * unat (fceil (unat (r_upper r)) k) < 2 ^ 64"
    and "\<And>p n. p \<in> set (pieces_of fceil k r) \<Longrightarrow> n = unat (r_upper p - r_lower p) \<Longrightarrow>
      r_lower p < r_upper p \<and> r_upper p < - 1 \<and> 0 < lnf n \<and> lnf n \<le> int n \<and> int n mod lnf n = 0"
    and "\<And>y. y \<le> r_upper r \<Longrightarrow> hash (r_data r) y \<noteq> 0"
    and "\<And>p h x. (p, h, x) \<in> set (log_of (ghost_step flog10 fceil EvResult s g) c) \<Longrightarrow>
      \<exists>arrival. (\<forall>rs. mset (arrival rs) = mset rs) \<and>
        miner_handle hash lnf arrival (NewRequest (r_data p) (r_lower p) (r_upper p)) = Replies (NewResult h x)"
  shows "\<exists>x. m = NewResult (hash (r_data r) x) x \<and> x \<le> r_upper r \<and>
    (\<forall>y. y \<le> r_upper r \<longrightarrow> hash (r_data r) x \<le> hash (r_data r) y)"
proof (rule client_reply_best [OF assms(1-7)])
  fix p h x
  assume in_log: "(p, h, x) \<in> set (log_of (ghost_step flog10 fceil EvResult s g) c)"
  have "work_ok s g" using bitcoin.reach_inv [OF assms(1)] by simp
  then have "mset (map fst (log_of (ghost_step flog10 fceil EvResult s g) c)) = mset (pieces_of fceil k r)"
    using reply_account [OF _ assms(2,3) refl] assms(4) by fastforce
  from mset_eq_setD [OF this]
  have "fst ` set (log_of (ghost_step flog10 fceil EvResult s g) c) = set (pieces_of fceil k r)" by simp
  then have p: "p \<in> set (pieces_of fceil k r)" using in_log by force
  then have d: "r_data p = r_data r" and u: "r_upper p \<le> r_upper r"
    using pieces_upper [OF p] by (auto simp: pieces_of_def Let_def)
  obtain arrival where a: "\<And>rs. mset (arrival rs) = mset rs"
      "miner_handle hash lnf arrival (NewRequest (r_data r) (r_lower p) (r_upper p)) = Replies (NewResult h x)"
    using assms(10) [OF in_log] unfolding d by blast
  show "r_lower p \<le> x \<and> x \<le> r_upper p \<and> h = hash (r_data r) x \<and> h \<noteq> 0 \<and>
      (\<forall>y. r_lower p \<le> y \<and> y \<le> r_upper p \<longrightarrow> h \<le> hash (r_data r) y)"
    by (rule right_piece [OF a(2,1)]) (use assms(8) [OF p refl] assms(9) order_trans [OF _ u] in auto)
qed

theorem mining_end_to_end_witness:
  "reach bs_init (bs_step (\<lambda>_. 4) (\<lambda>n k. of_nat n)) demo_state \<and>
   (\<exists>t. schedule (\<lambda>_. 4) (\<lambda>n k. of_nat n) EvResult (fst demo_state) = Some (Next t [(2, NewResult 1 0)])) \<and>
   miner_handle (\<lambda>d x. x + 1) (\<lambda>n. 1) (\<lambda>rs. rs) (NewRequest ''m'' 0 5) = Replies (NewResult 1 0) \<and>
   (\<exists>x. NewResult 1 0 = NewResult (x + 1) x \<and> x \<le> 5 \<and> (\<forall>y. y \<le> 5 \<longrightarrow> x + 1 \<le> y + (1 :: uint64)))"
proof -
  obtain t where t: "schedule (\<lambda>_. 4) (\<lambda>n k. of_nat n) EvResult (fst demo_state) = Some (Next t [(2, NewResult 1 0)])"
    using demo_answer(1) by blast
  have nz: "y + 1 \<noteq> 0" if "y \<le> (5 :: uint64)" for y
  proof -
    have "unat y \<le> 5" using that by (simp add: word_le_nat_alt)
    then have "unat (y + 1) = unat y + 1" by (simp add: unat_word_ariths)
    then show ?thesis by auto
  qed
  have reply: "miner_handle (\<lambda>d x. x + 1) (\<lambda>n. 1) (\<lambda>rs. rs) (NewRequest ''m'' 0 5) = Replies (NewResult 1 0)"
    by code_simp
  have "\<exists>x. NewResult 1 0 = NewResult (x + 1) x \<and> x \<le> r_upper demo_piece \<and>
      (\<forall>y. y \<le> r_upper demo_piece \<longrightarrow> x + 1 \<le> y + 1)"
  proof (rule mining_end_to_end [where g = "snd demo_state" and c = 2 and k = 1 and r = demo_piece
        and hash = "\<lambda>d x. x + 1" and lnf = "\<lambda>n. 1", OF _ t _ demo_answer(3)])
    show "reach bs_init (bs_step (\<lambda>_. 4) (\<lambda>n k. of_nat n)) (fst demo_state, snd demo_state)"
      using demo_state_reach by simp
    show "\<exists>arrival. (\<forall>rs. mset (arrival rs) = mset rs) \<and>
        miner_handle (\<lambda>d x. x + 1) (\<lambda>n. 1) arrival (NewRequest (r_data p) (r_lower p) (r_upper p)) = Replies (NewResult h x)"
      if "(p, h, x) \<in> set (log_of (ghost_step (\<lambda>_. 4) (\<lambda>n k. of_nat n) EvResult (fst demo_state) (snd demo_state)) 2)"
      for p h x
      using that reply by (intro exI [of _ "\<lambda>rs. rs"]) (simp add: demo_answer(2) demo_piece_def)
  qed (use nz in \<open>simp_all add: demo_piece_def pieces_of_def Go_min_def\<close>)
  then show ?thesis using demo_state_reach t reply by (simp add: demo_piece_def)
qed

end
